theory Spec2Isabelle
  imports Main
begin

section \<open>Node model and store\<close>

text \<open>
  A node object of the source (type \<open>Node<K, V>\<close>) is a record; object references are
  addresses into an explicit store, so that aliasing and in-place mutation through parent and
  child links are visible.  An absent link (\<open>undefined\<close>) is \<open>None\<close>.
\<close>

type_synonym addr = nat

record ('k, 'v) node =
  parent :: "addr option"
  left :: "addr option"
  right :: "addr option"
  balanceFactor :: int
  key :: 'k
  val :: "'v option"

type_synonym ('k, 'v) store = "addr \<Rightarrow> ('k, 'v) node option"

definition parent_of :: "('k, 'v) store \<Rightarrow> addr \<Rightarrow> addr option" where
  "parent_of s a = parent (the (s a))"

definition left_of :: "('k, 'v) store \<Rightarrow> addr \<Rightarrow> addr option" where
  "left_of s a = left (the (s a))"

definition right_of :: "('k, 'v) store \<Rightarrow> addr \<Rightarrow> addr option" where
  "right_of s a = right (the (s a))"

definition bf_of :: "('k, 'v) store \<Rightarrow> addr \<Rightarrow> int" where
  "bf_of s a = balanceFactor (the (s a))"

definition key_of :: "('k, 'v) store \<Rightarrow> addr \<Rightarrow> 'k" where
  "key_of s a = key (the (s a))"

definition val_of :: "('k, 'v) store \<Rightarrow> addr \<Rightarrow> 'v option" where
  "val_of s a = val (the (s a))"

definition set_parent :: "addr \<Rightarrow> addr option \<Rightarrow> ('k, 'v) store \<Rightarrow> ('k, 'v) store" where
  "set_parent a p s = s(a \<mapsto> (the (s a))\<lparr>parent := p\<rparr>)"

definition set_left :: "addr \<Rightarrow> addr option \<Rightarrow> ('k, 'v) store \<Rightarrow> ('k, 'v) store" where
  "set_left a p s = s(a \<mapsto> (the (s a))\<lparr>left := p\<rparr>)"

definition set_right :: "addr \<Rightarrow> addr option \<Rightarrow> ('k, 'v) store \<Rightarrow> ('k, 'v) store" where
  "set_right a p s = s(a \<mapsto> (the (s a))\<lparr>right := p\<rparr>)"

definition set_bf :: "addr \<Rightarrow> int \<Rightarrow> ('k, 'v) store \<Rightarrow> ('k, 'v) store" where
  "set_bf a b s = s(a \<mapsto> (the (s a))\<lparr>balanceFactor := b\<rparr>)"

definition set_key :: "addr \<Rightarrow> 'k \<Rightarrow> ('k, 'v) store \<Rightarrow> ('k, 'v) store" where
  "set_key a k s = s(a \<mapsto> (the (s a))\<lparr>key := k\<rparr>)"

definition set_val :: "addr \<Rightarrow> 'v option \<Rightarrow> ('k, 'v) store \<Rightarrow> ('k, 'v) store" where
  "set_val a v s = s(a \<mapsto> (the (s a))\<lparr>val := v\<rparr>)"

section \<open>Rotation primitives\<close>

text \<open>
  \<open>rotateLeft\<close> and \<open>rotateRight\<close>, one store update per assignment of the source, each read
  made in the store as it stands after the preceding assignments.  The result is the updated
  store and the returned node (\<open>None\<close> for \<open>undefined\<close>).
\<close>

definition rotateLeft :: "addr \<Rightarrow> ('k, 'v) store \<Rightarrow> ('k, 'v) store \<times> addr option" where
  "rotateLeft node s0 =
    (case right_of s0 node of
       None \<Rightarrow> (s0, None)
     | Some rightNode \<Rightarrow>
        let s1 = set_right node (left_of s0 rightNode) s0;
            s2 = (case left_of s1 rightNode of
                    Some rl \<Rightarrow> set_parent rl (Some node) s1
                  | None \<Rightarrow> s1);
            s3 = set_parent rightNode (parent_of s2 node) s2;
            s4 = (case parent_of s3 rightNode of
                    Some p \<Rightarrow>
                      if left_of s3 p = Some node then set_left p (Some rightNode) s3
                      else set_right p (Some rightNode) s3
                  | None \<Rightarrow> s3);
            s5 = set_parent node (Some rightNode) s4;
            s6 = set_left rightNode (Some node) s5;
            s7 = set_bf node (bf_of s6 node + 1) s6;
            s8 = (if bf_of s7 rightNode < 0
                  then set_bf node (bf_of s7 node - bf_of s7 rightNode) s7 else s7);
            s9 = set_bf rightNode (bf_of s8 rightNode + 1) s8;
            s10 = (if bf_of s9 node > 0
                   then set_bf rightNode (bf_of s9 rightNode + bf_of s9 node) s9 else s9)
        in (s10, Some rightNode))"

definition rotateRight :: "addr \<Rightarrow> ('k, 'v) store \<Rightarrow> ('k, 'v) store \<times> addr option" where
  "rotateRight node s0 =
    (case left_of s0 node of
       None \<Rightarrow> (s0, None)
     | Some leftNode \<Rightarrow>
        let s1 = set_left node (right_of s0 leftNode) s0;
            s2 = (case left_of s1 node of
                    Some lr \<Rightarrow> set_parent lr (Some node) s1
                  | None \<Rightarrow> s1);
            s3 = set_parent leftNode (parent_of s2 node) s2;
            s4 = (case parent_of s3 leftNode of
                    Some p \<Rightarrow>
                      if left_of s3 p = Some node then set_left p (Some leftNode) s3
                      else set_right p (Some leftNode) s3
                  | None \<Rightarrow> s3);
            s5 = set_parent node (Some leftNode) s4;
            s6 = set_right leftNode (Some node) s5;
            s7 = set_bf node (bf_of s6 node - 1) s6;
            s8 = (if bf_of s7 leftNode > 0
                  then set_bf node (bf_of s7 node - bf_of s7 leftNode) s7 else s7);
            s9 = set_bf leftNode (bf_of s8 leftNode - 1) s8;
            s10 = (if bf_of s9 node < 0
                   then set_bf leftNode (bf_of s9 leftNode + bf_of s9 node) s9 else s9)
        in (s10, Some leftNode))"

section \<open>The tree object\<close>

text \<open>
  The class \<open>AVLTree<K, V>\<close> with its four private fields.  The node objects live in
  \<open>heap\<close>; \<open>fresh\<close> is the address the next object literal receives.  A JavaScript number
  is an \<open>int\<close> here.
\<close>

record ('k, 'v) AVLTree =
  comparator :: "'k \<Rightarrow> 'k \<Rightarrow> int"
  root :: "addr option"
  tsize :: int
  noDuplicates :: bool
  heap :: "('k, 'v) store"
  fresh :: addr

datatype error = Error string

definition DEFAULT_COMPARE :: "'k::linorder \<Rightarrow> 'k \<Rightarrow> int" where
  "DEFAULT_COMPARE a b = (if a > b then 1 else if a < b then - 1 else 0)"

text \<open>The constructor: \<open>new AVLTree(comparator, noDuplicates)\<close>.\<close>

definition new_AVLTree :: "('k \<Rightarrow> 'k \<Rightarrow> int) \<Rightarrow> bool \<Rightarrow> ('k, 'v) AVLTree" where
  "new_AVLTree cmp nodup =
     \<lparr>comparator = cmp, root = None, tsize = 0, noDuplicates = nodup,
      heap = Map.empty, fresh = 0\<rparr>"

definition new_node ::
  "addr option \<Rightarrow> 'k \<Rightarrow> 'v option \<Rightarrow> ('k, 'v) node" where
  "new_node p k v =
     \<lparr>parent = p, left = None, right = None, balanceFactor = 0, key = k, val = v\<rparr>"

subsection \<open>Search\<close>

text \<open>
  Every \<open>while\<close> loop over links is a recursive function on the loop variables, in the
  option monad: \<open>None\<close> is a loop that never ends (possible only in a store whose links form
  a cycle).
\<close>

partial_function (option) has_loop ::
  "('k \<Rightarrow> 'k \<Rightarrow> int) \<Rightarrow> ('k, 'v) store \<Rightarrow> 'k \<Rightarrow> addr option \<Rightarrow> bool option" where
  "has_loop compare s k node =
     (case node of
        None \<Rightarrow> Some False
      | Some n \<Rightarrow>
          let cmp = compare k (key_of s n) in
          if cmp = 0 then Some True
          else if cmp < 0 then has_loop compare s k (left_of s n)
          else has_loop compare s k (right_of s n))"

declare has_loop.simps [code]

definition has :: "'k \<Rightarrow> ('k, 'v) AVLTree \<Rightarrow> (bool \<times> ('k, 'v) AVLTree) option" where
  "has k t =
     (case root t of
        None \<Rightarrow> Some (False, t)
      | Some r \<Rightarrow> map_option (\<lambda>b. (b, t)) (has_loop (comparator t) (heap t) k (Some r)))"

partial_function (option) get_loop ::
  "('k \<Rightarrow> 'k \<Rightarrow> int) \<Rightarrow> ('k, 'v) store \<Rightarrow> 'k \<Rightarrow> addr option \<Rightarrow> 'v option option" where
  "get_loop compare s k node =
     (case node of
        None \<Rightarrow> Some None
      | Some n \<Rightarrow>
          let cmp = compare k (key_of s n) in
          if cmp = 0 then Some (val_of s n)
          else if cmp < 0 then get_loop compare s k (left_of s n)
          else get_loop compare s k (right_of s n))"

declare get_loop.simps [code]

definition get :: "'k \<Rightarrow> ('k, 'v) AVLTree \<Rightarrow> ('v option \<times> ('k, 'v) AVLTree) option" where
  "get k t = map_option (\<lambda>v. (v, t)) (get_loop (comparator t) (heap t) k (root t))"

text \<open>\<open>while (node.left) node = node.left\<close> and its mirror.\<close>

partial_function (option) leftmost :: "('k, 'v) store \<Rightarrow> addr \<Rightarrow> addr option" where
  "leftmost s node =
     (case left_of s node of None \<Rightarrow> Some node | Some l \<Rightarrow> leftmost s l)"

declare leftmost.simps [code]

partial_function (option) rightmost :: "('k, 'v) store \<Rightarrow> addr \<Rightarrow> addr option" where
  "rightmost s node =
     (case right_of s node of None \<Rightarrow> Some node | Some r \<Rightarrow> rightmost s r)"

declare rightmost.simps [code]

definition minNode :: "('k, 'v) AVLTree \<Rightarrow> (addr option \<times> ('k, 'v) AVLTree) option" where
  "minNode t =
     (case root t of
        None \<Rightarrow> Some (None, t)
      | Some r \<Rightarrow> map_option (\<lambda>n. (Some n, t)) (leftmost (heap t) r))"

definition maxNode :: "('k, 'v) AVLTree \<Rightarrow> (addr option \<times> ('k, 'v) AVLTree) option" where
  "maxNode t =
     (case root t of
        None \<Rightarrow> Some (None, t)
      | Some r \<Rightarrow> map_option (\<lambda>n. (Some n, t)) (rightmost (heap t) r))"

definition tree_min :: "('k, 'v) AVLTree \<Rightarrow> ('k option \<times> ('k, 'v) AVLTree) option" where
  "tree_min t =
     (case minNode t of
        None \<Rightarrow> None
      | Some (None, t') \<Rightarrow> Some (None, t')
      | Some (Some n, t') \<Rightarrow> Some (Some (key_of (heap t') n), t'))"

definition tree_max :: "('k, 'v) AVLTree \<Rightarrow> ('k option \<times> ('k, 'v) AVLTree) option" where
  "tree_max t =
     (case maxNode t of
        None \<Rightarrow> None
      | Some (None, t') \<Rightarrow> Some (None, t')
      | Some (Some n, t') \<Rightarrow> Some (Some (key_of (heap t') n), t'))"

subsection \<open>Insertion\<close>

text \<open>
  The two descent loops of \<open>set\<close>.  The loop variables \<open>node\<close>, \<open>parent\<close> (here \<open>par\<close>) and \<open>cmp\<close> are
  the arguments.  In reject-duplicates mode the loop leaves the method on an exact match; this
  is the result \<open>Inl n\<close>, \<open>n\<close> being the matching node.
\<close>

partial_function (option) set_descend_nodup ::
  "('k \<Rightarrow> 'k \<Rightarrow> int) \<Rightarrow> ('k, 'v) store \<Rightarrow> 'k \<Rightarrow> addr option \<Rightarrow> addr option \<Rightarrow> int
    \<Rightarrow> (addr + addr option \<times> int) option" where
  "set_descend_nodup compare s k node par cmp =
     (case node of
        None \<Rightarrow> Some (Inr (par, cmp))
      | Some n \<Rightarrow>
          let cmp' = compare k (key_of s n) in
          if cmp' = 0 then Some (Inl n)
          else if cmp' < 0 then set_descend_nodup compare s k (left_of s n) (Some n) cmp'
          else set_descend_nodup compare s k (right_of s n) (Some n) cmp')"

declare set_descend_nodup.simps [code]

partial_function (option) set_descend_dup ::
  "('k \<Rightarrow> 'k \<Rightarrow> int) \<Rightarrow> ('k, 'v) store \<Rightarrow> 'k \<Rightarrow> addr option \<Rightarrow> addr option \<Rightarrow> int
    \<Rightarrow> (addr option \<times> int) option" where
  "set_descend_dup compare s k node par cmp =
     (case node of
        None \<Rightarrow> Some (par, cmp)
      | Some n \<Rightarrow>
          let cmp' = compare k (key_of s n) in
          if cmp' \<le> 0 then set_descend_dup compare s k (left_of s n) (Some n) cmp'
          else set_descend_dup compare s k (right_of s n) (Some n) cmp')"

declare set_descend_dup.simps [code]

text \<open>
  The two rebalancing blocks, which \<open>set\<close> and \<open>delete\<close> both contain:
  \<open>if (parent.right?.balanceFactor === 1) rotateRight(parent.right);
    newRoot = rotateLeft(parent); if (parent === this._root) this._root = newRoot\<close>
  and its mirror.  The result is the store, the tree's root and \<open>newRoot\<close>.
\<close>

definition rebalance_right_heavy ::
  "addr \<Rightarrow> ('k, 'v) store \<Rightarrow> addr option \<Rightarrow> ('k, 'v) store \<times> addr option \<times> addr option" where
  "rebalance_right_heavy p s rt =
     (let s1 = (case right_of s p of
                  Some r \<Rightarrow> if bf_of s r = 1 then fst (rotateRight r s) else s
                | None \<Rightarrow> s);
          (s2, newRoot) = rotateLeft p s1
      in (s2, if Some p = rt then newRoot else rt, newRoot))"

definition rebalance_left_heavy ::
  "addr \<Rightarrow> ('k, 'v) store \<Rightarrow> addr option \<Rightarrow> ('k, 'v) store \<times> addr option \<times> addr option" where
  "rebalance_left_heavy p s rt =
     (let s1 = (case left_of s p of
                  Some l \<Rightarrow> if bf_of s l = - 1 then fst (rotateLeft l s) else s
                | None \<Rightarrow> s);
          (s2, newRoot) = rotateRight p s1
      in (s2, if Some p = rt then newRoot else rt, newRoot))"

text \<open>The walk back up of \<open>set\<close>: \<open>while (parent) { ... parent = parent.parent }\<close>.\<close>

partial_function (option) set_retrace ::
  "('k \<Rightarrow> 'k \<Rightarrow> int) \<Rightarrow> 'k \<Rightarrow> addr option \<Rightarrow> ('k, 'v) store \<Rightarrow> addr option
    \<Rightarrow> (('k, 'v) store \<times> addr option) option" where
  "set_retrace compare k par s rt =
     (case par of
        None \<Rightarrow> Some (s, rt)
      | Some p \<Rightarrow>
          let s1 = (if compare (key_of s p) k < 0 then set_bf p (bf_of s p - 1) s
                    else set_bf p (bf_of s p + 1) s) in
          if bf_of s1 p = 0 then Some (s1, rt)
          else if bf_of s1 p < - 1 then
            Some (fst (rebalance_right_heavy p s1 rt), fst (snd (rebalance_right_heavy p s1 rt)))
          else if bf_of s1 p > 1 then
            Some (fst (rebalance_left_heavy p s1 rt), fst (snd (rebalance_left_heavy p s1 rt)))
          else set_retrace compare k (parent_of s1 p) s1 rt)"

declare set_retrace.simps [code]

definition tree_set ::
  "'k \<Rightarrow> 'v option \<Rightarrow> ('k, 'v) AVLTree \<Rightarrow> ((error + unit) \<times> ('k, 'v) AVLTree) option" where
  "tree_set k v t =
     (case root t of
        None \<Rightarrow>
          Some (Inr (),
            t\<lparr>root := Some (fresh t), tsize := tsize t + 1,
              heap := (heap t)(fresh t \<mapsto> new_node None k v), fresh := Suc (fresh t)\<rparr>)
      | Some r \<Rightarrow>
          (case (if noDuplicates t
                 then set_descend_nodup (comparator t) (heap t) k (Some r) None 0
                 else map_option Inr (set_descend_dup (comparator t) (heap t) k (Some r) None 0)) of
             None \<Rightarrow> None
           | Some (Inl n) \<Rightarrow> Some (Inr (), t\<lparr>heap := set_val n v (heap t)\<rparr>)
           | Some (Inr (None, cmp)) \<Rightarrow>
               Some (Inl (Error ''failed to find parent node for insert''), t)
           | Some (Inr (Some p, cmp)) \<Rightarrow>
               let newNode = fresh t;
                   s1 = (heap t)(newNode \<mapsto> new_node (Some p) k v);
                   s2 = (if cmp \<le> 0 then set_left p (Some newNode) s1
                         else set_right p (Some newNode) s1)
               in (case set_retrace (comparator t) k (Some p) s2 (root t) of
                     None \<Rightarrow> None
                   | Some (s3, rt) \<Rightarrow>
                       Some (Inr (),
                         t\<lparr>root := rt, tsize := tsize t + 1, heap := s3,
                           fresh := Suc newNode\<rparr>))))"

subsection \<open>Deletion\<close>

partial_function (option) delete_find ::
  "('k \<Rightarrow> 'k \<Rightarrow> int) \<Rightarrow> ('k, 'v) store \<Rightarrow> 'k \<Rightarrow> addr option \<Rightarrow> addr option option" where
  "delete_find compare s k node =
     (case node of
        None \<Rightarrow> Some None
      | Some n \<Rightarrow>
          let cmp = compare k (key_of s n) in
          if cmp = 0 then Some (Some n)
          else if cmp < 0 then delete_find compare s k (left_of s n)
          else delete_find compare s k (right_of s n))"

declare delete_find.simps [code]

text \<open>
  \<open>while (max.left || max.right) { while (max.right) max = max.right; node.key = max.key;
    node.value = max.value; if (max.left) { node = max; max = max.left } }\<close>
  on the loop variables \<open>node\<close> and \<open>max\<close>, and its mirror on \<open>node\<close> and \<open>min\<close>.
\<close>

partial_function (option) delete_max_loop ::
  "('k, 'v) store \<Rightarrow> addr \<Rightarrow> addr \<Rightarrow> (('k, 'v) store \<times> addr \<times> addr) option" where
  "delete_max_loop s node mx =
     (if left_of s mx \<noteq> None \<or> right_of s mx \<noteq> None then
        (case rightmost s mx of
           None \<Rightarrow> None
         | Some mx1 \<Rightarrow>
             let s1 = set_key node (key_of s mx1) s;
                 s2 = set_val node (val_of s1 mx1) s1
             in (case left_of s2 mx1 of
                   Some ml \<Rightarrow> delete_max_loop s2 mx1 ml
                 | None \<Rightarrow> delete_max_loop s2 node mx1))
      else Some (s, node, mx))"

declare delete_max_loop.simps [code]

partial_function (option) delete_min_loop ::
  "('k, 'v) store \<Rightarrow> addr \<Rightarrow> addr \<Rightarrow> (('k, 'v) store \<times> addr \<times> addr) option" where
  "delete_min_loop s node mn =
     (if left_of s mn \<noteq> None \<or> right_of s mn \<noteq> None then
        (case leftmost s mn of
           None \<Rightarrow> None
         | Some mn1 \<Rightarrow>
             let s1 = set_key node (key_of s mn1) s;
                 s2 = set_val node (val_of s1 mn1) s1
             in (case right_of s2 mn1 of
                   Some mr \<Rightarrow> delete_min_loop s2 mn1 mr
                 | None \<Rightarrow> delete_min_loop s2 node mn1))
      else Some (s, node, mn))"

declare delete_min_loop.simps [code]

text \<open>
  \<open>if (node.left) { max = node.left; [loop]; node.key = max.key; node.value = max.value;
    node = max }\<close> and \<open>if (node.right) { ... }\<close>: the store and \<open>node\<close> afterwards.
\<close>

definition delete_copy_left ::
  "('k, 'v) store \<Rightarrow> addr \<Rightarrow> (('k, 'v) store \<times> addr) option" where
  "delete_copy_left s node =
     (case left_of s node of
        None \<Rightarrow> Some (s, node)
      | Some l \<Rightarrow>
          (case delete_max_loop s node l of
             None \<Rightarrow> None
           | Some (s1, node1, mx) \<Rightarrow>
               let s2 = set_key node1 (key_of s1 mx) s1;
                   s3 = set_val node1 (val_of s2 mx) s2
               in Some (s3, mx)))"

definition delete_copy_right ::
  "('k, 'v) store \<Rightarrow> addr \<Rightarrow> (('k, 'v) store \<times> addr) option" where
  "delete_copy_right s node =
     (case right_of s node of
        None \<Rightarrow> Some (s, node)
      | Some r \<Rightarrow>
          (case delete_min_loop s node r of
             None \<Rightarrow> None
           | Some (s1, node1, mn) \<Rightarrow>
               let s2 = set_key node1 (key_of s1 mn) s1;
                   s3 = set_val node1 (val_of s2 mn) s2
               in Some (s3, mn)))"

text \<open>
  One turn of the walk back up of \<open>delete\<close>, up to the test that leaves the loop: the
  balance factor of \<open>parent\<close> is adjusted, the subtree rotated when the factor leaves
  \<open>[-1, 1]\<close>.  The result is the store, the tree's root and the variable \<open>parent\<close>.
\<close>

definition delete_step ::
  "addr \<Rightarrow> addr option \<Rightarrow> ('k, 'v) store \<Rightarrow> addr option
    \<Rightarrow> ('k, 'v) store \<times> addr option \<times> addr option" where
  "delete_step p pp s rt =
     (let s1 = (if left_of s p = pp then set_bf p (bf_of s p - 1) s
                else set_bf p (bf_of s p + 1) s)
      in if bf_of s1 p < - 1 then rebalance_right_heavy p s1 rt
         else if bf_of s1 p > 1 then rebalance_left_heavy p s1 rt
         else (s1, rt, Some p))"

partial_function (option) delete_retrace ::
  "addr option \<Rightarrow> addr option \<Rightarrow> ('k, 'v) store \<Rightarrow> addr option
    \<Rightarrow> (('k, 'v) store \<times> addr option) option" where
  "delete_retrace par pp s rt =
     (case par of
        None \<Rightarrow> Some (s, rt)
      | Some p \<Rightarrow>
          (case delete_step p pp s rt of
             (s1, rt1, None) \<Rightarrow> delete_retrace None None s1 rt1
           | (s1, rt1, Some q) \<Rightarrow>
               if bf_of s1 q = - 1 \<or> bf_of s1 q = 1 then Some (s1, rt1)
               else delete_retrace (parent_of s1 q) (Some q) s1 rt1))"

declare delete_retrace.simps [code]

text \<open>
  \<open>delete\<close>.  The test \<open>!key\<close> is JavaScript's: it holds of \<open>undefined\<close> and of the keys that
  are falsy values (\<open>0\<close>, \<open>NaN\<close>, the empty string).  The parameter \<open>truthy\<close> says which keys
  of the type \<open>'k\<close> are truthy.
\<close>

definition delete ::
  "('k \<Rightarrow> bool) \<Rightarrow> 'k \<Rightarrow> ('k, 'v) AVLTree \<Rightarrow> (bool \<times> ('k, 'v) AVLTree) option" where
  "delete truthy k t =
     (if root t = None \<or> \<not> truthy k then Some (False, t)
      else
        (case delete_find (comparator t) (heap t) k (root t) of
           None \<Rightarrow> None
         | Some None \<Rightarrow> Some (False, t)
         | Some (Some found) \<Rightarrow>
             (case delete_copy_left (heap t) found of
                None \<Rightarrow> None
              | Some (s1, node1) \<Rightarrow>
                  (case delete_copy_right s1 node1 of
                     None \<Rightarrow> None
                   | Some (s2, node) \<Rightarrow>
                       (case delete_retrace (parent_of s2 node) (Some node) s2 (root t) of
                          None \<Rightarrow> None
                        | Some (s3, rt) \<Rightarrow>
                            let s4 = (case parent_of s3 node of
                                        Some np \<Rightarrow>
                                          if left_of s3 np = Some node then set_left np None s3
                                          else set_right np None s3
                                      | None \<Rightarrow> s3);
                                rt' = (if Some node = rt then None else rt)
                            in Some (True, t\<lparr>root := rt', tsize := tsize t - 1, heap := s4\<rparr>))))))"

text \<open>\<open>shift\<close> and \<open>pop\<close>; the returned object \<open>{ key, value }\<close> is a pair.\<close>

definition shift ::
  "('k \<Rightarrow> bool) \<Rightarrow> ('k, 'v) AVLTree \<Rightarrow> (('k \<times> 'v option) option \<times> ('k, 'v) AVLTree) option" where
  "shift truthy t =
     (case root t of
        None \<Rightarrow> Some (None, t)
      | Some r \<Rightarrow>
          (case leftmost (heap t) r of
             None \<Rightarrow> None
           | Some node \<Rightarrow>
               let returnValue = (key_of (heap t) node, val_of (heap t) node) in
               (case delete truthy (key_of (heap t) node) t of
                  None \<Rightarrow> None
                | Some (_, t') \<Rightarrow> Some (Some returnValue, t'))))"

definition pop ::
  "('k \<Rightarrow> bool) \<Rightarrow> ('k, 'v) AVLTree \<Rightarrow> (('k \<times> 'v option) option \<times> ('k, 'v) AVLTree) option" where
  "pop truthy t =
     (case root t of
        None \<Rightarrow> Some (None, t)
      | Some r \<Rightarrow>
          (case rightmost (heap t) r of
             None \<Rightarrow> None
           | Some node \<Rightarrow>
               let returnValue = (key_of (heap t) node, val_of (heap t) node) in
               (case delete truthy (key_of (heap t) node) t of
                  None \<Rightarrow> None
                | Some (_, t') \<Rightarrow> Some (Some returnValue, t'))))"

subsection \<open>Bulk load\<close>

text \<open>
  \<open>loadRecursive\<close> allocates the node of the middle index, then the left half, then the right
  half.  The arguments \<open>s\<close> and \<open>fr\<close> are the store and the next free address, returned
  updated together with the subtree's root.  \<open>values[middle]\<close> beyond the end of \<open>values\<close>
  is \<open>undefined\<close>; a read of \<open>keys\<close> beyond its end, which would store \<open>undefined\<close> as a
  key, is outside the model (\<open>None\<close>).  The source's \<open>size > 0\<close> with \<open>size = end - start\<close> is
  \<open>start < end\<close>.
\<close>

function loadRecursive ::
  "addr option \<Rightarrow> 'k list \<Rightarrow> 'v list \<Rightarrow> nat \<Rightarrow> nat \<Rightarrow> ('k, 'v) store \<Rightarrow> addr
    \<Rightarrow> (addr option \<times> ('k, 'v) store \<times> addr) option" where
  "loadRecursive par ks vs start end s fr =
     (if start < end then
        let middle = start + (end - start) div 2 in
        if middle < length ks then
          let node = fr;
              s1 = s(node \<mapsto>
                     \<lparr>parent = par, left = None, right = None, balanceFactor = 0,
                      key = ks ! middle,
                      val = (if middle < length vs then Some (vs ! middle) else None)\<rparr>)
          in (case loadRecursive (Some node) ks vs start middle s1 (Suc fr) of
                None \<Rightarrow> None
              | Some (l, s2, fr2) \<Rightarrow>
                  (case loadRecursive (Some node) ks vs (middle + 1) end
                          (set_left node l s2) fr2 of
                     None \<Rightarrow> None
                   | Some (r, s3, fr3) \<Rightarrow> Some (Some node, set_right node r s3, fr3)))
        else None
      else Some (None, s, fr))"
  by pat_completeness auto
termination
  by (relation "measure (\<lambda>(par, ks, vs, start, end, s, fr). end - start)") auto

partial_function (option) markBalance ::
  "addr option \<Rightarrow> ('k, 'v) store \<Rightarrow> (int \<times> ('k, 'v) store) option" where
  "markBalance node s =
     (case node of
        None \<Rightarrow> Some (0, s)
      | Some n \<Rightarrow>
          Option.bind (markBalance (left_of s n) s) (\<lambda>(lh, s1).
          Option.bind (markBalance (right_of s1 n) s1) (\<lambda>(rh, s2).
          Some (max lh rh + 1, set_bf n (lh - rh) s2))))"

declare markBalance.simps [code]

text \<open>
  \<open>sort\<close>: quicksort on the index range \<open>left..right\<close> (here \<open>lo..hi\<close>) of both arrays,
  partitioned around the key at the middle index.  The arrays are lists, returned updated;
  indices are numbers (\<open>int\<close>: \<open>right\<close> is \<open>-1\<close> for empty input).  A read or write outside either array is
  outside the model (\<open>None\<close>).
\<close>

partial_function (option) sort_scan_i ::
  "('k \<Rightarrow> 'k \<Rightarrow> int) \<Rightarrow> 'k list \<Rightarrow> 'k \<Rightarrow> int \<Rightarrow> int option" where
  "sort_scan_i compare ks pivot i =
     (let i' = i + 1 in
      if 0 \<le> i' \<and> i' < int (length ks) then
        (if compare (ks ! nat i') pivot < 0 then sort_scan_i compare ks pivot i'
         else Some i')
      else None)"

declare sort_scan_i.simps [code]

partial_function (option) sort_scan_j ::
  "('k \<Rightarrow> 'k \<Rightarrow> int) \<Rightarrow> 'k list \<Rightarrow> 'k \<Rightarrow> int \<Rightarrow> int option" where
  "sort_scan_j compare ks pivot j =
     (let j' = j - 1 in
      if 0 \<le> j' \<and> j' < int (length ks) then
        (if compare (ks ! nat j') pivot > 0 then sort_scan_j compare ks pivot j'
         else Some j')
      else None)"

declare sort_scan_j.simps [code]

definition swap :: "'a list \<Rightarrow> nat \<Rightarrow> nat \<Rightarrow> 'a list" where
  "swap xs i j = (xs[i := xs ! j])[j := xs ! i]"

partial_function (option) sort_partition ::
  "('k \<Rightarrow> 'k \<Rightarrow> int) \<Rightarrow> 'k \<Rightarrow> 'k list \<Rightarrow> 'v list \<Rightarrow> int \<Rightarrow> int
    \<Rightarrow> ('k list \<times> 'v list \<times> int) option" where
  "sort_partition compare pivot ks vs i j =
     Option.bind (sort_scan_i compare ks pivot i) (\<lambda>i'.
     Option.bind (sort_scan_j compare ks pivot j) (\<lambda>j'.
       if i' \<ge> j' then Some (ks, vs, j')
       else if nat i' < length vs \<and> nat j' < length vs then
         sort_partition compare pivot (swap ks (nat i') (nat j')) (swap vs (nat i') (nat j')) i' j'
       else None))"

declare sort_partition.simps [code]

partial_function (option) sort_arrays ::
  "('k \<Rightarrow> 'k \<Rightarrow> int) \<Rightarrow> 'k list \<Rightarrow> 'v list \<Rightarrow> int \<Rightarrow> int \<Rightarrow> ('k list \<times> 'v list) option" where
  "sort_arrays compare ks vs lo hi =
     (if lo \<ge> hi then Some (ks, vs)
      else if 0 \<le> (lo + hi) div 2 \<and> (lo + hi) div 2 < int (length ks) then
        Option.bind
          (sort_partition compare (ks ! nat ((lo + hi) div 2)) ks vs (lo - 1) (hi + 1))
          (\<lambda>(ks1, vs1, j).
             Option.bind (sort_arrays compare ks1 vs1 lo j) (\<lambda>(ks2, vs2).
               sort_arrays compare ks2 vs2 (j + 1) hi))
      else None)"

declare sort_arrays.simps [code]

text \<open>\<open>load\<close>; the thrown \<open>Error\<close> is the result \<open>Inl\<close>, with the tree as the throw leaves it.\<close>

definition load ::
  "'k list \<Rightarrow> 'v list \<Rightarrow> bool \<Rightarrow> ('k, 'v) AVLTree
    \<Rightarrow> ((error + unit) \<times> ('k, 'v) AVLTree) option" where
  "load ks vs presort t =
     (if tsize t \<noteq> 0 then Some (Inl (Error ''bulk-load: tree is not empty''), t)
      else
        (case (if presort
               then sort_arrays (comparator t) ks vs 0 (int (length ks) - 1)
               else Some (ks, vs)) of
           None \<Rightarrow> None
         | Some (ks1, vs1) \<Rightarrow>
             (case loadRecursive None ks1 vs1 0 (length ks) (heap t) (fresh t) of
                None \<Rightarrow> None
              | Some (rt, s1, fr1) \<Rightarrow>
                  (case markBalance rt s1 of
                     None \<Rightarrow> None
                   | Some (h, s2) \<Rightarrow>
                       Some (Inr (),
                         t\<lparr>root := rt, tsize := int (length ks), heap := s2,
                           fresh := fr1\<rparr>)))))"

subsection \<open>Traversal\<close>

text \<open>
  The in-order walks keep an explicit stack (a list, top first).  A callback is a function
  on the state \<open>'c\<close> of the caller's closure, returning whether its result is truthy; it reads
  the tree but does not write to it.
\<close>

partial_function (option) forEach_loop ::
  "(addr \<Rightarrow> int \<Rightarrow> 'c \<Rightarrow> bool \<times> 'c) \<Rightarrow> ('k, 'v) store \<Rightarrow> addr option \<Rightarrow> addr list \<Rightarrow> int \<Rightarrow> 'c
    \<Rightarrow> 'c option" where
  "forEach_loop callback s node stk i c =
     (case node of
        Some n \<Rightarrow> forEach_loop callback s (left_of s n) (n # stk) i c
      | None \<Rightarrow>
          (case stk of
             n # stk' \<Rightarrow>
               if fst (callback n i c) then Some (snd (callback n i c))
               else forEach_loop callback s (right_of s n) stk' (i + 1) (snd (callback n i c))
           | [] \<Rightarrow> Some c))"

declare forEach_loop.simps [code]

definition forEach ::
  "(addr \<Rightarrow> int \<Rightarrow> 'c \<Rightarrow> bool \<times> 'c) \<Rightarrow> 'c \<Rightarrow> ('k, 'v) AVLTree \<Rightarrow> ('c \<times> ('k, 'v) AVLTree) option" where
  "forEach callback c t =
     map_option (\<lambda>c'. (c', t)) (forEach_loop callback (heap t) (root t) [] 0 c)"

text \<open>\<open>at\<close>: the callback assigns the local \<open>r\<close> and returns the node, which is truthy.\<close>

definition at :: "int \<Rightarrow> ('k, 'v) AVLTree \<Rightarrow> (addr option \<times> ('k, 'v) AVLTree) option" where
  "at index t =
     forEach (\<lambda>node i r. if i = index then (True, Some node) else (False, r)) None t"

partial_function (option) range_loop ::
  "('k \<Rightarrow> 'k \<Rightarrow> int) \<Rightarrow> ('k, 'v) store \<Rightarrow> 'k \<Rightarrow> 'k \<Rightarrow> (addr \<Rightarrow> 'c \<Rightarrow> bool \<times> 'c)
    \<Rightarrow> addr list \<Rightarrow> addr option \<Rightarrow> 'c \<Rightarrow> 'c option" where
  "range_loop compare s low high fn Q node c =
     (if Q \<noteq> [] \<or> node \<noteq> None then
        (case node of
           Some n \<Rightarrow> range_loop compare s low high fn (n # Q) (left_of s n) c
         | None \<Rightarrow>
             (case Q of
                n # Q' \<Rightarrow>
                  if compare (key_of s n) high > 0 then Some c
                  else if compare (key_of s n) low \<ge> 0 then
                    (if fst (fn n c) then Some (snd (fn n c))
                     else range_loop compare s low high fn Q' (right_of s n) (snd (fn n c)))
                  else range_loop compare s low high fn Q' (right_of s n) c
              | [] \<Rightarrow> Some c))
      else Some c)"

declare range_loop.simps [code]

definition tree_range ::
  "'k \<Rightarrow> 'k \<Rightarrow> (addr \<Rightarrow> 'c \<Rightarrow> bool \<times> 'c) \<Rightarrow> 'c \<Rightarrow> ('k, 'v) AVLTree
    \<Rightarrow> ('c \<times> ('k, 'v) AVLTree) option" where
  "tree_range low high fn c t =
     map_option (\<lambda>c'. (c', t)) (range_loop (comparator t) (heap t) low high fn [] (root t) c)"

text \<open>
  The generators \<open>keys\<close>, \<open>values\<close> and \<open>entries\<close>, run to their end: \<open>acc\<close> holds what has
  been yielded.
\<close>

partial_function (option) yield_loop ::
  "(addr \<Rightarrow> 'a) \<Rightarrow> ('k, 'v) store \<Rightarrow> addr option \<Rightarrow> addr list \<Rightarrow> 'a list \<Rightarrow> 'a list option" where
  "yield_loop f s node stk acc =
     (case node of
        Some n \<Rightarrow> yield_loop f s (left_of s n) (n # stk) acc
      | None \<Rightarrow>
          (case stk of
             n # stk' \<Rightarrow> yield_loop f s (right_of s n) stk' (acc @ [f n])
           | [] \<Rightarrow> Some acc))"

declare yield_loop.simps [code]

definition keys :: "('k, 'v) AVLTree \<Rightarrow> ('k list \<times> ('k, 'v) AVLTree) option" where
  "keys t = map_option (\<lambda>r. (r, t)) (yield_loop (key_of (heap t)) (heap t) (root t) [] [])"

definition tree_values :: "('k, 'v) AVLTree \<Rightarrow> ('v option list \<times> ('k, 'v) AVLTree) option" where
  "tree_values t = map_option (\<lambda>r. (r, t)) (yield_loop (val_of (heap t)) (heap t) (root t) [] [])"

definition entries ::
  "('k, 'v) AVLTree \<Rightarrow> (('k \<times> 'v option) list \<times> ('k, 'v) AVLTree) option" where
  "entries t =
     map_option (\<lambda>r. (r, t))
       (yield_loop (\<lambda>n. (key_of (heap t) n, val_of (heap t) n)) (heap t) (root t) [] [])"

subsection \<open>The balance check\<close>

partial_function (option) height :: "('k, 'v) store \<Rightarrow> addr option \<Rightarrow> int option" where
  "height s node =
     (case node of
        None \<Rightarrow> Some 0
      | Some n \<Rightarrow>
          Option.bind (height s (left_of s n)) (\<lambda>lh.
          Option.bind (height s (right_of s n)) (\<lambda>rh. Some (1 + max lh rh))))"

declare height.simps [code]

partial_function (option) isBalanced_rec :: "('k, 'v) store \<Rightarrow> addr option \<Rightarrow> bool option" where
  "isBalanced_rec s rt =
     (case rt of
        None \<Rightarrow> Some True
      | Some n \<Rightarrow>
          Option.bind (height s (left_of s n)) (\<lambda>lh.
          Option.bind (height s (right_of s n)) (\<lambda>rh.
            if \<bar>lh - rh\<bar> \<le> 1 then
              Option.bind (isBalanced_rec s (left_of s n)) (\<lambda>bl.
                if bl then isBalanced_rec s (right_of s n) else Some False)
            else Some False)))"

declare isBalanced_rec.simps [code]

definition isBalanced :: "('k, 'v) AVLTree \<Rightarrow> (bool \<times> ('k, 'v) AVLTree) option" where
  "isBalanced t = map_option (\<lambda>b. (b, t)) (isBalanced_rec (heap t) (root t))"

subsection \<open>Sequences of operations\<close>

datatype ('k, 'v) operation = Set 'k "'v option" | Delete 'k

text \<open>A client program that calls \<open>set\<close> and \<open>delete\<close> in turn; a throw ends it.\<close>

fun run :: "('k \<Rightarrow> bool) \<Rightarrow> ('k, 'v) operation list \<Rightarrow> ('k, 'v) AVLTree
    \<Rightarrow> ((error + unit) \<times> ('k, 'v) AVLTree) option" where
  "run truthy [] t = Some (Inr (), t)"
| "run truthy (Set k v # ops) t =
     (case tree_set k v t of
        None \<Rightarrow> None
      | Some (Inl e, t') \<Rightarrow> Some (Inl e, t')
      | Some (Inr u, t') \<Rightarrow> run truthy ops t')"
| "run truthy (Delete k # ops) t =
     (case delete truthy k t of
        None \<Rightarrow> None
      | Some (b, t') \<Rightarrow> run truthy ops t')"

section \<open>The tree a store holds\<close>

text \<open>
  The pointer structure reachable from a link is described by a \<open>shape\<close>: the binary tree of
  the addresses of the nodes.  \<open>is_tree s par p t\<close> says that, in the store \<open>s\<close>, the link \<open>p\<close>
  leads to the tree \<open>t\<close> and the parent link of its root is \<open>par\<close>: every child link and every
  parent link is as \<open>t\<close> says.
\<close>

datatype shape = Tip | Nd shape addr shape

fun nodes :: "shape \<Rightarrow> addr list" where
  "nodes Tip = []"
| "nodes (Nd l a r) = nodes l @ a # nodes r"

fun hgt :: "shape \<Rightarrow> int" where
  "hgt Tip = 0"
| "hgt (Nd l a r) = 1 + max (hgt l) (hgt r)"

fun ptr :: "shape \<Rightarrow> addr option" where
  "ptr Tip = None"
| "ptr (Nd l a r) = Some a"

fun is_tree :: "('k, 'v) store \<Rightarrow> addr option \<Rightarrow> addr option \<Rightarrow> shape \<Rightarrow> bool" where
  "is_tree s par p Tip = (p = None)"
| "is_tree s par p (Nd l a r) =
     (p = Some a \<and> parent_of s a = par \<and>
      is_tree s (Some a) (left_of s a) l \<and> is_tree s (Some a) (right_of s a) r)"

text \<open>Balance factors are height differences; the tree is height-balanced.\<close>

fun bf_ok :: "('k, 'v) store \<Rightarrow> shape \<Rightarrow> bool" where
  "bf_ok s Tip = True"
| "bf_ok s (Nd l a r) = (bf_of s a = hgt l - hgt r \<and> bf_ok s l \<and> bf_ok s r)"

fun avl :: "shape \<Rightarrow> bool" where
  "avl Tip = True"
| "avl (Nd l a r) = (\<bar>hgt l - hgt r\<bar> \<le> 1 \<and> avl l \<and> avl r)"

text \<open>
  The order invariant at every node.  \<open>lt_left\<close> and \<open>gt_right\<close> say whether the keys of the
  left (right) subtree must compare strictly less (greater) than the node's key, or may
  also compare equal.
\<close>

fun bst_inv ::
  "('k \<Rightarrow> 'k \<Rightarrow> int) \<Rightarrow> bool \<Rightarrow> bool \<Rightarrow> ('k, 'v) store \<Rightarrow> shape \<Rightarrow> bool" where
  "bst_inv c lt_left gt_right s Tip = True"
| "bst_inv c lt_left gt_right s (Nd l a r) =
     (list_all (\<lambda>x. if lt_left then c (key_of s x) (key_of s a) < 0
                     else c (key_of s x) (key_of s a) \<le> 0) (nodes l) \<and>
      list_all (\<lambda>y. if gt_right then c (key_of s y) (key_of s a) > 0
                     else c (key_of s y) (key_of s a) \<ge> 0) (nodes r) \<and>
      bst_inv c lt_left gt_right s l \<and> bst_inv c lt_left gt_right s r)"

text \<open>
  A comparator is valid when the signs of its results are those of a total preorder:
  swapping the arguments swaps the sign, and \<open>\<le>\<close> is transitive.
\<close>

definition valid_comparator :: "('k \<Rightarrow> 'k \<Rightarrow> int) \<Rightarrow> bool" where
  "valid_comparator c =
     ((\<forall>a b. (c a b < 0) = (c b a > 0)) \<and>
      (\<forall>a b d. c a b \<le> 0 \<and> c b d \<le> 0 \<longrightarrow> c a d \<le> 0))"

text \<open>The entries of a tree in order, as \<open>entries\<close> yields them.\<close>

definition entries_of :: "('k, 'v) store \<Rightarrow> shape \<Rightarrow> ('k \<times> 'v option) list" where
  "entries_of s t = map (\<lambda>a. (key_of s a, val_of s a)) (nodes t)"

definition keys_of :: "('k, 'v) store \<Rightarrow> shape \<Rightarrow> 'k list" where
  "keys_of s t = map (key_of s) (nodes t)"

text \<open>
  A tree with a hole: the path from the hole up to the root, innermost frame first.
  \<open>InL a r\<close> is a node \<open>a\<close> whose left subtree is the hole and whose right subtree is \<open>r\<close>.
\<close>

datatype frame = InL addr shape | InR shape addr

fun plug :: "frame list \<Rightarrow> shape \<Rightarrow> shape" where
  "plug [] t = t"
| "plug (InL a r # fs) t = plug fs (Nd t a r)"
| "plug (InR l a # fs) t = plug fs (Nd l a t)"

fun ctx_par :: "frame list \<Rightarrow> addr option" where
  "ctx_par [] = None"
| "ctx_par (InL a r # fs) = Some a"
| "ctx_par (InR l a # fs) = Some a"

fun ctx_pre :: "frame list \<Rightarrow> addr list" where
  "ctx_pre [] = []"
| "ctx_pre (InL a r # fs) = ctx_pre fs"
| "ctx_pre (InR l a # fs) = ctx_pre fs @ nodes l @ [a]"

fun ctx_post :: "frame list \<Rightarrow> addr list" where
  "ctx_post [] = []"
| "ctx_post (InL a r # fs) = a # nodes r @ ctx_post fs"
| "ctx_post (InR l a # fs) = ctx_post fs"

fun is_ctx :: "('k, 'v) store \<Rightarrow> addr option \<Rightarrow> frame list \<Rightarrow> addr option \<Rightarrow> bool" where
  "is_ctx s rt [] p = (rt = p)"
| "is_ctx s rt (InL a r # fs) p =
     (left_of s a = p \<and> parent_of s a = ctx_par fs \<and>
      is_tree s (Some a) (right_of s a) r \<and> is_ctx s rt fs (Some a))"
| "is_ctx s rt (InR l a # fs) p =
     (right_of s a = p \<and> parent_of s a = ctx_par fs \<and>
      is_tree s (Some a) (left_of s a) l \<and> is_ctx s rt fs (Some a))"

text \<open>
  The balance factors along a path are right for a hole of height \<open>n\<close>, and the subtrees
  hanging off the path are balanced.
\<close>

fun ctx_ok :: "('k, 'v) store \<Rightarrow> frame list \<Rightarrow> int \<Rightarrow> bool" where
  "ctx_ok s [] n = True"
| "ctx_ok s (InL a r # fs) n =
     (bf_of s a = n - hgt r \<and> \<bar>n - hgt r\<bar> \<le> 1 \<and> bf_ok s r \<and> avl r \<and>
      ctx_ok s fs (1 + max n (hgt r)))"
| "ctx_ok s (InR l a # fs) n =
     (bf_of s a = hgt l - n \<and> \<bar>hgt l - n\<bar> \<le> 1 \<and> bf_ok s l \<and> avl l \<and>
      ctx_ok s fs (1 + max (hgt l) n))"

text \<open>
  The data-model invariants of a tree object: the links from the root form a tree of distinct
  allocated nodes, the order invariant holds at every node (left keys strictly less exactly
  in reject-duplicates mode; right keys strictly greater when \<open>gt_right\<close>), every balance
  factor is the height difference and lies in \<open>[-1, 1]\<close>, and \<open>size\<close> is the number of nodes.
\<close>

definition tree_inv :: "bool \<Rightarrow> ('k, 'v) AVLTree \<Rightarrow> shape \<Rightarrow> bool" where
  "tree_inv gt_right t T =
     (is_tree (heap t) None (root t) T \<and> distinct (nodes T) \<and>
      list_all (\<lambda>a. a < fresh t) (nodes T) \<and>
      bst_inv (comparator t) (noDuplicates t) gt_right (heap t) T \<and>
      bf_ok (heap t) T \<and> avl T \<and>
      tsize t = int (length (nodes T)))"

text \<open>The descent of \<open>has\<close>, \<open>get\<close> and \<open>delete\<close> along a tree: the node it stops at.\<close>

fun lookup :: "('k \<Rightarrow> 'k \<Rightarrow> int) \<Rightarrow> ('k, 'v) store \<Rightarrow> 'k \<Rightarrow> shape \<Rightarrow> addr option" where
  "lookup c s k Tip = None"
| "lookup c s k (Nd l a r) =
     (if c k (key_of s a) = 0 then Some a
      else if c k (key_of s a) < 0 then lookup c s k l
      else lookup c s k r)"

text \<open>
  What the in-order walks do along the list of nodes in order.  The results are whether
  the walk was stopped, the index reached, and the state of the callback.
\<close>

fun forEach_list ::
  "(addr \<Rightarrow> int \<Rightarrow> 'c \<Rightarrow> bool \<times> 'c) \<Rightarrow> addr list \<Rightarrow> int \<Rightarrow> 'c \<Rightarrow> bool \<times> int \<times> 'c" where
  "forEach_list cb [] i c = (False, i, c)"
| "forEach_list cb (n # ns) i c =
     (if fst (cb n i c) then (True, i, snd (cb n i c))
      else forEach_list cb ns (i + 1) (snd (cb n i c)))"

fun range_list ::
  "('k \<Rightarrow> 'k \<Rightarrow> int) \<Rightarrow> ('k, 'v) store \<Rightarrow> 'k \<Rightarrow> 'k \<Rightarrow> (addr \<Rightarrow> 'c \<Rightarrow> bool \<times> 'c)
    \<Rightarrow> addr list \<Rightarrow> 'c \<Rightarrow> bool \<times> 'c" where
  "range_list c s low high fn [] st = (False, st)"
| "range_list c s low high fn (n # ns) st =
     (if c (key_of s n) high > 0 then (True, st)
      else if c (key_of s n) low \<ge> 0 then
        (if fst (fn n st) then (True, snd (fn n st))
         else range_list c s low high fn ns (snd (fn n st)))
      else range_list c s low high fn ns st)"

text \<open>
  The visitor called on each node of a list in turn, until it returns a truthy value.
\<close>

fun visit :: "(addr \<Rightarrow> 'c \<Rightarrow> bool \<times> 'c) \<Rightarrow> addr list \<Rightarrow> 'c \<Rightarrow> 'c" where
  "visit fn [] st = st"
| "visit fn (n # ns) st = (if fst (fn n st) then snd (fn n st) else visit fn ns (snd (fn n st)))"

text \<open>
  Along the path from a new leaf with key \<open>k\<close> up to the root, the test of \<open>set\<close>'s walk
  (\<open>compare(parent.key, key) < 0\<close>) tells on which side the leaf lies.
\<close>

fun retrace_path :: "('k \<Rightarrow> 'k \<Rightarrow> int) \<Rightarrow> ('k, 'v) store \<Rightarrow> 'k \<Rightarrow> frame list \<Rightarrow> bool" where
  "retrace_path c s k [] = True"
| "retrace_path c s k (InL a r # fs) = (\<not> c (key_of s a) k < 0 \<and> retrace_path c s k fs)"
| "retrace_path c s k (InR l a # fs) = (c (key_of s a) k < 0 \<and> retrace_path c s k fs)"

text \<open>A subtree that has just grown by one level: a single leaf, or a node out of balance.\<close>

fun grown :: "shape \<Rightarrow> bool" where
  "grown Tip = False"
| "grown (Nd l a r) = (hgt l \<noteq> hgt r \<or> (l = Tip \<and> r = Tip))"

text \<open>
  The order of two keys that may follow each other in order: strictly ascending in
  reject-duplicates mode, ascending otherwise.
\<close>

definition ord :: "('k \<Rightarrow> 'k \<Rightarrow> int) \<Rightarrow> bool \<Rightarrow> 'k \<Rightarrow> 'k \<Rightarrow> bool" where
  "ord c nodup a b = (if nodup then c a b < 0 else c a b \<le> 0)"

definition sorted_keys :: "('k \<Rightarrow> 'k \<Rightarrow> int) \<Rightarrow> bool \<Rightarrow> ('k, 'v) store \<Rightarrow> addr list \<Rightarrow> bool" where
  "sorted_keys c nodup s ns = sorted_wrt (\<lambda>x y. ord c nodup (key_of s x) (key_of s y)) ns"

text \<open>
  The descent of \<open>set\<close> along a tree: the node with an equal key (in reject-duplicates mode
  only), or the path to the empty link where the new leaf goes.
\<close>

fun descend ::
  "('k \<Rightarrow> 'k \<Rightarrow> int) \<Rightarrow> bool \<Rightarrow> ('k, 'v) store \<Rightarrow> 'k \<Rightarrow> shape \<Rightarrow> frame list
    \<Rightarrow> addr + frame list" where
  "descend c nodup s k Tip fs = Inr fs"
| "descend c nodup s k (Nd l a r) fs =
     (if nodup \<and> c k (key_of s a) = 0 then Inl a
      else if (if nodup then c k (key_of s a) < 0 else c k (key_of s a) \<le> 0)
      then descend c nodup s k l (InL a r # fs)
      else descend c nodup s k r (InR l a # fs))"

fun descent_path ::
  "('k \<Rightarrow> 'k \<Rightarrow> int) \<Rightarrow> bool \<Rightarrow> ('k, 'v) store \<Rightarrow> 'k \<Rightarrow> frame list \<Rightarrow> bool" where
  "descent_path c nodup s k [] = True"
| "descent_path c nodup s k (InL a r # fs) =
     ((if nodup then c k (key_of s a) < 0 else c k (key_of s a) \<le> 0) \<and>
      descent_path c nodup s k fs)"
| "descent_path c nodup s k (InR l a # fs) =
     (c k (key_of s a) > 0 \<and> descent_path c nodup s k fs)"

fun top_cmp :: "('k \<Rightarrow> 'k \<Rightarrow> int) \<Rightarrow> ('k, 'v) store \<Rightarrow> 'k \<Rightarrow> frame list \<Rightarrow> int \<Rightarrow> int" where
  "top_cmp c s k [] d = d"
| "top_cmp c s k (InL a r # fs) d = c k (key_of s a)"
| "top_cmp c s k (InR l a # fs) d = c k (key_of s a)"

text \<open>
  The invariant the operations maintain: that of the data model, with the order invariant
  stated on the sequence of keys in order.
\<close>

definition sinv :: "('k, 'v) AVLTree \<Rightarrow> shape \<Rightarrow> bool" where
  "sinv t T =
     (is_tree (heap t) None (root t) T \<and> distinct (nodes T) \<and>
      list_all (\<lambda>a. a < fresh t) (nodes T) \<and>
      sorted_keys (comparator t) (noDuplicates t) (heap t) (nodes T) \<and>
      bf_ok (heap t) T \<and> avl T \<and>
      tsize t = int (length (nodes T)))"

text \<open>
  What \<open>set\<close> does to the sequence of entries in order: in reject-duplicates mode the value
  of the entry with an equal key is replaced; otherwise the new entry goes before the first
  entry whose key is not less than the new key.
\<close>

fun ins_list ::
  "('k \<Rightarrow> 'k \<Rightarrow> int) \<Rightarrow> bool \<Rightarrow> 'k \<Rightarrow> 'v option \<Rightarrow> ('k \<times> 'v option) list
    \<Rightarrow> ('k \<times> 'v option) list" where
  "ins_list c nodup k v [] = [(k, v)]"
| "ins_list c nodup k v ((k', v') # es) =
     (if nodup \<and> c k k' = 0 then (k', v) # es
      else if c k k' > 0 then (k', v') # ins_list c nodup k v es
      else (k, v) # (k', v') # es)"

text \<open>
  \<open>delete\<close> walks back up while the leaf it removes is still linked.  \<open>erase x t\<close> is the tree
  \<open>t\<close> without the node \<open>x\<close>; \<open>is_leaf x t\<close> says that \<open>x\<close> is a leaf of \<open>t\<close>.
\<close>

fun erase :: "addr \<Rightarrow> shape \<Rightarrow> shape" where
  "erase x Tip = Tip"
| "erase x (Nd l a r) = (if a = x then Tip else Nd (erase x l) a (erase x r))"

fun is_leaf :: "addr \<Rightarrow> shape \<Rightarrow> bool" where
  "is_leaf x Tip = False"
| "is_leaf x (Nd l a r) = (if a = x then l = Tip \<and> r = Tip else is_leaf x l \<or> is_leaf x r)"

text \<open>The entry a node holds.\<close>

definition entry_of :: "('k, 'v) store \<Rightarrow> addr \<Rightarrow> 'k \<times> 'v option" where
  "entry_of s a = (key_of s a, val_of s a)"

text \<open>\<open>node.key = m.key; node.value = m.value\<close>.\<close>

definition copy_entry :: "addr \<Rightarrow> addr \<Rightarrow> ('k, 'v) store \<Rightarrow> ('k, 'v) store" where
  "copy_entry node m s =
     (let s1 = set_key node (key_of s m) s in set_val node (val_of s1 m) s1)"

text \<open>
  The body of the outer loop of the first copying phase of \<open>delete\<close>, and of the second:
  \<open>delete_max_loop\<close> runs it while \<open>max\<close> has a child.
\<close>

definition delete_max_body ::
  "('k, 'v) store \<Rightarrow> addr \<Rightarrow> addr \<Rightarrow> (('k, 'v) store \<times> addr \<times> addr) option" where
  "delete_max_body s node mx =
     (case rightmost s mx of
        None \<Rightarrow> None
      | Some mx1 \<Rightarrow>
          let s2 = copy_entry node mx1 s
          in (case left_of s2 mx1 of
                Some ml \<Rightarrow> delete_max_loop s2 mx1 ml
              | None \<Rightarrow> delete_max_loop s2 node mx1))"

definition delete_min_body ::
  "('k, 'v) store \<Rightarrow> addr \<Rightarrow> addr \<Rightarrow> (('k, 'v) store \<times> addr \<times> addr) option" where
  "delete_min_body s node mn =
     (case leftmost s mn of
        None \<Rightarrow> None
      | Some mn1 \<Rightarrow>
          let s2 = copy_entry node mn1 s
          in (case right_of s2 mn1 of
                Some mr \<Rightarrow> delete_min_loop s2 mn1 mr
              | None \<Rightarrow> delete_min_loop s2 node mn1))"

text \<open>Two stores with the same links and balance factors.\<close>

definition same_links :: "('k, 'v) store \<Rightarrow> ('k, 'v) store \<Rightarrow> bool" where
  "same_links s' s =
     (\<forall>y. left_of s' y = left_of s y \<and> right_of s' y = right_of s y \<and>
          parent_of s' y = parent_of s y \<and> bf_of s' y = bf_of s y)"

text \<open>The key an operation is called with, and whether it is a \<open>set\<close>.\<close>

fun op_key :: "('k, 'v) operation \<Rightarrow> 'k" where
  "op_key (Set k v) = k"
| "op_key (Delete k) = k"

fun is_Set :: "('k, 'v) operation \<Rightarrow> bool" where
  "is_Set (Set k v) = True"
| "is_Set (Delete k) = False"

text \<open>The entries whose key the comparator takes for equal to \<open>k\<close>.\<close>

definition eqv :: "('k \<Rightarrow> 'k \<Rightarrow> int) \<Rightarrow> 'k \<Rightarrow> ('k \<times> 'v option) list \<Rightarrow> ('k \<times> 'v option) list" where
  "eqv c k es = filter (\<lambda>e. c k (fst e) = 0) es"

section \<open>Example stores\<close>

text \<open>
  Two chains of three nodes with integer keys: \<open>chain_right\<close> is the tree after \<open>set\<close> of
  \<open>1, 2, 3\<close> before its rotation (root \<open>0\<close>, each node the right child of the one before),
  \<open>chain_left\<close> its mirror image.
\<close>

definition chain_right :: "(int, string) store" where
  "chain_right =
     [0 \<mapsto> \<lparr>parent = None, left = None, right = Some 1, balanceFactor = - 2, key = 1, val = None\<rparr>,
      1 \<mapsto> \<lparr>parent = Some 0, left = None, right = Some 2, balanceFactor = - 1, key = 2, val = None\<rparr>,
      2 \<mapsto> \<lparr>parent = Some 1, left = None, right = None, balanceFactor = 0, key = 3, val = None\<rparr>]"

definition chain_left :: "(int, string) store" where
  "chain_left =
     [0 \<mapsto> \<lparr>parent = None, left = Some 1, right = None, balanceFactor = 2, key = 3, val = None\<rparr>,
      1 \<mapsto> \<lparr>parent = Some 0, left = Some 2, right = None, balanceFactor = 1, key = 2, val = None\<rparr>,
      2 \<mapsto> \<lparr>parent = Some 1, left = None, right = None, balanceFactor = 0, key = 1, val = None\<rparr>]"

text \<open>
  The tree object after \<open>set(1); set(2); set(3)\<close> on an empty tree with the default
  comparator: node \<open>1\<close> (key \<open>2\<close>) is the root, nodes \<open>0\<close> and \<open>2\<close> are its children.
\<close>

definition three_nodes :: "(int, string) AVLTree" where
  "three_nodes =
     \<lparr>comparator = DEFAULT_COMPARE, root = Some 1, tsize = 3, noDuplicates = False,
      heap =
        [0 \<mapsto> \<lparr>parent = Some 1, left = None, right = None, balanceFactor = 0, key = 1, val = None\<rparr>,
         1 \<mapsto> \<lparr>parent = None, left = Some 0, right = Some 2, balanceFactor = 0, key = 2, val = None\<rparr>,
         2 \<mapsto> \<lparr>parent = Some 1, left = None, right = None, balanceFactor = 0, key = 3, val = None\<rparr>],
      fresh = 3\<rparr>"

definition three_shape :: shape where
  "three_shape = Nd (Nd Tip 0 Tip) 1 (Nd Tip 2 Tip)"


text \<open>
  JavaScript's truthiness on the integers: \<open>!key\<close> holds of the key \<open>0\<close> only.
\<close>

definition truthy_number :: "int \<Rightarrow> bool" where
  "truthy_number k = (k \<noteq> 0)"

text \<open>Client programs: three calls of \<open>set\<close> with the same key, and calls with the key \<open>0\<close>.\<close>

definition same_key_thrice :: "(int, string) operation list" where
  "same_key_thrice = [Set 1 (Some ''a''), Set 1 (Some ''b''), Set 1 (Some ''c'')]"

definition same_key_twice :: "(int, string) operation list" where
  "same_key_twice = [Set 1 (Some ''a''), Set 1 (Some ''b'')]"

definition keys_0_1 :: "(int, string) operation list" where
  "keys_0_1 = [Set 0 (Some ''a''), Set 1 (Some ''b'')]"

definition keys_minus1_0 :: "(int, string) operation list" where
  "keys_minus1_0 = [Set (- 1) (Some ''a''), Set 0 (Some ''b'')]"

definition set_then_delete_0_1 :: "(int, string) operation list" where
  "set_then_delete_0_1 = [Set 0 (Some ''a''), Set 1 (Some ''b''), Delete 0, Delete 1]"

section \<open>Reading and writing the store\<close>

text \<open>A write to one field of one node changes that field of that node and nothing else.\<close>

lemma set_parent_reads [simp]:
  "parent_of (set_parent a v s) b = (if b = a then v else parent_of s b)"
  "left_of (set_parent a v s) b = left_of s b"
  "right_of (set_parent a v s) b = right_of s b"
  "bf_of (set_parent a v s) b = bf_of s b"
  "key_of (set_parent a v s) b = key_of s b"
  "val_of (set_parent a v s) b = val_of s b"
  by (simp_all add: parent_of_def left_of_def right_of_def bf_of_def key_of_def val_of_def set_parent_def)

lemma set_left_reads [simp]:
  "parent_of (set_left a v s) b = parent_of s b"
  "left_of (set_left a v s) b = (if b = a then v else left_of s b)"
  "right_of (set_left a v s) b = right_of s b"
  "bf_of (set_left a v s) b = bf_of s b"
  "key_of (set_left a v s) b = key_of s b"
  "val_of (set_left a v s) b = val_of s b"
  by (simp_all add: parent_of_def left_of_def right_of_def bf_of_def key_of_def val_of_def set_left_def)

lemma set_right_reads [simp]:
  "parent_of (set_right a v s) b = parent_of s b"
  "left_of (set_right a v s) b = left_of s b"
  "right_of (set_right a v s) b = (if b = a then v else right_of s b)"
  "bf_of (set_right a v s) b = bf_of s b"
  "key_of (set_right a v s) b = key_of s b"
  "val_of (set_right a v s) b = val_of s b"
  by (simp_all add: parent_of_def left_of_def right_of_def bf_of_def key_of_def val_of_def set_right_def)

lemma set_bf_reads [simp]:
  "parent_of (set_bf a v s) b = parent_of s b"
  "left_of (set_bf a v s) b = left_of s b"
  "right_of (set_bf a v s) b = right_of s b"
  "bf_of (set_bf a v s) b = (if b = a then v else bf_of s b)"
  "key_of (set_bf a v s) b = key_of s b"
  "val_of (set_bf a v s) b = val_of s b"
  by (simp_all add: parent_of_def left_of_def right_of_def bf_of_def key_of_def val_of_def set_bf_def)

lemma set_key_reads [simp]:
  "parent_of (set_key a v s) b = parent_of s b"
  "left_of (set_key a v s) b = left_of s b"
  "right_of (set_key a v s) b = right_of s b"
  "bf_of (set_key a v s) b = bf_of s b"
  "key_of (set_key a v s) b = (if b = a then v else key_of s b)"
  "val_of (set_key a v s) b = val_of s b"
  by (simp_all add: parent_of_def left_of_def right_of_def bf_of_def key_of_def val_of_def set_key_def)

lemma set_val_reads [simp]:
  "parent_of (set_val a v s) b = parent_of s b"
  "left_of (set_val a v s) b = left_of s b"
  "right_of (set_val a v s) b = right_of s b"
  "bf_of (set_val a v s) b = bf_of s b"
  "key_of (set_val a v s) b = key_of s b"
  "val_of (set_val a v s) b = (if b = a then v else val_of s b)"
  by (simp_all add: parent_of_def left_of_def right_of_def bf_of_def key_of_def val_of_def set_val_def)

lemma alloc_reads [simp]:
  "parent_of (s(a \<mapsto> n)) b = (if b = a then parent n else parent_of s b)"
  "left_of (s(a \<mapsto> n)) b = (if b = a then left n else left_of s b)"
  "right_of (s(a \<mapsto> n)) b = (if b = a then right n else right_of s b)"
  "bf_of (s(a \<mapsto> n)) b = (if b = a then balanceFactor n else bf_of s b)"
  "key_of (s(a \<mapsto> n)) b = (if b = a then key n else key_of s b)"
  "val_of (s(a \<mapsto> n)) b = (if b = a then val n else val_of s b)"
  by (simp_all add: parent_of_def left_of_def right_of_def bf_of_def key_of_def val_of_def)

lemma new_node_fields [simp]:
  "parent (new_node p k v) = p" "left (new_node p k v) = None" "right (new_node p k v) = None"
  "balanceFactor (new_node p k v) = 0" "key (new_node p k v) = k" "val (new_node p k v) = v"
  by (simp_all add: new_node_def)

section \<open>The effect of a rotation on the store\<close>

lemma rotateLeft_effect:
  assumes rb: "right_of s a = Some b" and ab: "a \<noteq> b"
    and la: "left_of s b \<noteq> Some a"
    and pa: "parent_of s a \<noteq> Some a"
  shows "snd (rotateLeft a s) = Some b"
    and "left_of (fst (rotateLeft a s)) x =
           (if x = b then Some a
            else if Some x = parent_of s a \<and> left_of s x = Some a then Some b
            else left_of s x)"
    and "right_of (fst (rotateLeft a s)) x =
           (if x = a then left_of s b
            else if Some x = parent_of s a \<and> left_of s x \<noteq> Some a then Some b
            else right_of s x)"
    and "parent_of (fst (rotateLeft a s)) x =
           (if x = a then Some b else if x = b then parent_of s a
            else if Some x = left_of s b then Some a else parent_of s x)"
    and "bf_of (fst (rotateLeft a s)) x =
           (if x = a then (if bf_of s b < 0 then bf_of s a + 1 - bf_of s b else bf_of s a + 1)
            else if x = b then
              (if (if bf_of s b < 0 then bf_of s a + 1 - bf_of s b else bf_of s a + 1) > 0
               then bf_of s b + 1 + (if bf_of s b < 0 then bf_of s a + 1 - bf_of s b else bf_of s a + 1)
               else bf_of s b + 1)
            else bf_of s x)"
    and "key_of (fst (rotateLeft a s)) x = key_of s x"
    and "val_of (fst (rotateLeft a s)) x = val_of s x"
proof -
  define s1 where "s1 = set_right a (left_of s b) s"
  define s2 where "s2 = (case left_of s1 b of Some rl \<Rightarrow> set_parent rl (Some a) s1 | None \<Rightarrow> s1)"
  define s3 where "s3 = set_parent b (parent_of s2 a) s2"
  define s4 where "s4 = (case parent_of s3 b of
                    Some p \<Rightarrow>
                      if left_of s3 p = Some a then set_left p (Some b) s3
                      else set_right p (Some b) s3
                  | None \<Rightarrow> s3)"
  define s5 where "s5 = set_parent a (Some b) s4"
  define s6 where "s6 = set_left b (Some a) s5"
  define s7 where "s7 = set_bf a (bf_of s6 a + 1) s6"
  define s8 where "s8 = (if bf_of s7 b < 0 then set_bf a (bf_of s7 a - bf_of s7 b) s7 else s7)"
  define s9 where "s9 = set_bf b (bf_of s8 b + 1) s8"
  define s10 where "s10 = (if bf_of s9 a > 0 then set_bf b (bf_of s9 b + bf_of s9 a) s9 else s9)"
  have rot: "rotateLeft a s = (s10, Some b)"
    unfolding rotateLeft_def s1_def s2_def s3_def s4_def s5_def s6_def s7_def s8_def s9_def s10_def
    by (simp only: rb option.case Let_def)
  have f1: "\<And>x. left_of s1 x = left_of s x"
     "\<And>x. right_of s1 x = (if x = a then left_of s b else right_of s x)"
     "\<And>x. parent_of s1 x = parent_of s x" "\<And>x. bf_of s1 x = bf_of s x"
     "\<And>x. key_of s1 x = key_of s x" "\<And>x. val_of s1 x = val_of s x"
    by (simp_all add: s1_def)
  have f2: "\<And>x. left_of s2 x = left_of s x" "\<And>x. right_of s2 x = right_of s1 x"
     "\<And>x. parent_of s2 x = (if Some x = left_of s b then Some a else parent_of s x)"
     "\<And>x. bf_of s2 x = bf_of s x"
     "\<And>x. key_of s2 x = key_of s x" "\<And>x. val_of s2 x = val_of s x"
    by (auto simp add: s2_def f1 split: option.splits)
  have f3: "\<And>x. left_of s3 x = left_of s x" "\<And>x. right_of s3 x = right_of s1 x"
     "\<And>x. parent_of s3 x = (if x = b then parent_of s a else parent_of s2 x)"
     "\<And>x. bf_of s3 x = bf_of s x"
     "\<And>x. key_of s3 x = key_of s x" "\<And>x. val_of s3 x = val_of s x"
    using la by (simp_all add: s3_def f2)
  have f4: "\<And>x. left_of s4 x =
        (if Some x = parent_of s a \<and> left_of s x = Some a then Some b else left_of s x)"
     "\<And>x. right_of s4 x =
        (if Some x = parent_of s a \<and> left_of s x \<noteq> Some a then Some b else right_of s1 x)"
     "\<And>x. parent_of s4 x = parent_of s3 x"
     "\<And>x. bf_of s4 x = bf_of s x"
     "\<And>x. key_of s4 x = key_of s x" "\<And>x. val_of s4 x = val_of s x"
    by (auto simp add: s4_def f3 split: option.splits)
  have f6: "\<And>x. left_of s6 x = (if x = b then Some a else left_of s4 x)"
     "\<And>x. right_of s6 x = right_of s4 x"
     "\<And>x. parent_of s6 x = (if x = a then Some b else parent_of s3 x)"
     "\<And>x. bf_of s6 x = bf_of s x"
     "\<And>x. key_of s6 x = key_of s x" "\<And>x. val_of s6 x = val_of s x"
    by (simp_all add: s6_def s5_def f4)
  have f8: "\<And>x. left_of s8 x = left_of s6 x"
     "\<And>x. right_of s8 x = right_of s6 x"
     "\<And>x. parent_of s8 x = parent_of s6 x"
     "\<And>x. bf_of s8 x =
        (if x = a then (if bf_of s b < 0 then bf_of s a + 1 - bf_of s b else bf_of s a + 1)
         else bf_of s x)"
     "\<And>x. key_of s8 x = key_of s x" "\<And>x. val_of s8 x = val_of s x"
    using ab by (simp_all add: s8_def s7_def f6)
  have f10: "\<And>x. left_of s10 x = left_of s6 x"
     "\<And>x. right_of s10 x = right_of s6 x"
     "\<And>x. parent_of s10 x = parent_of s6 x"
     "\<And>x. bf_of s10 x = (if x = b then
              (if bf_of s8 a > 0 then bf_of s b + 1 + bf_of s8 a else bf_of s b + 1)
            else bf_of s8 x)"
     "\<And>x. key_of s10 x = key_of s x" "\<And>x. val_of s10 x = val_of s x"
    using ab by (simp_all add: s10_def s9_def f8)
  show "snd (rotateLeft a s) = Some b" by (simp add: rot)
  show "left_of (fst (rotateLeft a s)) x =
           (if x = b then Some a
            else if Some x = parent_of s a \<and> left_of s x = Some a then Some b
            else left_of s x)"
    by (simp add: rot f10 f6 f4)
  show "right_of (fst (rotateLeft a s)) x =
           (if x = a then left_of s b
            else if Some x = parent_of s a \<and> left_of s x \<noteq> Some a then Some b
            else right_of s x)"
    using pa by (auto simp add: rot f10 f6 f4 f1)
  show "parent_of (fst (rotateLeft a s)) x =
           (if x = a then Some b else if x = b then parent_of s a
            else if Some x = left_of s b then Some a else parent_of s x)"
    by (simp add: rot f10 f6 f3 f2)
  show "bf_of (fst (rotateLeft a s)) x =
           (if x = a then (if bf_of s b < 0 then bf_of s a + 1 - bf_of s b else bf_of s a + 1)
            else if x = b then
              (if (if bf_of s b < 0 then bf_of s a + 1 - bf_of s b else bf_of s a + 1) > 0
               then bf_of s b + 1 + (if bf_of s b < 0 then bf_of s a + 1 - bf_of s b else bf_of s a + 1)
               else bf_of s b + 1)
            else bf_of s x)"
    using ab by (simp add: rot f10 f8)
  show "key_of (fst (rotateLeft a s)) x = key_of s x" by (simp add: rot f10)
  show "val_of (fst (rotateLeft a s)) x = val_of s x" by (simp add: rot f10)
qed

lemma rotateRight_effect:
  assumes lb: "left_of s a = Some b" and ab: "a \<noteq> b"
    and ra: "right_of s b \<noteq> Some a"
    and pa: "parent_of s a \<noteq> Some a"
  shows "snd (rotateRight a s) = Some b"
    and "left_of (fst (rotateRight a s)) x =
           (if x = a then right_of s b
            else if Some x = parent_of s a \<and> left_of s x = Some a then Some b
            else left_of s x)"
    and "right_of (fst (rotateRight a s)) x =
           (if x = b then Some a
            else if Some x = parent_of s a \<and> left_of s x \<noteq> Some a then Some b
            else right_of s x)"
    and "parent_of (fst (rotateRight a s)) x =
           (if x = a then Some b else if x = b then parent_of s a
            else if Some x = right_of s b then Some a else parent_of s x)"
    and "bf_of (fst (rotateRight a s)) x =
           (if x = a then (if bf_of s b > 0 then bf_of s a - 1 - bf_of s b else bf_of s a - 1)
            else if x = b then
              (if (if bf_of s b > 0 then bf_of s a - 1 - bf_of s b else bf_of s a - 1) < 0
               then bf_of s b - 1 + (if bf_of s b > 0 then bf_of s a - 1 - bf_of s b else bf_of s a - 1)
               else bf_of s b - 1)
            else bf_of s x)"
    and "key_of (fst (rotateRight a s)) x = key_of s x"
    and "val_of (fst (rotateRight a s)) x = val_of s x"
proof -
  define s1 where "s1 = set_left a (right_of s b) s"
  define s2 where "s2 = (case left_of s1 a of Some lr \<Rightarrow> set_parent lr (Some a) s1 | None \<Rightarrow> s1)"
  define s3 where "s3 = set_parent b (parent_of s2 a) s2"
  define s4 where "s4 = (case parent_of s3 b of
                    Some p \<Rightarrow>
                      if left_of s3 p = Some a then set_left p (Some b) s3
                      else set_right p (Some b) s3
                  | None \<Rightarrow> s3)"
  define s5 where "s5 = set_parent a (Some b) s4"
  define s6 where "s6 = set_right b (Some a) s5"
  define s7 where "s7 = set_bf a (bf_of s6 a - 1) s6"
  define s8 where "s8 = (if bf_of s7 b > 0 then set_bf a (bf_of s7 a - bf_of s7 b) s7 else s7)"
  define s9 where "s9 = set_bf b (bf_of s8 b - 1) s8"
  define s10 where "s10 = (if bf_of s9 a < 0 then set_bf b (bf_of s9 b + bf_of s9 a) s9 else s9)"
  have rot: "rotateRight a s = (s10, Some b)"
    unfolding rotateRight_def s1_def s2_def s3_def s4_def s5_def s6_def s7_def s8_def s9_def s10_def
    by (simp only: lb option.case Let_def)
  have f1: "\<And>x. left_of s1 x = (if x = a then right_of s b else left_of s x)"
     "\<And>x. right_of s1 x = right_of s x"
     "\<And>x. parent_of s1 x = parent_of s x" "\<And>x. bf_of s1 x = bf_of s x"
     "\<And>x. key_of s1 x = key_of s x" "\<And>x. val_of s1 x = val_of s x"
    by (simp_all add: s1_def)
  have f2: "\<And>x. left_of s2 x = left_of s1 x" "\<And>x. right_of s2 x = right_of s x"
     "\<And>x. parent_of s2 x = (if Some x = right_of s b then Some a else parent_of s x)"
     "\<And>x. bf_of s2 x = bf_of s x"
     "\<And>x. key_of s2 x = key_of s x" "\<And>x. val_of s2 x = val_of s x"
    by (auto simp add: s2_def f1 split: option.splits)
  have f3: "\<And>x. left_of s3 x = left_of s1 x" "\<And>x. right_of s3 x = right_of s x"
     "\<And>x. parent_of s3 x = (if x = b then parent_of s a else parent_of s2 x)"
     "\<And>x. bf_of s3 x = bf_of s x"
     "\<And>x. key_of s3 x = key_of s x" "\<And>x. val_of s3 x = val_of s x"
    using ra by (simp_all add: s3_def f2)
  have f4: "\<And>x. left_of s4 x =
        (if Some x = parent_of s a \<and> left_of s x = Some a then Some b else left_of s1 x)"
     "\<And>x. right_of s4 x =
        (if Some x = parent_of s a \<and> left_of s x \<noteq> Some a then Some b else right_of s x)"
     "\<And>x. parent_of s4 x = parent_of s3 x"
     "\<And>x. bf_of s4 x = bf_of s x"
     "\<And>x. key_of s4 x = key_of s x" "\<And>x. val_of s4 x = val_of s x"
    using pa by (auto simp add: s4_def f3 f1 split: option.splits)
  have f6: "\<And>x. left_of s6 x = left_of s4 x"
     "\<And>x. right_of s6 x = (if x = b then Some a else right_of s4 x)"
     "\<And>x. parent_of s6 x = (if x = a then Some b else parent_of s3 x)"
     "\<And>x. bf_of s6 x = bf_of s x"
     "\<And>x. key_of s6 x = key_of s x" "\<And>x. val_of s6 x = val_of s x"
    by (simp_all add: s6_def s5_def f4)
  have f8: "\<And>x. left_of s8 x = left_of s6 x"
     "\<And>x. right_of s8 x = right_of s6 x"
     "\<And>x. parent_of s8 x = parent_of s6 x"
     "\<And>x. bf_of s8 x =
        (if x = a then (if bf_of s b > 0 then bf_of s a - 1 - bf_of s b else bf_of s a - 1)
         else bf_of s x)"
     "\<And>x. key_of s8 x = key_of s x" "\<And>x. val_of s8 x = val_of s x"
    using ab by (simp_all add: s8_def s7_def f6)
  have f10: "\<And>x. left_of s10 x = left_of s6 x"
     "\<And>x. right_of s10 x = right_of s6 x"
     "\<And>x. parent_of s10 x = parent_of s6 x"
     "\<And>x. bf_of s10 x = (if x = b then
              (if bf_of s8 a < 0 then bf_of s b - 1 + bf_of s8 a else bf_of s b - 1)
            else bf_of s8 x)"
     "\<And>x. key_of s10 x = key_of s x" "\<And>x. val_of s10 x = val_of s x"
    using ab by (simp_all add: s10_def s9_def f8)
  show "snd (rotateRight a s) = Some b" by (simp add: rot)
  show "left_of (fst (rotateRight a s)) x =
           (if x = a then right_of s b
            else if Some x = parent_of s a \<and> left_of s x = Some a then Some b
            else left_of s x)"
    using pa by (auto simp add: rot f10 f6 f4 f1)
  show "right_of (fst (rotateRight a s)) x =
           (if x = b then Some a
            else if Some x = parent_of s a \<and> left_of s x \<noteq> Some a then Some b
            else right_of s x)"
    by (simp add: rot f10 f6 f4)
  show "parent_of (fst (rotateRight a s)) x =
           (if x = a then Some b else if x = b then parent_of s a
            else if Some x = right_of s b then Some a else parent_of s x)"
    by (simp add: rot f10 f6 f3 f2)
  show "bf_of (fst (rotateRight a s)) x =
           (if x = a then (if bf_of s b > 0 then bf_of s a - 1 - bf_of s b else bf_of s a - 1)
            else if x = b then
              (if (if bf_of s b > 0 then bf_of s a - 1 - bf_of s b else bf_of s a - 1) < 0
               then bf_of s b - 1 + (if bf_of s b > 0 then bf_of s a - 1 - bf_of s b else bf_of s a - 1)
               else bf_of s b - 1)
            else bf_of s x)"
    using ab by (simp add: rot f10 f8)
  show "key_of (fst (rotateRight a s)) x = key_of s x" by (simp add: rot f10)
  show "val_of (fst (rotateRight a s)) x = val_of s x" by (simp add: rot f10)
qed

section \<open>Trees in the store: basic facts and the read-only loops\<close>

lemma hgt_nonneg [simp]: "0 \<le> hgt t"
  by (induction t) auto

lemma is_tree_ptr: "is_tree s par p t \<Longrightarrow> p = ptr t"
  by (cases t) auto

lemma is_tree_None [simp]: "is_tree s par None t = (t = Tip)"
  by (cases t) auto

lemma is_tree_unique: "is_tree s par p t \<Longrightarrow> is_tree s par' p t' \<Longrightarrow> t = t'"
proof (induction t arbitrary: par par' p t')
  case Tip
  then show ?case by simp
next
  case (Nd l a r)
  then obtain l' r' where t': "t' = Nd l' a r'" by (cases t') auto
  with Nd show ?case by auto
qed

lemma is_tree_cong:
  "(\<And>x. x \<in> set (nodes t) \<Longrightarrow>
      left_of s' x = left_of s x \<and> right_of s' x = right_of s x \<and>
      parent_of s' x = parent_of s x)
   \<Longrightarrow> is_tree s' par p t = is_tree s par p t"
  by (induction t arbitrary: par p) auto

lemma has_loop_tree:
  "is_tree s par p t \<Longrightarrow> has_loop c s k p = Some (lookup c s k t \<noteq> None)"
proof (induction t arbitrary: par p)
  case Tip
  then show ?case by (simp add: has_loop.simps)
next
  case (Nd l a r)
  then show ?case by (subst has_loop.simps) (auto simp: Let_def)
qed

lemma get_loop_tree:
  "is_tree s par p t \<Longrightarrow>
   get_loop c s k p = Some (case lookup c s k t of None \<Rightarrow> None | Some a \<Rightarrow> val_of s a)"
proof (induction t arbitrary: par p)
  case Tip
  then show ?case by (simp add: get_loop.simps)
next
  case (Nd l a r)
  then show ?case by (subst get_loop.simps) (auto simp: Let_def)
qed

lemma delete_find_tree:
  "is_tree s par p t \<Longrightarrow> delete_find c s k p = Some (lookup c s k t)"
proof (induction t arbitrary: par p)
  case Tip
  then show ?case by (simp add: delete_find.simps)
next
  case (Nd l a r)
  then show ?case by (subst delete_find.simps) (auto simp: Let_def)
qed

lemma leftmost_tree:
  "is_tree s par (Some a) t \<Longrightarrow> leftmost s a = Some (hd (nodes t))"
proof (induction t arbitrary: par a)
  case Tip
  then show ?case by simp
next
  case (Nd l b r)
  show ?case
  proof (cases l)
    case Tip
    with Nd.prems show ?thesis by (subst leftmost.simps) auto
  next
    case (Nd ll c lr)
    with Nd.prems Nd.IH(1)[of "Some b" c] show ?thesis
      by (subst leftmost.simps) (auto simp: hd_append)
  qed
qed

lemma rightmost_tree:
  "is_tree s par (Some a) t \<Longrightarrow> rightmost s a = Some (last (nodes t))"
proof (induction t arbitrary: par a)
  case Tip
  then show ?case by simp
next
  case (Nd l b r)
  show ?case
  proof (cases r)
    case Tip
    with Nd.prems show ?thesis by (subst rightmost.simps) auto
  next
    case (Nd rl c rr)
    with Nd.prems Nd.IH(2)[of "Some b" c] show ?thesis
      by (subst rightmost.simps) auto
  qed
qed

lemma yield_loop_tree:
  "is_tree s par p t \<Longrightarrow>
   yield_loop f s p stk acc = yield_loop f s None stk (acc @ map f (nodes t))"
proof (induction t arbitrary: par p stk acc)
  case Tip
  then show ?case by simp
next
  case (Nd l a r)
  from Nd.prems have p: "p = Some a" and l: "is_tree s (Some a) (left_of s a) l"
    and r: "is_tree s (Some a) (right_of s a) r" by auto
  have "yield_loop f s p stk acc = yield_loop f s (left_of s a) (a # stk) acc"
    by (subst yield_loop.simps) (simp add: p)
  also have "\<dots> = yield_loop f s None (a # stk) (acc @ map f (nodes l))"
    by (rule Nd.IH(1)[OF l])
  also have "\<dots> = yield_loop f s (right_of s a) stk ((acc @ map f (nodes l)) @ [f a])"
    by (subst yield_loop.simps) simp
  also have "\<dots> = yield_loop f s None stk (((acc @ map f (nodes l)) @ [f a]) @ map f (nodes r))"
    by (rule Nd.IH(2)[OF r])
  finally show ?case by simp
qed

lemma forEach_list_append:
  "forEach_list cb (xs @ ys) i c =
     (case forEach_list cb xs i c of
        (True, i', c') \<Rightarrow> (True, i', c')
      | (False, i', c') \<Rightarrow> forEach_list cb ys i' c')"
  by (induction xs arbitrary: i c) auto

lemma forEach_loop_tree:
  "is_tree s par p t \<Longrightarrow>
   forEach_loop cb s p stk i c =
     (case forEach_list cb (nodes t) i c of
        (True, i', c') \<Rightarrow> Some c'
      | (False, i', c') \<Rightarrow> forEach_loop cb s None stk i' c')"
proof (induction t arbitrary: par p stk i c)
  case Tip
  then show ?case by simp
next
  case (Nd l a r)
  from Nd.prems have p: "p = Some a" and l: "is_tree s (Some a) (left_of s a) l"
    and r: "is_tree s (Some a) (right_of s a) r" by auto
  have 1: "forEach_loop cb s p stk i c = forEach_loop cb s (left_of s a) (a # stk) i c"
    by (subst forEach_loop.simps) (simp add: p)
  note 2 = Nd.IH(1)[OF l, of "a # stk" i c]
  obtain b i' c' where fl: "forEach_list cb (nodes l) i c = (b, i', c')"
    by (cases "forEach_list cb (nodes l) i c") auto
  note app = forEach_list_append
  show ?case
  proof (cases b)
    case True
    with 1 2 fl show ?thesis by (simp add: app)
  next
    case False
    have 3: "forEach_loop cb s None (a # stk) i' c' =
       (if fst (cb a i' c') then Some (snd (cb a i' c'))
        else forEach_loop cb s (right_of s a) stk (i' + 1) (snd (cb a i' c')))"
      by (subst forEach_loop.simps) simp
    note 4 = Nd.IH(2)[OF r, of stk "i' + 1" "snd (cb a i' c')"]
    from False 1 2 fl 3 4 show ?thesis by (simp add: app split: prod.splits bool.splits)
  qed
qed

lemma range_list_append:
  "range_list c s low high fn (xs @ ys) st =
     (case range_list c s low high fn xs st of
        (True, st') \<Rightarrow> (True, st')
      | (False, st') \<Rightarrow> range_list c s low high fn ys st')"
  by (induction xs arbitrary: st) auto

lemma range_loop_tree:
  "is_tree s par p t \<Longrightarrow>
   range_loop c s low high fn Q p st =
     (case range_list c s low high fn (nodes t) st of
        (True, st') \<Rightarrow> Some st'
      | (False, st') \<Rightarrow> range_loop c s low high fn Q None st')"
proof (induction t arbitrary: par p Q st)
  case Tip
  then show ?case by simp
next
  case (Nd l a r)
  from Nd.prems have p: "p = Some a" and l: "is_tree s (Some a) (left_of s a) l"
    and r: "is_tree s (Some a) (right_of s a) r" by auto
  have 1: "range_loop c s low high fn Q p st = range_loop c s low high fn (a # Q) (left_of s a) st"
    by (subst range_loop.simps) (simp add: p)
  note 2 = Nd.IH(1)[OF l, of "a # Q" st]
  obtain b st' where fl: "range_list c s low high fn (nodes l) st = (b, st')"
    by (cases "range_list c s low high fn (nodes l) st") auto
  show ?case
  proof (cases b)
    case True
    with 1 2 fl show ?thesis by (simp add: range_list_append)
  next
    case False
    have 3: "range_loop c s low high fn (a # Q) None st' =
       (if c (key_of s a) high > 0 then Some st'
        else if c (key_of s a) low \<ge> 0 then
          (if fst (fn a st') then Some (snd (fn a st'))
           else range_loop c s low high fn Q (right_of s a) (snd (fn a st')))
        else range_loop c s low high fn Q (right_of s a) st')"
      by (subst range_loop.simps) simp
    note 4 = Nd.IH(2)[OF r, of Q]
    from False 1 2 fl 3 4 show ?thesis
      by (simp add: range_list_append split: prod.splits bool.splits)
  qed
qed

lemma height_tree: "is_tree s par p t \<Longrightarrow> height s p = Some (hgt t)"
proof (induction t arbitrary: par p)
  case Tip
  then show ?case by (simp add: height.simps)
next
  case (Nd l a r)
  then show ?case by (subst height.simps) auto
qed

lemma isBalanced_rec_tree: "is_tree s par p t \<Longrightarrow> isBalanced_rec s p = Some (avl t)"
proof (induction t arbitrary: par p)
  case Tip
  then show ?case by (simp add: isBalanced_rec.simps)
next
  case (Nd l a r)
  then show ?case by (subst isBalanced_rec.simps) (auto simp: height_tree)
qed

lemma three_nodes_is_tree:
  "is_tree (heap three_nodes) None (root three_nodes) three_shape"
  by (simp add: three_nodes_def three_shape_def parent_of_def left_of_def right_of_def)

lemma yield_loop_root:
  assumes "is_tree s None p t"
  shows "yield_loop f s p [] [] = Some (map f (nodes t))"
proof -
  have "yield_loop f s p [] [] = yield_loop f s None [] ([] @ map f (nodes t))"
    by (rule yield_loop_tree [OF assms])
  also have "\<dots> = Some (map f (nodes t))"
    by (subst yield_loop.simps) simp
  finally show ?thesis .
qed

lemma forEach_loop_root:
  assumes "is_tree s None p t"
  shows "forEach_loop cb s p [] i c = Some (snd (snd (forEach_list cb (nodes t) i c)))"
proof -
  have e: "\<And>i' c'. forEach_loop cb s None [] i' c' = Some c'"
    by (subst forEach_loop.simps) simp
  show ?thesis
    by (subst forEach_loop_tree [OF assms]) (simp add: e split: prod.splits bool.splits)
qed

lemma range_loop_root:
  assumes "is_tree s None p t"
  shows "range_loop c s low high fn [] p st =
         Some (snd (range_list c s low high fn (nodes t) st))"
proof -
  have e: "\<And>st'. range_loop c s low high fn [] None st' = Some st'"
    by (subst range_loop.simps) simp
  show ?thesis
    by (subst range_loop_tree [OF assms]) (simp add: e split: prod.splits bool.splits)
qed

section \<open>Comparators and the order of the keys\<close>

lemma vc_sym: "valid_comparator c \<Longrightarrow> (c a b < 0) = (c b a > 0)"
  by (simp add: valid_comparator_def)

lemma vc_ge: "valid_comparator c \<Longrightarrow> (c a b \<ge> 0) = (c b a \<le> 0)"
  using vc_sym [of c a b] by auto

lemma vc_zero: "valid_comparator c \<Longrightarrow> (c a b = 0) = (c b a = 0)"
  using vc_sym [of c a b] vc_sym [of c b a] by auto

lemma vc_trans: "valid_comparator c \<Longrightarrow> c a b \<le> 0 \<Longrightarrow> c b d \<le> 0 \<Longrightarrow> c a d \<le> 0"
  unfolding valid_comparator_def by blast

lemma vc_trans_lt1: "valid_comparator c \<Longrightarrow> c a b < 0 \<Longrightarrow> c b d \<le> 0 \<Longrightarrow> c a d < 0"
  using vc_trans [of c b d a] vc_sym [of c a b] vc_sym [of c a d] by force

lemma vc_trans_lt2: "valid_comparator c \<Longrightarrow> c a b \<le> 0 \<Longrightarrow> c b d < 0 \<Longrightarrow> c a d < 0"
  using vc_trans [of c d a b] vc_sym [of c b d] vc_sym [of c a d] by force

lemma vc_refl: "valid_comparator c \<Longrightarrow> c a a = 0"
  using vc_sym [of c a a] by auto

lemma bst_inv_weaken: "bst_inv c ll gr s t \<Longrightarrow> bst_inv c False False s t"
proof (induction t)
  case Tip
  then show ?case by simp
next
  case (Nd l a r)
  then show ?case by (auto simp: list_all_iff split: if_splits)
qed

lemma bst_inv_sorted:
  assumes vc: "valid_comparator c"
  shows "bst_inv c False False s t \<Longrightarrow>
         sorted_wrt (\<lambda>x y. c (key_of s x) (key_of s y) \<le> 0) (nodes t)"
proof (induction t)
  case Tip
  then show ?case by simp
next
  case (Nd l a r)
  then have l: "\<forall>x\<in>set (nodes l). c (key_of s x) (key_of s a) \<le> 0"
    and r: "\<forall>y\<in>set (nodes r). c (key_of s a) (key_of s y) \<le> 0"
    by (auto simp: list_all_iff vc_ge [OF vc])
  from l r have "\<forall>x\<in>set (nodes l). \<forall>y\<in>set (nodes r). c (key_of s x) (key_of s y) \<le> 0"
    using vc_trans [OF vc] by blast
  with Nd l r show ?case by (auto simp: sorted_wrt_append)
qed

lemma range_list_sorted:
  assumes vc: "valid_comparator c"
  shows "sorted_wrt (\<lambda>x y. c (key_of s x) (key_of s y) \<le> 0) ns \<Longrightarrow>
   snd (range_list c s low high fn ns st) =
   visit fn (filter (\<lambda>n. c (key_of s n) low \<ge> 0 \<and> c (key_of s n) high \<le> 0) ns) st"
proof (induction ns arbitrary: st)
  case Nil
  then show ?case by simp
next
  case (Cons n ns)
  show ?case
  proof (cases "c (key_of s n) high > 0")
    case True
    have "\<forall>m\<in>set ns. \<not> c (key_of s m) high \<le> 0"
    proof
      fix m assume m: "m \<in> set ns"
      with Cons.prems have "c (key_of s n) (key_of s m) \<le> 0" by simp
      with vc_trans [OF vc, of "key_of s n" "key_of s m" high] True
      show "\<not> c (key_of s m) high \<le> 0" by auto
    qed
    then have "filter (\<lambda>n. c (key_of s n) low \<ge> 0 \<and> c (key_of s n) high \<le> 0) ns = []"
      by (auto simp: filter_empty_conv)
    with True show ?thesis by simp
  next
    case False
    with Cons show ?thesis by simp
  qed
qed

lemma valid_DEFAULT_COMPARE: "valid_comparator (DEFAULT_COMPARE :: 'k::linorder \<Rightarrow> 'k \<Rightarrow> int)"
  by (auto simp: valid_comparator_def DEFAULT_COMPARE_def)

lemma three_nodes_inv: "tree_inv True three_nodes three_shape"
  by (simp add: tree_inv_def three_nodes_def three_shape_def parent_of_def left_of_def
      right_of_def key_of_def bf_of_def DEFAULT_COMPARE_def)

section \<open>Trees with a hole\<close>

lemma nodes_plug: "nodes (plug fs t) = ctx_pre fs @ nodes t @ ctx_post fs"
  by (induction fs t rule: plug.induct) auto

lemma ptr_in_nodes: "ptr t = Some a \<Longrightarrow> a \<in> set (nodes t)"
  by (cases t) auto

lemma ctx_par_in_nodes: "ctx_par fs = Some a \<Longrightarrow> a \<in> set (ctx_pre fs @ ctx_post fs)"
  by (cases fs rule: ctx_par.cases) auto

lemma is_tree_reparent:
  "is_tree s par p t \<Longrightarrow> distinct (nodes t) \<Longrightarrow>
   (\<And>x. x \<in> set (nodes t) \<Longrightarrow>
      left_of s' x = left_of s x \<and> right_of s' x = right_of s x \<and>
      parent_of s' x = (if Some x = p then par' else parent_of s x))
   \<Longrightarrow> is_tree s' par' p t"
proof (induction t arbitrary: par p par')
  case Tip
  then show ?case by simp
next
  case (Nd l a r)
  from Nd.prems(1) have p: "p = Some a" and l: "is_tree s (Some a) (left_of s a) l"
    and r: "is_tree s (Some a) (right_of s a) r" by auto
  from Nd.prems(2) have d: "distinct (nodes l)" "distinct (nodes r)"
    "a \<notin> set (nodes l)" "a \<notin> set (nodes r)" by auto
  have a: "left_of s' a = left_of s a" "right_of s' a = right_of s a" "parent_of s' a = par'"
    using Nd.prems(3)[of a] p by auto
  have "is_tree s' (Some a) (left_of s a) l"
  proof (rule Nd.IH(1)[OF l d(1)])
    fix x assume x: "x \<in> set (nodes l)"
    with d have xa: "x \<noteq> a" by auto
    from x Nd.prems(3)[of x] xa p
    have e: "left_of s' x = left_of s x" "right_of s' x = right_of s x"
      "parent_of s' x = parent_of s x" by auto
    have "Some x = left_of s a \<Longrightarrow> parent_of s x = Some a"
      using l by (cases l) auto
    with e show "left_of s' x = left_of s x \<and> right_of s' x = right_of s x \<and>
      parent_of s' x = (if Some x = left_of s a then Some a else parent_of s x)" by auto
  qed
  moreover have "is_tree s' (Some a) (right_of s a) r"
  proof (rule Nd.IH(2)[OF r d(2)])
    fix x assume x: "x \<in> set (nodes r)"
    with d have xa: "x \<noteq> a" by auto
    from x Nd.prems(3)[of x] xa p
    have e: "left_of s' x = left_of s x" "right_of s' x = right_of s x"
      "parent_of s' x = parent_of s x" by auto
    have "Some x = right_of s a \<Longrightarrow> parent_of s x = Some a"
      using r by (cases r) auto
    with e show "left_of s' x = left_of s x \<and> right_of s' x = right_of s x \<and>
      parent_of s' x = (if Some x = right_of s a then Some a else parent_of s x)" by auto
  qed
  ultimately show ?case using a p by simp
qed

lemma is_ctx_cong:
  "(\<And>x. x \<in> set (ctx_pre fs @ ctx_post fs) \<Longrightarrow>
      left_of s' x = left_of s x \<and> right_of s' x = right_of s x \<and>
      parent_of s' x = parent_of s x)
   \<Longrightarrow> is_ctx s' rt fs p = is_ctx s rt fs p"
proof (induction fs arbitrary: p)
  case Nil
  then show ?case by simp
next
  case (Cons f fs)
  show ?case
  proof (cases f)
    case (InL a r)
    have "is_tree s' (Some a) (right_of s a) r = is_tree s (Some a) (right_of s a) r"
      by (rule is_tree_cong) (use Cons.prems InL in auto)
    moreover have "is_ctx s' rt fs (Some a) = is_ctx s rt fs (Some a)"
      by (rule Cons.IH) (use Cons.prems InL in auto)
    ultimately show ?thesis using Cons.prems[of a] InL by auto
  next
    case (InR l a)
    have "is_tree s' (Some a) (left_of s a) l = is_tree s (Some a) (left_of s a) l"
      by (rule is_tree_cong) (use Cons.prems InR in auto)
    moreover have "is_ctx s' rt fs (Some a) = is_ctx s rt fs (Some a)"
      by (rule Cons.IH) (use Cons.prems InR in auto)
    ultimately show ?thesis using Cons.prems[of a] InR by auto
  qed
qed

lemma is_tree_plug:
  "is_tree s None rt (plug fs t) = (is_ctx s rt fs (ptr t) \<and> is_tree s (ctx_par fs) (ptr t) t)"
proof (induction fs arbitrary: t)
  case Nil
  show ?case using is_tree_ptr[of s None rt t] by auto
next
  case (Cons f fs)
  show ?case
  proof (cases f)
    case (InL a r)
    show ?thesis using Cons.IH[of "Nd t a r"] is_tree_ptr[of s "Some a" "left_of s a" t] InL
      by auto
  next
    case (InR l a)
    show ?thesis using Cons.IH[of "Nd l a t"] is_tree_ptr[of s "Some a" "right_of s a" t] InR
      by auto
  qed
qed

lemma is_ctx_root:
  "is_ctx s rt fs p \<Longrightarrow> fs \<noteq> [] \<Longrightarrow> \<exists>a. rt = Some a \<and> a \<in> set (ctx_pre fs @ ctx_post fs)"
proof (induction fs arbitrary: p)
  case Nil
  then show ?case by simp
next
  case (Cons f fs)
  show ?case
  proof (cases "fs = []")
    case True
    with Cons.prems show ?thesis by (cases f) auto
  next
    case False
    with Cons show ?thesis by (cases f) fastforce+
  qed
qed

section \<open>Rotations inside a tree\<close>

lemma ptr_in_nodes': "Some a = ptr t \<Longrightarrow> a \<in> set (nodes t)"
  by (cases t) auto

lemma rotateLeft_ctx:
  assumes ctx: "is_ctx s rt fs (Some a)"
    and tr: "is_tree s (ctx_par fs) (Some a) (Nd l a (Nd rl b rr))"
    and dist: "distinct (nodes (plug fs (Nd l a (Nd rl b rr))))"
  shows "snd (rotateLeft a s) = Some b"
    and "is_ctx (fst (rotateLeft a s)) (if Some a = rt then Some b else rt) fs (Some b)"
    and "is_tree (fst (rotateLeft a s)) (ctx_par fs) (Some b) (Nd (Nd l a rl) b rr)"
    and "bf_of (fst (rotateLeft a s)) x =
           (if x = a then (if bf_of s b < 0 then bf_of s a + 1 - bf_of s b else bf_of s a + 1)
            else if x = b then
              (if (if bf_of s b < 0 then bf_of s a + 1 - bf_of s b else bf_of s a + 1) > 0
               then bf_of s b + 1 + (if bf_of s b < 0 then bf_of s a + 1 - bf_of s b else bf_of s a + 1)
               else bf_of s b + 1)
            else bf_of s x)"
    and "key_of (fst (rotateLeft a s)) x = key_of s x"
    and "val_of (fst (rotateLeft a s)) x = val_of s x"
proof -
  let ?s' = "fst (rotateLeft a s)"
  let ?C = "set (ctx_pre fs @ ctx_post fs)"
  from dist have d: "distinct (ctx_pre fs @ (nodes l @ a # nodes rl @ b # nodes rr) @ ctx_post fs)"
    by (simp add: nodes_plug)
  from tr have ra: "right_of s a = Some b" and pa: "parent_of s a = ctx_par fs"
    and lb: "left_of s b = ptr rl" and pb: "parent_of s b = Some a"
    and tl: "is_tree s (Some a) (left_of s a) l"
    and trl: "is_tree s (Some b) (left_of s b) rl"
    and trr: "is_tree s (Some b) (right_of s b) rr"
    using is_tree_ptr[of s "Some b" "left_of s b" rl] by auto
  from d have ab: "a \<noteq> b" by auto
  have la: "left_of s b \<noteq> Some a"
    using lb d ptr_in_nodes[of rl a] by auto
  have cpa: "\<And>x. ctx_par fs = Some x \<Longrightarrow> x \<in> ?C"
    using ctx_par_in_nodes by auto
  have paa: "parent_of s a \<noteq> Some a"
    using pa cpa[of a] d by auto
  note e = rotateLeft_effect [OF ra ab la paa]
  show "snd (rotateLeft a s) = Some b" by (rule e(1))
  show "bf_of ?s' x =
           (if x = a then (if bf_of s b < 0 then bf_of s a + 1 - bf_of s b else bf_of s a + 1)
            else if x = b then
              (if (if bf_of s b < 0 then bf_of s a + 1 - bf_of s b else bf_of s a + 1) > 0
               then bf_of s b + 1 + (if bf_of s b < 0 then bf_of s a + 1 - bf_of s b else bf_of s a + 1)
               else bf_of s b + 1)
            else bf_of s x)" by (rule e(5))
  show "key_of ?s' x = key_of s x" by (rule e(6))
  show "val_of ?s' x = val_of s x" by (rule e(7))
  \<comment> \<open>nodes below the rotated pair keep their links, except the parent link of the root of rl\<close>
  have sub: "\<And>x. x \<in> set (nodes l) \<union> set (nodes rl) \<union> set (nodes rr) \<Longrightarrow>
     left_of ?s' x = left_of s x \<and> right_of ?s' x = right_of s x \<and>
     parent_of ?s' x = (if Some x = ptr rl then Some a else parent_of s x)"
  proof -
    fix x assume x: "x \<in> set (nodes l) \<union> set (nodes rl) \<union> set (nodes rr)"
    with d have "x \<noteq> a" "x \<noteq> b" "x \<notin> ?C" by auto
    with cpa[of x] pa have "Some x \<noteq> parent_of s a" by auto
    with \<open>x \<noteq> a\<close> \<open>x \<noteq> b\<close> show "left_of ?s' x = left_of s x \<and> right_of ?s' x = right_of s x \<and>
     parent_of ?s' x = (if Some x = ptr rl then Some a else parent_of s x)"
      by (simp add: e lb)
  qed
  have notrl: "\<And>x. x \<in> set (nodes l) \<union> set (nodes rr) \<Longrightarrow> Some x \<noteq> ptr rl"
    using d by (auto dest: ptr_in_nodes')
  have tl': "is_tree ?s' (Some a) (left_of s a) l"
    using tl sub notrl by (subst is_tree_cong[of l ?s' s]) auto
  have trr': "is_tree ?s' (Some b) (right_of s b) rr"
    using trr sub notrl by (subst is_tree_cong[of rr ?s' s]) auto
  have trl': "is_tree ?s' (Some a) (ptr rl) rl"
  proof (rule is_tree_reparent[of s "Some b" "ptr rl" rl])
    show "is_tree s (Some b) (ptr rl) rl" using trl lb by simp
    show "distinct (nodes rl)" using d by auto
    fix x assume "x \<in> set (nodes rl)"
    then show "left_of ?s' x = left_of s x \<and> right_of ?s' x = right_of s x \<and>
      parent_of ?s' x = (if Some x = ptr rl then Some a else parent_of s x)"
      using sub by auto
  qed
  have a': "parent_of ?s' a = Some b" "left_of ?s' a = left_of s a" "right_of ?s' a = ptr rl"
    using ab paa by (simp_all add: e lb)
  have bpar: "Some b \<noteq> parent_of s a"
    using pa cpa[of b] d by auto
  have b': "parent_of ?s' b = ctx_par fs" "left_of ?s' b = Some a" "right_of ?s' b = right_of s b"
    using ab bpar by (simp_all add: e pa)
  show "is_tree ?s' (ctx_par fs) (Some b) (Nd (Nd l a rl) b rr)"
    using a' b' tl' trl' trr' by simp
  \<comment> \<open>the context\<close>
  have cn: "\<And>x. x \<in> ?C \<Longrightarrow> x \<noteq> a \<and> x \<noteq> b \<and> Some x \<noteq> ptr rl"
    using d by (auto dest: ptr_in_nodes')
  have cx: "\<And>x. x \<in> ?C \<Longrightarrow> Some x \<noteq> ctx_par fs \<Longrightarrow>
     left_of ?s' x = left_of s x \<and> right_of ?s' x = right_of s x \<and>
     parent_of ?s' x = parent_of s x"
    using cn by (simp add: e lb pa)
  show "is_ctx ?s' (if Some a = rt then Some b else rt) fs (Some b)"
  proof (cases fs)
    case Nil
    with ctx show ?thesis by simp
  next
    case (Cons f fs')
    from is_ctx_root[OF ctx] Cons cn have rt: "Some a \<noteq> rt" by auto
    show ?thesis
    proof (cases f)
      case (InL q sib)
      from d Cons InL have dq: "q \<notin> set (ctx_pre fs' @ ctx_post fs')" "q \<notin> set (nodes sib)"
        by auto
      from ctx Cons InL have c: "left_of s q = Some a" "parent_of s q = ctx_par fs'"
        "is_tree s (Some q) (right_of s q) sib" "is_ctx s rt fs' (Some q)" by auto
      have q: "q \<in> ?C" using Cons InL by simp
      have q': "left_of ?s' q = Some b" "right_of ?s' q = right_of s q"
        "parent_of ?s' q = parent_of s q"
        using cn[OF q] c(1) pa Cons InL by (simp_all add: e lb)
      have "is_tree ?s' (Some q) (right_of s q) sib"
        using c(3) dq by (subst is_tree_cong[of sib ?s' s]) (auto intro!: cx simp: Cons InL)
      moreover have "is_ctx ?s' rt fs' (Some q)"
        using c(4) dq by (subst is_ctx_cong[of fs' ?s' s]) (auto intro!: cx simp: Cons InL)
      ultimately show ?thesis using q' c rt Cons InL by simp
    next
      case (InR sib q)
      from d Cons InR have dq: "q \<notin> set (ctx_pre fs' @ ctx_post fs')" "q \<notin> set (nodes sib)"
        "a \<notin> set (nodes sib)"
        by auto
      from ctx Cons InR have c: "right_of s q = Some a" "parent_of s q = ctx_par fs'"
        "is_tree s (Some q) (left_of s q) sib" "is_ctx s rt fs' (Some q)" by auto
      have lq: "left_of s q \<noteq> Some a"
        using is_tree_ptr[OF c(3)] ptr_in_nodes[of sib a] dq by auto
      have q: "q \<in> ?C" using Cons InR by simp
      have q': "right_of ?s' q = Some b" "left_of ?s' q = left_of s q"
        "parent_of ?s' q = parent_of s q"
        using cn[OF q] lq pa Cons InR by (simp_all add: e lb)
      have "is_tree ?s' (Some q) (left_of s q) sib"
        using c(3) dq by (subst is_tree_cong[of sib ?s' s]) (auto intro!: cx simp: Cons InR)
      moreover have "is_ctx ?s' rt fs' (Some q)"
        using c(4) dq by (subst is_ctx_cong[of fs' ?s' s]) (auto intro!: cx simp: Cons InR)
      ultimately show ?thesis using q' c rt Cons InR by simp
    qed
  qed
qed

lemma rotateRight_ctx:
  assumes ctx: "is_ctx s rt fs (Some a)"
    and tr: "is_tree s (ctx_par fs) (Some a) (Nd (Nd ll b lr) a r)"
    and dist: "distinct (nodes (plug fs (Nd (Nd ll b lr) a r)))"
  shows "snd (rotateRight a s) = Some b"
    and "is_ctx (fst (rotateRight a s)) (if Some a = rt then Some b else rt) fs (Some b)"
    and "is_tree (fst (rotateRight a s)) (ctx_par fs) (Some b) (Nd ll b (Nd lr a r))"
    and "bf_of (fst (rotateRight a s)) x =
           (if x = a then (if bf_of s b > 0 then bf_of s a - 1 - bf_of s b else bf_of s a - 1)
            else if x = b then
              (if (if bf_of s b > 0 then bf_of s a - 1 - bf_of s b else bf_of s a - 1) < 0
               then bf_of s b - 1 + (if bf_of s b > 0 then bf_of s a - 1 - bf_of s b else bf_of s a - 1)
               else bf_of s b - 1)
            else bf_of s x)"
    and "key_of (fst (rotateRight a s)) x = key_of s x"
    and "val_of (fst (rotateRight a s)) x = val_of s x"
proof -
  let ?s' = "fst (rotateRight a s)"
  let ?C = "set (ctx_pre fs @ ctx_post fs)"
  from dist have d: "distinct (ctx_pre fs @ (nodes ll @ b # nodes lr @ a # nodes r) @ ctx_post fs)"
    by (simp add: nodes_plug)
  from tr have la: "left_of s a = Some b" and pa: "parent_of s a = ctx_par fs"
    and rb: "right_of s b = ptr lr" and pb: "parent_of s b = Some a"
    and tr': "is_tree s (Some a) (right_of s a) r"
    and tll: "is_tree s (Some b) (left_of s b) ll"
    and tlr: "is_tree s (Some b) (right_of s b) lr"
    using is_tree_ptr[of s "Some b" "right_of s b" lr] by auto
  from d have ab: "a \<noteq> b" by auto
  have ra: "right_of s b \<noteq> Some a"
    using rb d by (auto dest: ptr_in_nodes)
  have cpa: "\<And>x. ctx_par fs = Some x \<Longrightarrow> x \<in> ?C"
    using ctx_par_in_nodes by auto
  have paa: "parent_of s a \<noteq> Some a"
    using pa cpa[of a] d by auto
  note e = rotateRight_effect [OF la ab ra paa]
  show "snd (rotateRight a s) = Some b" by (rule e(1))
  show "bf_of ?s' x =
           (if x = a then (if bf_of s b > 0 then bf_of s a - 1 - bf_of s b else bf_of s a - 1)
            else if x = b then
              (if (if bf_of s b > 0 then bf_of s a - 1 - bf_of s b else bf_of s a - 1) < 0
               then bf_of s b - 1 + (if bf_of s b > 0 then bf_of s a - 1 - bf_of s b else bf_of s a - 1)
               else bf_of s b - 1)
            else bf_of s x)" by (rule e(5))
  show "key_of ?s' x = key_of s x" by (rule e(6))
  show "val_of ?s' x = val_of s x" by (rule e(7))
  have sub: "\<And>x. x \<in> set (nodes ll) \<union> set (nodes lr) \<union> set (nodes r) \<Longrightarrow>
     left_of ?s' x = left_of s x \<and> right_of ?s' x = right_of s x \<and>
     parent_of ?s' x = (if Some x = ptr lr then Some a else parent_of s x)"
  proof -
    fix x assume x: "x \<in> set (nodes ll) \<union> set (nodes lr) \<union> set (nodes r)"
    with d have "x \<noteq> a" "x \<noteq> b" "x \<notin> ?C" by auto
    with cpa[of x] pa have "Some x \<noteq> parent_of s a" by auto
    with \<open>x \<noteq> a\<close> \<open>x \<noteq> b\<close> show "left_of ?s' x = left_of s x \<and> right_of ?s' x = right_of s x \<and>
     parent_of ?s' x = (if Some x = ptr lr then Some a else parent_of s x)"
      by (simp add: e rb)
  qed
  have notlr: "\<And>x. x \<in> set (nodes ll) \<union> set (nodes r) \<Longrightarrow> Some x \<noteq> ptr lr"
    using d by (auto dest: ptr_in_nodes')
  have tr'': "is_tree ?s' (Some a) (right_of s a) r"
    using tr' sub notlr by (subst is_tree_cong[of r ?s' s]) auto
  have tll': "is_tree ?s' (Some b) (left_of s b) ll"
    using tll sub notlr by (subst is_tree_cong[of ll ?s' s]) auto
  have tlr': "is_tree ?s' (Some a) (ptr lr) lr"
  proof (rule is_tree_reparent[of s "Some b" "ptr lr" lr])
    show "is_tree s (Some b) (ptr lr) lr" using tlr rb by simp
    show "distinct (nodes lr)" using d by auto
    fix x assume "x \<in> set (nodes lr)"
    then show "left_of ?s' x = left_of s x \<and> right_of ?s' x = right_of s x \<and>
      parent_of ?s' x = (if Some x = ptr lr then Some a else parent_of s x)"
      using sub by auto
  qed
  have a': "parent_of ?s' a = Some b" "right_of ?s' a = right_of s a" "left_of ?s' a = ptr lr"
    using ab paa by (simp_all add: e rb)
  have bpar: "Some b \<noteq> parent_of s a"
    using pa cpa[of b] d by auto
  have b': "parent_of ?s' b = ctx_par fs" "right_of ?s' b = Some a" "left_of ?s' b = left_of s b"
    using ab bpar by (simp_all add: e pa)
  show "is_tree ?s' (ctx_par fs) (Some b) (Nd ll b (Nd lr a r))"
    using a' b' tr'' tlr' tll' by simp
  have cn: "\<And>x. x \<in> ?C \<Longrightarrow> x \<noteq> a \<and> x \<noteq> b \<and> Some x \<noteq> ptr lr"
    using d by (auto dest: ptr_in_nodes')
  have cx: "\<And>x. x \<in> ?C \<Longrightarrow> Some x \<noteq> ctx_par fs \<Longrightarrow>
     left_of ?s' x = left_of s x \<and> right_of ?s' x = right_of s x \<and>
     parent_of ?s' x = parent_of s x"
    using cn by (simp add: e rb pa)
  show "is_ctx ?s' (if Some a = rt then Some b else rt) fs (Some b)"
  proof (cases fs)
    case Nil
    with ctx show ?thesis by simp
  next
    case (Cons f fs')
    from is_ctx_root[OF ctx] Cons cn have rt: "Some a \<noteq> rt" by auto
    show ?thesis
    proof (cases f)
      case (InL q sib)
      from d Cons InL have dq: "q \<notin> set (ctx_pre fs' @ ctx_post fs')" "q \<notin> set (nodes sib)"
        by auto
      from ctx Cons InL have c: "left_of s q = Some a" "parent_of s q = ctx_par fs'"
        "is_tree s (Some q) (right_of s q) sib" "is_ctx s rt fs' (Some q)" by auto
      have q: "q \<in> ?C" using Cons InL by simp
      have q': "left_of ?s' q = Some b" "right_of ?s' q = right_of s q"
        "parent_of ?s' q = parent_of s q"
        using cn[OF q] c(1) pa Cons InL by (simp_all add: e rb)
      have "is_tree ?s' (Some q) (right_of s q) sib"
        using c(3) dq by (subst is_tree_cong[of sib ?s' s]) (auto intro!: cx simp: Cons InL)
      moreover have "is_ctx ?s' rt fs' (Some q)"
        using c(4) dq by (subst is_ctx_cong[of fs' ?s' s]) (auto intro!: cx simp: Cons InL)
      ultimately show ?thesis using q' c rt Cons InL by simp
    next
      case (InR sib q)
      from d Cons InR have dq: "q \<notin> set (ctx_pre fs' @ ctx_post fs')" "q \<notin> set (nodes sib)"
        "a \<notin> set (nodes sib)"
        by auto
      from ctx Cons InR have c: "right_of s q = Some a" "parent_of s q = ctx_par fs'"
        "is_tree s (Some q) (left_of s q) sib" "is_ctx s rt fs' (Some q)" by auto
      have lq: "left_of s q \<noteq> Some a"
        using is_tree_ptr[OF c(3)] ptr_in_nodes[of sib a] dq by auto
      have q: "q \<in> ?C" using Cons InR by simp
      have q': "right_of ?s' q = Some b" "left_of ?s' q = left_of s q"
        "parent_of ?s' q = parent_of s q"
        using cn[OF q] lq pa Cons InR by (simp_all add: e rb)
      have "is_tree ?s' (Some q) (left_of s q) sib"
        using c(3) dq by (subst is_tree_cong[of sib ?s' s]) (auto intro!: cx simp: Cons InR)
      moreover have "is_ctx ?s' rt fs' (Some q)"
        using c(4) dq by (subst is_ctx_cong[of fs' ?s' s]) (auto intro!: cx simp: Cons InR)
      ultimately show ?thesis using q' c rt Cons InR by simp
    qed
  qed
qed

lemma rotL_arith:
  fixes ba bb hl hrl hrr :: int
  assumes "ba = hl - (1 + max hrl hrr)" "bb = hrl - hrr"
  shows "(if bb < 0 then ba + 1 - bb else ba + 1) = hl - hrl"
    and "(if (if bb < 0 then ba + 1 - bb else ba + 1) > 0
          then bb + 1 + (if bb < 0 then ba + 1 - bb else ba + 1) else bb + 1)
         = 1 + max hl hrl - hrr"
  using assms by (auto simp: max_def)

lemma rotR_arith:
  fixes ba bb hll hlr hr :: int
  assumes "ba = 1 + max hll hlr - hr" "bb = hll - hlr"
  shows "(if bb > 0 then ba - 1 - bb else ba - 1) = hlr - hr"
    and "(if (if bb > 0 then ba - 1 - bb else ba - 1) < 0
          then bb - 1 + (if bb > 0 then ba - 1 - bb else ba - 1) else bb - 1)
         = hll - (1 + max hlr hr)"
  using assms by (auto simp: max_def)

lemma rebalance_right_heavy_single:
  assumes ctx: "is_ctx s rt fs (Some a)"
    and tr: "is_tree s (ctx_par fs) (Some a) (Nd l a (Nd rl b rr))"
    and dist: "distinct (nodes (plug fs (Nd l a (Nd rl b rr))))"
    and nb: "bf_of s b \<noteq> 1"
    and ha: "bf_of s a = hl - (1 + max hrl hrr)" and hb: "bf_of s b = hrl - hrr"
  shows "\<exists>s' rt'. rebalance_right_heavy a s rt = (s', rt', Some b) \<and>
     is_ctx s' rt' fs (Some b) \<and>
     is_tree s' (ctx_par fs) (Some b) (Nd (Nd l a rl) b rr) \<and>
     bf_of s' a = hl - hrl \<and> bf_of s' b = 1 + max hl hrl - hrr \<and>
     (\<forall>x. x \<noteq> a \<and> x \<noteq> b \<longrightarrow> bf_of s' x = bf_of s x) \<and>
     (\<forall>x. key_of s' x = key_of s x \<and> val_of s' x = val_of s x)"
proof -
  note r = rotateLeft_ctx [OF ctx tr dist]
  from dist have ab: "a \<noteq> b" by (simp add: nodes_plug)
  from tr have ra: "right_of s a = Some b" by simp
  have reb: "rebalance_right_heavy a s rt =
      (fst (rotateLeft a s), if Some a = rt then Some b else rt, Some b)"
    using ra nb r(1) by (simp add: rebalance_right_heavy_def Let_def split_beta)
  show ?thesis
    unfolding reb
    using r(2) r(3) ab rotL_arith [OF ha hb]
    by (simp add: r(4) r(5) r(6))
qed

lemma rebalance_left_heavy_single:
  assumes ctx: "is_ctx s rt fs (Some a)"
    and tr: "is_tree s (ctx_par fs) (Some a) (Nd (Nd ll b lr) a r)"
    and dist: "distinct (nodes (plug fs (Nd (Nd ll b lr) a r)))"
    and nb: "bf_of s b \<noteq> - 1"
    and ha: "bf_of s a = 1 + max hll hlr - hr" and hb: "bf_of s b = hll - hlr"
  shows "\<exists>s' rt'. rebalance_left_heavy a s rt = (s', rt', Some b) \<and>
     is_ctx s' rt' fs (Some b) \<and>
     is_tree s' (ctx_par fs) (Some b) (Nd ll b (Nd lr a r)) \<and>
     bf_of s' a = hlr - hr \<and> bf_of s' b = hll - (1 + max hlr hr) \<and>
     (\<forall>x. x \<noteq> a \<and> x \<noteq> b \<longrightarrow> bf_of s' x = bf_of s x) \<and>
     (\<forall>x. key_of s' x = key_of s x \<and> val_of s' x = val_of s x)"
proof -
  note r = rotateRight_ctx [OF ctx tr dist]
  from dist have ab: "a \<noteq> b" by (simp add: nodes_plug)
  from tr have la: "left_of s a = Some b" by simp
  have reb: "rebalance_left_heavy a s rt =
      (fst (rotateRight a s), if Some a = rt then Some b else rt, Some b)"
    using la nb r(1) by (simp add: rebalance_left_heavy_def Let_def split_beta)
  show ?thesis
    unfolding reb
    using r(2) r(3) ab rotR_arith [OF ha hb]
    by (simp add: r(4) r(5) r(6))
qed

lemma rebalance_right_heavy_double:
  assumes ctx: "is_ctx s rt fs (Some a)"
    and tr: "is_tree s (ctx_par fs) (Some a) (Nd l a (Nd (Nd rll c rlr) b rr))"
    and dist: "distinct (nodes (plug fs (Nd l a (Nd (Nd rll c rlr) b rr))))"
    and b1: "bf_of s b = 1"
    and ha: "bf_of s a = hl - (1 + max (1 + max hrll hrlr) hrr)"
    and hb: "bf_of s b = 1 + max hrll hrlr - hrr"
    and hc: "bf_of s c = hrll - hrlr"
  shows "\<exists>s' rt'. rebalance_right_heavy a s rt = (s', rt', Some c) \<and>
     is_ctx s' rt' fs (Some c) \<and>
     is_tree s' (ctx_par fs) (Some c) (Nd (Nd l a rll) c (Nd rlr b rr)) \<and>
     bf_of s' a = hl - hrll \<and> bf_of s' b = hrlr - hrr \<and>
     bf_of s' c = 1 + max hl hrll - (1 + max hrlr hrr) \<and>
     (\<forall>x. x \<noteq> a \<and> x \<noteq> b \<and> x \<noteq> c \<longrightarrow> bf_of s' x = bf_of s x) \<and>
     (\<forall>x. key_of s' x = key_of s x \<and> val_of s' x = val_of s x)"
proof -
  let ?fs1 = "InR l a # fs"
  let ?s1 = "fst (rotateRight b s)"
  from dist have d: "distinct (ctx_pre fs @ (nodes l @ a # (nodes rll @ c # nodes rlr) @ b # nodes rr) @ ctx_post fs)"
    by (simp add: nodes_plug)
  then have ne: "a \<noteq> b" "a \<noteq> c" "b \<noteq> c" by auto
  from tr have ra: "right_of s a = Some b" by simp
  have ctx1: "is_ctx s rt ?fs1 (Some b)" using tr ctx by simp
  have tr1: "is_tree s (ctx_par ?fs1) (Some b) (Nd (Nd rll c rlr) b rr)" using tr by simp
  have dist1: "distinct (nodes (plug ?fs1 (Nd (Nd rll c rlr) b rr)))" using dist by simp
  note r1 = rotateRight_ctx [OF ctx1 tr1 dist1]
  from is_ctx_root [OF ctx1] d have rtb: "Some b \<noteq> rt" by auto
  from r1(2) rtb have c1: "is_ctx ?s1 rt ?fs1 (Some c)" by simp
  then have ctx2: "is_ctx ?s1 rt fs (Some a)" by simp
  from c1 r1(3) have tr2: "is_tree ?s1 (ctx_par fs) (Some a) (Nd l a (Nd rll c (Nd rlr b rr)))"
    by simp
  have dist2: "distinct (nodes (plug fs (Nd l a (Nd rll c (Nd rlr b rr)))))"
    using d by (simp add: nodes_plug)
  note r2 = rotateLeft_ctx [OF ctx2 tr2 dist2]
  have reb: "rebalance_right_heavy a s rt =
      (fst (rotateLeft a ?s1), if Some a = rt then Some c else rt, Some c)"
    using ra b1 r2(1) by (simp add: rebalance_right_heavy_def Let_def split_beta)
  have bf1: "bf_of ?s1 b = hrlr - hrr" "bf_of ?s1 c = hrll - (1 + max hrlr hrr)"
    "bf_of ?s1 a = bf_of s a"
    using rotR_arith [OF hb hc] ne by (simp_all add: r1(4))
  have ha1: "bf_of ?s1 a = hl - (1 + max hrll (1 + max hrlr hrr))"
    using bf1(3) ha hb b1 by (auto simp: max_def)
  have hc1: "bf_of ?s1 c = hrll - (1 + max hrlr hrr)" by (rule bf1(2))
  have bf2: "bf_of (fst (rotateLeft a ?s1)) a = hl - hrll"
    "bf_of (fst (rotateLeft a ?s1)) c = 1 + max hl hrll - (1 + max hrlr hrr)"
    using rotL_arith [OF ha1 hc1] ne by (simp_all add: r2(4))
  have bf2b: "bf_of (fst (rotateLeft a ?s1)) b = hrlr - hrr"
    using ne bf1(1) by (simp add: r2(4))
  have oth: "\<forall>x. x \<noteq> a \<and> x \<noteq> b \<and> x \<noteq> c \<longrightarrow> bf_of (fst (rotateLeft a ?s1)) x = bf_of s x"
    by (simp add: r2(4) r1(4))
  show ?thesis
    unfolding reb
    using r2(2) r2(3) bf2 bf2b oth
    by (simp add: r2(5) r2(6) r1(5) r1(6))
qed

lemma rebalance_left_heavy_double:
  assumes ctx: "is_ctx s rt fs (Some a)"
    and tr: "is_tree s (ctx_par fs) (Some a) (Nd (Nd ll b (Nd lrl c lrr)) a r)"
    and dist: "distinct (nodes (plug fs (Nd (Nd ll b (Nd lrl c lrr)) a r)))"
    and b1: "bf_of s b = - 1"
    and ha: "bf_of s a = 1 + max hll (1 + max hlrl hlrr) - hr"
    and hb: "bf_of s b = hll - (1 + max hlrl hlrr)"
    and hc: "bf_of s c = hlrl - hlrr"
  shows "\<exists>s' rt'. rebalance_left_heavy a s rt = (s', rt', Some c) \<and>
     is_ctx s' rt' fs (Some c) \<and>
     is_tree s' (ctx_par fs) (Some c) (Nd (Nd ll b lrl) c (Nd lrr a r)) \<and>
     bf_of s' a = hlrr - hr \<and> bf_of s' b = hll - hlrl \<and>
     bf_of s' c = 1 + max hll hlrl - (1 + max hlrr hr) \<and>
     (\<forall>x. x \<noteq> a \<and> x \<noteq> b \<and> x \<noteq> c \<longrightarrow> bf_of s' x = bf_of s x) \<and>
     (\<forall>x. key_of s' x = key_of s x \<and> val_of s' x = val_of s x)"
proof -
  let ?fs1 = "InL a r # fs"
  let ?s1 = "fst (rotateLeft b s)"
  from dist have d: "distinct (ctx_pre fs @ ((nodes ll @ b # nodes lrl @ c # nodes lrr) @ a # nodes r) @ ctx_post fs)"
    by (simp add: nodes_plug)
  then have ne: "a \<noteq> b" "a \<noteq> c" "b \<noteq> c" by auto
  from tr have la: "left_of s a = Some b" by simp
  have ctx1: "is_ctx s rt ?fs1 (Some b)" using tr ctx by simp
  have tr1: "is_tree s (ctx_par ?fs1) (Some b) (Nd ll b (Nd lrl c lrr))" using tr by simp
  have dist1: "distinct (nodes (plug ?fs1 (Nd ll b (Nd lrl c lrr))))" using dist by simp
  note r1 = rotateLeft_ctx [OF ctx1 tr1 dist1]
  from is_ctx_root [OF ctx1] d have rtb: "Some b \<noteq> rt" by auto
  from r1(2) rtb have c1: "is_ctx ?s1 rt ?fs1 (Some c)" by simp
  then have ctx2: "is_ctx ?s1 rt fs (Some a)" by simp
  from c1 r1(3) have tr2: "is_tree ?s1 (ctx_par fs) (Some a) (Nd (Nd (Nd ll b lrl) c lrr) a r)"
    by simp
  have dist2: "distinct (nodes (plug fs (Nd (Nd (Nd ll b lrl) c lrr) a r)))"
    using d by (simp add: nodes_plug)
  note r2 = rotateRight_ctx [OF ctx2 tr2 dist2]
  have reb: "rebalance_left_heavy a s rt =
      (fst (rotateRight a ?s1), if Some a = rt then Some c else rt, Some c)"
    using la b1 r2(1) by (simp add: rebalance_left_heavy_def Let_def split_beta)
  have bf1: "bf_of ?s1 b = hll - hlrl" "bf_of ?s1 c = 1 + max hll hlrl - hlrr"
    "bf_of ?s1 a = bf_of s a"
    using rotL_arith [OF hb hc] ne by (simp_all add: r1(4))
  have ha1: "bf_of ?s1 a = 1 + max (1 + max hll hlrl) hlrr - hr"
    using bf1(3) ha hb b1 by (auto simp: max_def)
  have hc1: "bf_of ?s1 c = 1 + max hll hlrl - hlrr" by (rule bf1(2))
  have bf2: "bf_of (fst (rotateRight a ?s1)) a = hlrr - hr"
    "bf_of (fst (rotateRight a ?s1)) c = 1 + max hll hlrl - (1 + max hlrr hr)"
    using rotR_arith [OF ha1 hc1] ne by (simp_all add: r2(4))
  have bf2b: "bf_of (fst (rotateRight a ?s1)) b = hll - hlrl"
    using ne bf1(1) by (simp add: r2(4))
  have oth: "\<forall>x. x \<noteq> a \<and> x \<noteq> b \<and> x \<noteq> c \<longrightarrow> bf_of (fst (rotateRight a ?s1)) x = bf_of s x"
    by (simp add: r2(4) r1(4))
  show ?thesis
    unfolding reb
    using r2(2) r2(3) bf2 bf2b oth
    by (simp add: r2(5) r2(6) r1(5) r1(6))
qed

section \<open>The walk back up after an insertion\<close>

lemma bf_ok_cong:
  "(\<And>x. x \<in> set (nodes t) \<Longrightarrow> bf_of s' x = bf_of s x) \<Longrightarrow> bf_ok s' t = bf_ok s t"
  by (induction t) auto

lemma ctx_ok_cong:
  "(\<And>x. x \<in> set (ctx_pre fs @ ctx_post fs) \<Longrightarrow> bf_of s' x = bf_of s x)
   \<Longrightarrow> ctx_ok s' fs n = ctx_ok s fs n"
proof (induction fs arbitrary: n)
  case Nil
  then show ?case by simp
next
  case (Cons f fs)
  show ?case
  proof (cases f)
    case (InL a r)
    have "bf_ok s' r = bf_ok s r" by (rule bf_ok_cong) (use Cons.prems InL in auto)
    moreover have "\<And>m. ctx_ok s' fs m = ctx_ok s fs m"
      by (rule Cons.IH) (use Cons.prems InL in auto)
    ultimately show ?thesis using Cons.prems[of a] InL by auto
  next
    case (InR l a)
    have "bf_ok s' l = bf_ok s l" by (rule bf_ok_cong) (use Cons.prems InR in auto)
    moreover have "\<And>m. ctx_ok s' fs m = ctx_ok s fs m"
      by (rule Cons.IH) (use Cons.prems InR in auto)
    ultimately show ?thesis using Cons.prems[of a] InR by auto
  qed
qed

lemma bf_ok_plug:
  "(bf_ok s (plug fs t) \<and> avl (plug fs t)) = (ctx_ok s fs (hgt t) \<and> bf_ok s t \<and> avl t)"
proof (induction fs arbitrary: t)
  case Nil
  show ?case by simp
next
  case (Cons f fs)
  show ?case
  proof (cases f)
    case (InL a r)
    show ?thesis using Cons.IH[of "Nd t a r"] InL by auto
  next
    case (InR l a)
    show ?thesis using Cons.IH[of "Nd l a t"] InR by auto
  qed
qed

lemma retrace_path_cong:
  assumes "\<And>x. key_of s' x = key_of s x"
  shows "retrace_path c s' k fs = retrace_path c s k fs"
proof (induction fs)
  case Nil
  show ?case by simp
next
  case (Cons f fs)
  then show ?case using assms by (cases f) auto
qed

lemma is_tree_set_bf [simp]: "is_tree (set_bf a v s) par p t = is_tree s par p t"
  by (rule is_tree_cong) simp

lemma is_ctx_set_bf [simp]: "is_ctx (set_bf a v s) rt fs p = is_ctx s rt fs p"
  by (rule is_ctx_cong) simp

text \<open>The end of a walk: the rebuilt subtree sits in an unchanged context.\<close>

lemma finish_plug:
  assumes "is_ctx s' rt' fs (ptr S')" "is_tree s' (ctx_par fs) (ptr S') S'"
    and "bf_ok s' S'" "avl S'" "ctx_ok s fs (hgt S')"
    and "\<And>x. x \<in> set (ctx_pre fs @ ctx_post fs) \<Longrightarrow> bf_of s' x = bf_of s x"
  shows "is_tree s' None rt' (plug fs S') \<and> bf_ok s' (plug fs S') \<and> avl (plug fs S')"
proof -
  have "ctx_ok s' fs (hgt S') = ctx_ok s fs (hgt S')"
    by (rule ctx_ok_cong) (use assms(6) in auto)
  with assms show ?thesis by (simp add: is_tree_plug bf_ok_plug)
qed

lemma set_retrace_step_L:
  assumes np: "\<not> c (key_of s a) k < 0"
    and ctx: "is_ctx s rt fs (Some a)"
    and tr: "is_tree s (ctx_par fs) (Some a) (Nd t a r)"
    and dist: "distinct (nodes (plug fs (Nd t a r)))"
    and bft: "bf_ok s t" "avl t" and bfr: "bf_ok s r" "avl r"
    and bfa: "bf_of s a = hgt t - 1 - hgt r" "\<bar>hgt t - 1 - hgt r\<bar> \<le> 1"
    and cok: "ctx_ok s fs (1 + max (hgt t - 1) (hgt r))"
    and gr: "grown t"
  shows "(\<exists>s' rt' S'. set_retrace c k (Some a) s rt = Some (s', rt') \<and>
            is_tree s' None rt' (plug fs S') \<and> bf_ok s' (plug fs S') \<and> avl (plug fs S') \<and>
            nodes S' = nodes (Nd t a r) \<and>
            (\<forall>x. key_of s' x = key_of s x \<and> val_of s' x = val_of s x))
       \<or> (\<exists>s1. set_retrace c k (Some a) s rt = set_retrace c k (ctx_par fs) s1 rt \<and>
            is_ctx s1 rt fs (Some a) \<and> is_tree s1 (ctx_par fs) (Some a) (Nd t a r) \<and>
            bf_ok s1 (Nd t a r) \<and> avl (Nd t a r) \<and> ctx_ok s1 fs (hgt (Nd t a r) - 1) \<and>
            grown (Nd t a r) \<and>
            (\<forall>x. key_of s1 x = key_of s x \<and> val_of s1 x = val_of s x))"
proof -
  define s1 where "s1 = set_bf a (bf_of s a + 1) s"
  from dist have d: "distinct (ctx_pre fs @ (nodes t @ a # nodes r) @ ctx_post fs)"
    by (simp add: nodes_plug)
  have b1: "bf_of s1 a = hgt t - hgt r" using bfa by (simp add: s1_def)
  have oth: "\<And>x. x \<noteq> a \<Longrightarrow> bf_of s1 x = bf_of s x" by (simp add: s1_def)
  have kv: "\<And>x. key_of s1 x = key_of s x \<and> val_of s1 x = val_of s x" by (simp add: s1_def)
  have ctx1: "is_ctx s1 rt fs (Some a)" using ctx by (simp add: s1_def)
  have tr1: "is_tree s1 (ctx_par fs) (Some a) (Nd t a r)" using tr by (simp add: s1_def)
  have bft1: "bf_ok s1 t" using bft(1) d by (subst bf_ok_cong[of t s1 s]) (auto intro!: oth)
  have bfr1: "bf_ok s1 r" using bfr(1) d by (subst bf_ok_cong[of r s1 s]) (auto intro!: oth)
  have cok1: "\<And>n. ctx_ok s1 fs n = ctx_ok s fs n"
    using d by (intro ctx_ok_cong) (auto intro!: oth)
  have pa1: "parent_of s1 a = ctx_par fs" using tr1 by simp
  have unf: "set_retrace c k (Some a) s rt =
     (if bf_of s1 a = 0 then Some (s1, rt)
      else if bf_of s1 a < - 1 then
        Some (fst (rebalance_right_heavy a s1 rt), fst (snd (rebalance_right_heavy a s1 rt)))
      else if bf_of s1 a > 1 then
        Some (fst (rebalance_left_heavy a s1 rt), fst (snd (rebalance_left_heavy a s1 rt)))
      else set_retrace c k (parent_of s1 a) s1 rt)"
    using np by (subst set_retrace.simps) (simp add: s1_def Let_def)
  from bfa(2) have range: "hgt t = hgt r \<or> hgt t = hgt r + 1 \<or> hgt t = hgt r + 2" by auto
  then consider (eq) "hgt t = hgt r" | (one) "hgt t = hgt r + 1" | (two) "hgt t = hgt r + 2"
    by auto
  then show ?thesis
  proof cases
    case eq
    have r: "set_retrace c k (Some a) s rt = Some (s1, rt)" using unf b1 eq by simp
    have "1 + max (hgt t - 1) (hgt r) = hgt (Nd t a r)" using eq by (simp add: max_def)
    with cok have co: "ctx_ok s fs (hgt (Nd t a r))" by simp
    have "is_tree s1 None rt (plug fs (Nd t a r)) \<and> bf_ok s1 (plug fs (Nd t a r)) \<and>
          avl (plug fs (Nd t a r))"
    proof (rule finish_plug[where s = s])
      show "is_ctx s1 rt fs (ptr (Nd t a r))" using ctx1 by simp
      show "is_tree s1 (ctx_par fs) (ptr (Nd t a r)) (Nd t a r)" using tr1 by simp
      show "bf_ok s1 (Nd t a r)" using b1 bft1 bfr1 by simp
      show "avl (Nd t a r)" using bft(2) bfr(2) eq by simp
      show "ctx_ok s fs (hgt (Nd t a r))" by (rule co)
      fix x assume "x \<in> set (ctx_pre fs @ ctx_post fs)"
      with d have "x \<noteq> a" by auto
      then show "bf_of s1 x = bf_of s x" by (rule oth)
    qed
    with r kv show ?thesis by (intro disjI1 exI[of _ s1] exI[of _ rt] exI[of _ "Nd t a r"]) simp
  next
    case one
    have r: "set_retrace c k (Some a) s rt = set_retrace c k (ctx_par fs) s1 rt"
      using unf b1 one pa1 by simp
    have "1 + max (hgt t - 1) (hgt r) = hgt (Nd t a r) - 1" using one by (simp add: max_def)
    with cok have "ctx_ok s1 fs (hgt (Nd t a r) - 1)" by (simp add: cok1)
    moreover have "bf_ok s1 (Nd t a r)" using b1 bft1 bfr1 by simp
    moreover have "avl (Nd t a r)" using bft(2) bfr(2) one by simp
    moreover have "grown (Nd t a r)" using one by simp
    ultimately show ?thesis using r ctx1 tr1 kv by (intro disjI2 exI[of _ s1]) simp
  next
    case two
    have r: "set_retrace c k (Some a) s rt =
        Some (fst (rebalance_left_heavy a s1 rt), fst (snd (rebalance_left_heavy a s1 rt)))"
      using unf b1 two by simp
    from two have "hgt t \<ge> 2" using hgt_nonneg[of r] by linarith
    with gr obtain tl b tr' where t: "t = Nd tl b tr'" and ne: "hgt tl \<noteq> hgt tr'"
      by (cases t) auto
    from bft1 t have bb: "bf_of s1 b = hgt tl - hgt tr'" and bftl: "bf_ok s1 tl"
      and bftr: "bf_ok s1 tr'" by auto
    from bft(2) t have av: "\<bar>hgt tl - hgt tr'\<bar> \<le> 1" "avl tl" "avl tr'" by auto
    have "1 + max (hgt t - 1) (hgt r) = hgt t" using two by (simp add: max_def)
    with cok have co: "ctx_ok s fs (hgt t)" by simp
    from d t have dd: "distinct (ctx_pre fs @ ((nodes tl @ b # nodes tr') @ a # nodes r) @ ctx_post fs)"
      by simp
    show ?thesis
    proof (cases "bf_of s1 b = - 1")
      case False
      with bb ne av have h1: "hgt tl = hgt tr' + 1" by auto
      have ha: "bf_of s1 a = 1 + max (hgt tl) (hgt tr') - hgt r" using b1 t by simp
      from rebalance_left_heavy_single [OF ctx1 tr1[unfolded t] dist[unfolded t] False ha bb]
      obtain s' rt' where reb: "rebalance_left_heavy a s1 rt = (s', rt', Some b)"
        and c': "is_ctx s' rt' fs (Some b)"
        and t': "is_tree s' (ctx_par fs) (Some b) (Nd tl b (Nd tr' a r))"
        and ba': "bf_of s' a = hgt tr' - hgt r"
        and bb': "bf_of s' b = hgt tl - (1 + max (hgt tr') (hgt r))"
        and o': "\<forall>x. x \<noteq> a \<and> x \<noteq> b \<longrightarrow> bf_of s' x = bf_of s1 x"
        and kv': "\<forall>x. key_of s' x = key_of s1 x \<and> val_of s' x = val_of s1 x"
        by blast
      let ?S = "Nd tl b (Nd tr' a r)"
      have hS: "hgt ?S = hgt t" using h1 two t by (simp add: max_def)
      have "is_tree s' None rt' (plug fs ?S) \<and> bf_ok s' (plug fs ?S) \<and> avl (plug fs ?S)"
      proof (rule finish_plug[where s = s])
        show "is_ctx s' rt' fs (ptr ?S)" using c' by simp
        show "is_tree s' (ctx_par fs) (ptr ?S) ?S" using t' by simp
        have "bf_ok s' tl" using bftl dd o' by (subst bf_ok_cong[of tl s' s1]) auto
        moreover have "bf_ok s' tr'" using bftr dd o' by (subst bf_ok_cong[of tr' s' s1]) auto
        moreover have "bf_ok s' r" using bfr1 dd o' by (subst bf_ok_cong[of r s' s1]) auto
        ultimately show "bf_ok s' ?S" using ba' bb' by simp
        show "avl ?S" using av bfr(2) h1 two t by (simp add: max_def)
        show "ctx_ok s fs (hgt ?S)" using co hS by simp
        fix x assume "x \<in> set (ctx_pre fs @ ctx_post fs)"
        with dd have "x \<noteq> a" "x \<noteq> b" by auto
        then show "bf_of s' x = bf_of s x" using o' oth by simp
      qed
      moreover have "nodes ?S = nodes (Nd t a r)" using t by simp
      ultimately show ?thesis using r reb kv kv'
        by (intro disjI1 exI[of _ s'] exI[of _ rt'] exI[of _ ?S]) simp
    next
      case True
      with bb have h1: "hgt tr' = hgt tl + 1" by simp
      then have "hgt tr' \<ge> 1" using hgt_nonneg[of tl] by linarith
      then obtain trl cc trr where tr': "tr' = Nd trl cc trr" by (cases tr') auto
      from bftr tr' have bc: "bf_of s1 cc = hgt trl - hgt trr" and bftrl: "bf_ok s1 trl"
        and bftrr: "bf_ok s1 trr" by auto
      from av(3) tr' have av2: "\<bar>hgt trl - hgt trr\<bar> \<le> 1" "avl trl" "avl trr" by auto
      have ha: "bf_of s1 a = 1 + max (hgt tl) (1 + max (hgt trl) (hgt trr)) - hgt r"
        using b1 t tr' by simp
      have hb: "bf_of s1 b = hgt tl - (1 + max (hgt trl) (hgt trr))" using bb tr' by simp
      from rebalance_left_heavy_double [OF ctx1 tr1[unfolded t tr'] dist[unfolded t tr'] True ha hb bc]
      obtain s' rt' where reb: "rebalance_left_heavy a s1 rt = (s', rt', Some cc)"
        and c': "is_ctx s' rt' fs (Some cc)"
        and t': "is_tree s' (ctx_par fs) (Some cc) (Nd (Nd tl b trl) cc (Nd trr a r))"
        and ba': "bf_of s' a = hgt trr - hgt r"
        and bb': "bf_of s' b = hgt tl - hgt trl"
        and bc': "bf_of s' cc = 1 + max (hgt tl) (hgt trl) - (1 + max (hgt trr) (hgt r))"
        and o': "\<forall>x. x \<noteq> a \<and> x \<noteq> b \<and> x \<noteq> cc \<longrightarrow> bf_of s' x = bf_of s1 x"
        and kv': "\<forall>x. key_of s' x = key_of s1 x \<and> val_of s' x = val_of s1 x"
        by blast
      let ?S = "Nd (Nd tl b trl) cc (Nd trr a r)"
      from dd tr' have ddd: "distinct (ctx_pre fs @
          ((nodes tl @ b # nodes trl @ cc # nodes trr) @ a # nodes r) @ ctx_post fs)"
        by simp
      have hts: "hgt tl = hgt r" "max (hgt trl) (hgt trr) = hgt r"
        using h1 two t tr' by (auto simp: max_def)
      have le: "hgt trl \<le> hgt r" "hgt trr \<le> hgt r"
        using hts(2) by (simp_all add: max_def split: if_splits)
      have hS: "hgt ?S = hgt t" using hts(1) le two by (simp add: max_def)
      have "is_tree s' None rt' (plug fs ?S) \<and> bf_ok s' (plug fs ?S) \<and> avl (plug fs ?S)"
      proof (rule finish_plug[where s = s])
        show "is_ctx s' rt' fs (ptr ?S)" using c' by simp
        show "is_tree s' (ctx_par fs) (ptr ?S) ?S" using t' by simp
        have "bf_ok s' tl" using bftl ddd o' by (subst bf_ok_cong[of tl s' s1]) auto
        moreover have "bf_ok s' trl" using bftrl ddd o' by (subst bf_ok_cong[of trl s' s1]) auto
        moreover have "bf_ok s' trr" using bftrr ddd o' by (subst bf_ok_cong[of trr s' s1]) auto
        moreover have "bf_ok s' r" using bfr1 ddd o' by (subst bf_ok_cong[of r s' s1]) auto
        ultimately show "bf_ok s' ?S" using ba' bb' bc' by simp
        show "avl ?S" using av(2) av2 bfr(2) hts le by (simp add: max_def split: if_splits)
        show "ctx_ok s fs (hgt ?S)" using co hS by simp
        fix x assume "x \<in> set (ctx_pre fs @ ctx_post fs)"
        with ddd have "x \<noteq> a" "x \<noteq> b" "x \<noteq> cc" by auto
        then show "bf_of s' x = bf_of s x" using o' oth by simp
      qed
      moreover have "nodes ?S = nodes (Nd t a r)" using t tr' by simp
      ultimately show ?thesis using r reb kv kv'
        by (intro disjI1 exI[of _ s'] exI[of _ rt'] exI[of _ ?S]) simp
    qed
  qed
qed

lemma set_retrace_step_R:
  assumes np: "c (key_of s a) k < 0"
    and ctx: "is_ctx s rt fs (Some a)"
    and tr: "is_tree s (ctx_par fs) (Some a) (Nd l a t)"
    and dist: "distinct (nodes (plug fs (Nd l a t)))"
    and bft: "bf_ok s t" "avl t" and bfl: "bf_ok s l" "avl l"
    and bfa: "bf_of s a = hgt l - (hgt t - 1)" "\<bar>hgt l - (hgt t - 1)\<bar> \<le> 1"
    and cok: "ctx_ok s fs (1 + max (hgt l) (hgt t - 1))"
    and gr: "grown t"
  shows "(\<exists>s' rt' S'. set_retrace c k (Some a) s rt = Some (s', rt') \<and>
            is_tree s' None rt' (plug fs S') \<and> bf_ok s' (plug fs S') \<and> avl (plug fs S') \<and>
            nodes S' = nodes (Nd l a t) \<and>
            (\<forall>x. key_of s' x = key_of s x \<and> val_of s' x = val_of s x))
       \<or> (\<exists>s1. set_retrace c k (Some a) s rt = set_retrace c k (ctx_par fs) s1 rt \<and>
            is_ctx s1 rt fs (Some a) \<and> is_tree s1 (ctx_par fs) (Some a) (Nd l a t) \<and>
            bf_ok s1 (Nd l a t) \<and> avl (Nd l a t) \<and> ctx_ok s1 fs (hgt (Nd l a t) - 1) \<and>
            grown (Nd l a t) \<and>
            (\<forall>x. key_of s1 x = key_of s x \<and> val_of s1 x = val_of s x))"
proof -
  define s1 where "s1 = set_bf a (bf_of s a - 1) s"
  from dist have d: "distinct (ctx_pre fs @ (nodes l @ a # nodes t) @ ctx_post fs)"
    by (simp add: nodes_plug)
  have b1: "bf_of s1 a = hgt l - hgt t" using bfa by (simp add: s1_def)
  have oth: "\<And>x. x \<noteq> a \<Longrightarrow> bf_of s1 x = bf_of s x" by (simp add: s1_def)
  have kv: "\<And>x. key_of s1 x = key_of s x \<and> val_of s1 x = val_of s x" by (simp add: s1_def)
  have ctx1: "is_ctx s1 rt fs (Some a)" using ctx by (simp add: s1_def)
  have tr1: "is_tree s1 (ctx_par fs) (Some a) (Nd l a t)" using tr by (simp add: s1_def)
  have bft1: "bf_ok s1 t" using bft(1) d by (subst bf_ok_cong[of t s1 s]) (auto intro!: oth)
  have bfl1: "bf_ok s1 l" using bfl(1) d by (subst bf_ok_cong[of l s1 s]) (auto intro!: oth)
  have cok1: "\<And>n. ctx_ok s1 fs n = ctx_ok s fs n"
    using d by (intro ctx_ok_cong) (auto intro!: oth)
  have pa1: "parent_of s1 a = ctx_par fs" using tr1 by simp
  have unf: "set_retrace c k (Some a) s rt =
     (if bf_of s1 a = 0 then Some (s1, rt)
      else if bf_of s1 a < - 1 then
        Some (fst (rebalance_right_heavy a s1 rt), fst (snd (rebalance_right_heavy a s1 rt)))
      else if bf_of s1 a > 1 then
        Some (fst (rebalance_left_heavy a s1 rt), fst (snd (rebalance_left_heavy a s1 rt)))
      else set_retrace c k (parent_of s1 a) s1 rt)"
    using np by (subst set_retrace.simps) (simp add: s1_def Let_def)
  from bfa(2) have range: "hgt t = hgt l \<or> hgt t = hgt l + 1 \<or> hgt t = hgt l + 2" by auto
  then consider (eq) "hgt t = hgt l" | (one) "hgt t = hgt l + 1" | (two) "hgt t = hgt l + 2"
    by auto
  then show ?thesis
  proof cases
    case eq
    have r: "set_retrace c k (Some a) s rt = Some (s1, rt)" using unf b1 eq by simp
    have "1 + max (hgt l) (hgt t - 1) = hgt (Nd l a t)" using eq by (simp add: max_def)
    with cok have co: "ctx_ok s fs (hgt (Nd l a t))" by simp
    have "is_tree s1 None rt (plug fs (Nd l a t)) \<and> bf_ok s1 (plug fs (Nd l a t)) \<and>
          avl (plug fs (Nd l a t))"
    proof (rule finish_plug[where s = s])
      show "is_ctx s1 rt fs (ptr (Nd l a t))" using ctx1 by simp
      show "is_tree s1 (ctx_par fs) (ptr (Nd l a t)) (Nd l a t)" using tr1 by simp
      show "bf_ok s1 (Nd l a t)" using b1 bft1 bfl1 by simp
      show "avl (Nd l a t)" using bft(2) bfl(2) eq by simp
      show "ctx_ok s fs (hgt (Nd l a t))" by (rule co)
      fix x assume "x \<in> set (ctx_pre fs @ ctx_post fs)"
      with d have "x \<noteq> a" by auto
      then show "bf_of s1 x = bf_of s x" by (rule oth)
    qed
    with r kv show ?thesis by (intro disjI1 exI[of _ s1] exI[of _ rt] exI[of _ "Nd l a t"]) simp
  next
    case one
    have r: "set_retrace c k (Some a) s rt = set_retrace c k (ctx_par fs) s1 rt"
      using unf b1 one pa1 by simp
    have "1 + max (hgt l) (hgt t - 1) = hgt (Nd l a t) - 1" using one by (simp add: max_def)
    with cok have "ctx_ok s1 fs (hgt (Nd l a t) - 1)" by (simp add: cok1)
    moreover have "bf_ok s1 (Nd l a t)" using b1 bft1 bfl1 by simp
    moreover have "avl (Nd l a t)" using bft(2) bfl(2) one by simp
    moreover have "grown (Nd l a t)" using one by simp
    ultimately show ?thesis using r ctx1 tr1 kv by (intro disjI2 exI[of _ s1]) simp
  next
    case two
    have r: "set_retrace c k (Some a) s rt =
        Some (fst (rebalance_right_heavy a s1 rt), fst (snd (rebalance_right_heavy a s1 rt)))"
      using unf b1 two by simp
    from two have "hgt t \<ge> 2" using hgt_nonneg[of l] by linarith
    with gr obtain tl b tr' where t: "t = Nd tl b tr'" and ne: "hgt tl \<noteq> hgt tr'"
      by (cases t) auto
    from bft1 t have bb: "bf_of s1 b = hgt tl - hgt tr'" and bftl: "bf_ok s1 tl"
      and bftr: "bf_ok s1 tr'" by auto
    from bft(2) t have av: "\<bar>hgt tl - hgt tr'\<bar> \<le> 1" "avl tl" "avl tr'" by auto
    have "1 + max (hgt l) (hgt t - 1) = hgt t" using two by (simp add: max_def)
    with cok have co: "ctx_ok s fs (hgt t)" by simp
    from d t have dd: "distinct (ctx_pre fs @ (nodes l @ a # nodes tl @ b # nodes tr') @ ctx_post fs)"
      by simp
    show ?thesis
    proof (cases "bf_of s1 b = 1")
      case False
      with bb ne av have h1: "hgt tr' = hgt tl + 1" by auto
      have ha: "bf_of s1 a = hgt l - (1 + max (hgt tl) (hgt tr'))" using b1 t by simp
      from rebalance_right_heavy_single [OF ctx1 tr1[unfolded t] dist[unfolded t] False ha bb]
      obtain s' rt' where reb: "rebalance_right_heavy a s1 rt = (s', rt', Some b)"
        and c': "is_ctx s' rt' fs (Some b)"
        and t': "is_tree s' (ctx_par fs) (Some b) (Nd (Nd l a tl) b tr')"
        and ba': "bf_of s' a = hgt l - hgt tl"
        and bb': "bf_of s' b = 1 + max (hgt l) (hgt tl) - hgt tr'"
        and o': "\<forall>x. x \<noteq> a \<and> x \<noteq> b \<longrightarrow> bf_of s' x = bf_of s1 x"
        and kv': "\<forall>x. key_of s' x = key_of s1 x \<and> val_of s' x = val_of s1 x"
        by blast
      let ?S = "Nd (Nd l a tl) b tr'"
      have hS: "hgt ?S = hgt t" using h1 two t by (simp add: max_def)
      have "is_tree s' None rt' (plug fs ?S) \<and> bf_ok s' (plug fs ?S) \<and> avl (plug fs ?S)"
      proof (rule finish_plug[where s = s])
        show "is_ctx s' rt' fs (ptr ?S)" using c' by simp
        show "is_tree s' (ctx_par fs) (ptr ?S) ?S" using t' by simp
        have "bf_ok s' tl" using bftl dd o' by (subst bf_ok_cong[of tl s' s1]) auto
        moreover have "bf_ok s' tr'" using bftr dd o' by (subst bf_ok_cong[of tr' s' s1]) auto
        moreover have "bf_ok s' l" using bfl1 dd o' by (subst bf_ok_cong[of l s' s1]) auto
        ultimately show "bf_ok s' ?S" using ba' bb' by simp
        show "avl ?S" using av bfl(2) h1 two t by (simp add: max_def)
        show "ctx_ok s fs (hgt ?S)" using co hS by simp
        fix x assume "x \<in> set (ctx_pre fs @ ctx_post fs)"
        with dd have "x \<noteq> a" "x \<noteq> b" by auto
        then show "bf_of s' x = bf_of s x" using o' oth by simp
      qed
      moreover have "nodes ?S = nodes (Nd l a t)" using t by simp
      ultimately show ?thesis using r reb kv kv'
        by (intro disjI1 exI[of _ s'] exI[of _ rt'] exI[of _ ?S]) simp
    next
      case True
      with bb have h1: "hgt tl = hgt tr' + 1" by simp
      then have "hgt tl \<ge> 1" using hgt_nonneg[of tr'] by linarith
      then obtain tll cc tlr where tl: "tl = Nd tll cc tlr" by (cases tl) auto
      from bftl tl have bc: "bf_of s1 cc = hgt tll - hgt tlr" and bftll: "bf_ok s1 tll"
        and bftlr: "bf_ok s1 tlr" by auto
      from av(2) tl have av2: "\<bar>hgt tll - hgt tlr\<bar> \<le> 1" "avl tll" "avl tlr" by auto
      have ha: "bf_of s1 a = hgt l - (1 + max (1 + max (hgt tll) (hgt tlr)) (hgt tr'))"
        using b1 t tl by simp
      have hb: "bf_of s1 b = 1 + max (hgt tll) (hgt tlr) - hgt tr'" using bb tl by simp
      from rebalance_right_heavy_double [OF ctx1 tr1[unfolded t tl] dist[unfolded t tl] True ha hb bc]
      obtain s' rt' where reb: "rebalance_right_heavy a s1 rt = (s', rt', Some cc)"
        and c': "is_ctx s' rt' fs (Some cc)"
        and t': "is_tree s' (ctx_par fs) (Some cc) (Nd (Nd l a tll) cc (Nd tlr b tr'))"
        and ba': "bf_of s' a = hgt l - hgt tll"
        and bb': "bf_of s' b = hgt tlr - hgt tr'"
        and bc': "bf_of s' cc = 1 + max (hgt l) (hgt tll) - (1 + max (hgt tlr) (hgt tr'))"
        and o': "\<forall>x. x \<noteq> a \<and> x \<noteq> b \<and> x \<noteq> cc \<longrightarrow> bf_of s' x = bf_of s1 x"
        and kv': "\<forall>x. key_of s' x = key_of s1 x \<and> val_of s' x = val_of s1 x"
        by blast
      let ?S = "Nd (Nd l a tll) cc (Nd tlr b tr')"
      from dd tl have ddd: "distinct (ctx_pre fs @
          (nodes l @ a # (nodes tll @ cc # nodes tlr) @ b # nodes tr') @ ctx_post fs)"
        by simp
      have hts: "hgt tr' = hgt l" "max (hgt tll) (hgt tlr) = hgt l"
        using h1 two t tl by (auto simp: max_def)
      have le: "hgt tll \<le> hgt l" "hgt tlr \<le> hgt l"
        using hts(2) by (simp_all add: max_def split: if_splits)
      have hS: "hgt ?S = hgt t" using hts(1) le two by (simp add: max_def)
      have "is_tree s' None rt' (plug fs ?S) \<and> bf_ok s' (plug fs ?S) \<and> avl (plug fs ?S)"
      proof (rule finish_plug[where s = s])
        show "is_ctx s' rt' fs (ptr ?S)" using c' by simp
        show "is_tree s' (ctx_par fs) (ptr ?S) ?S" using t' by simp
        have "bf_ok s' tr'" using bftr ddd o' by (subst bf_ok_cong[of tr' s' s1]) auto
        moreover have "bf_ok s' tll" using bftll ddd o' by (subst bf_ok_cong[of tll s' s1]) auto
        moreover have "bf_ok s' tlr" using bftlr ddd o' by (subst bf_ok_cong[of tlr s' s1]) auto
        moreover have "bf_ok s' l" using bfl1 ddd o' by (subst bf_ok_cong[of l s' s1]) auto
        ultimately show "bf_ok s' ?S" using ba' bb' bc' by simp
        show "avl ?S" using av(3) av2 bfl(2) hts le by (simp add: max_def split: if_splits)
        show "ctx_ok s fs (hgt ?S)" using co hS by simp
        fix x assume "x \<in> set (ctx_pre fs @ ctx_post fs)"
        with ddd have "x \<noteq> a" "x \<noteq> b" "x \<noteq> cc" by auto
        then show "bf_of s' x = bf_of s x" using o' oth by simp
      qed
      moreover have "nodes ?S = nodes (Nd l a t)" using t tl by simp
      ultimately show ?thesis using r reb kv kv'
        by (intro disjI1 exI[of _ s'] exI[of _ rt'] exI[of _ ?S]) simp
    qed
  qed
qed

lemma set_retrace_ok:
  assumes "retrace_path c s k fs" "is_ctx s rt fs (ptr t)" "is_tree s (ctx_par fs) (ptr t) t"
    and "distinct (nodes (plug fs t))" "bf_ok s t" "avl t" "ctx_ok s fs (hgt t - 1)" "grown t"
  shows "\<exists>s' rt' T'. set_retrace c k (ctx_par fs) s rt = Some (s', rt') \<and>
     is_tree s' None rt' T' \<and> nodes T' = nodes (plug fs t) \<and> bf_ok s' T' \<and> avl T' \<and>
     (\<forall>x. key_of s' x = key_of s x \<and> val_of s' x = val_of s x)"
  using assms
proof (induction fs arbitrary: s t)
  case Nil
  have "set_retrace c k None s rt = Some (s, rt)" by (subst set_retrace.simps) simp
  with Nil show ?case by (intro exI[of _ s] exI[of _ rt] exI[of _ t]) simp
next
  case (Cons f fs)
  show ?case
  proof (cases f)
    case (InL a r)
    from Cons.prems(8) obtain tl b tr' where t: "t = Nd tl b tr'" by (cases t) auto
    from Cons.prems InL t
    have p: "\<not> c (key_of s a) k < 0" "retrace_path c s k fs"
      "is_ctx s rt fs (Some a)" "is_tree s (ctx_par fs) (Some a) (Nd t a r)"
      "distinct (nodes (plug fs (Nd t a r)))" "bf_ok s t" "avl t" "bf_ok s r" "avl r"
      "bf_of s a = hgt t - 1 - hgt r" "\<bar>hgt t - 1 - hgt r\<bar> \<le> 1"
      "ctx_ok s fs (1 + max (hgt t - 1) (hgt r))"
      by auto
    from set_retrace_step_L [where c = c and s = s and a = a and k = k and rt = rt, OF p(1) p(3) p(4) p(5) p(6) p(7) p(8) p(9) p(10) p(11) p(12) Cons.prems(8)]
    show ?thesis
    proof (elim disjE exE conjE)
      fix s' rt' S'
      assume "set_retrace c k (Some a) s rt = Some (s', rt')"
        "is_tree s' None rt' (plug fs S')" "bf_ok s' (plug fs S')" "avl (plug fs S')"
        "nodes S' = nodes (Nd t a r)" "\<forall>x. key_of s' x = key_of s x \<and> val_of s' x = val_of s x"
      then show ?thesis using InL
        by (intro exI[of _ s'] exI[of _ rt'] exI[of _ "plug fs S'"]) (simp add: nodes_plug)
    next
      fix s1
      assume a: "set_retrace c k (Some a) s rt = set_retrace c k (ctx_par fs) s1 rt"
        "is_ctx s1 rt fs (Some a)" "is_tree s1 (ctx_par fs) (Some a) (Nd t a r)"
        "bf_ok s1 (Nd t a r)" "avl (Nd t a r)" "ctx_ok s1 fs (hgt (Nd t a r) - 1)"
        "grown (Nd t a r)" "\<forall>x. key_of s1 x = key_of s x \<and> val_of s1 x = val_of s x"
      have rp: "retrace_path c s1 k fs" using p(2) a(8) by (subst retrace_path_cong[of s1 s]) auto
      from Cons.IH[of s1 "Nd t a r", OF rp] a p(5)
      obtain s' rt' T' where "set_retrace c k (ctx_par fs) s1 rt = Some (s', rt')"
        "is_tree s' None rt' T'" "nodes T' = nodes (plug fs (Nd t a r))" "bf_ok s' T'" "avl T'"
        "\<forall>x. key_of s' x = key_of s1 x \<and> val_of s' x = val_of s1 x"
        by auto
      then show ?thesis using InL a(1) a(8)
        by (intro exI[of _ s'] exI[of _ rt'] exI[of _ T']) simp
    qed
  next
    case (InR l a)
    from Cons.prems InR
    have p: "c (key_of s a) k < 0" "retrace_path c s k fs"
      "is_ctx s rt fs (Some a)" "is_tree s (ctx_par fs) (Some a) (Nd l a t)"
      "distinct (nodes (plug fs (Nd l a t)))" "bf_ok s t" "avl t" "bf_ok s l" "avl l"
      "bf_of s a = hgt l - (hgt t - 1)" "\<bar>hgt l - (hgt t - 1)\<bar> \<le> 1"
      "ctx_ok s fs (1 + max (hgt l) (hgt t - 1))"
      using is_tree_ptr[of s "Some a" "right_of s a" t] by auto
    from set_retrace_step_R [where c = c and s = s and a = a and k = k and rt = rt, OF p(1) p(3) p(4) p(5) p(6) p(7) p(8) p(9) p(10) p(11) p(12) Cons.prems(8)]
    show ?thesis
    proof (elim disjE exE conjE)
      fix s' rt' S'
      assume "set_retrace c k (Some a) s rt = Some (s', rt')"
        "is_tree s' None rt' (plug fs S')" "bf_ok s' (plug fs S')" "avl (plug fs S')"
        "nodes S' = nodes (Nd l a t)" "\<forall>x. key_of s' x = key_of s x \<and> val_of s' x = val_of s x"
      then show ?thesis using InR
        by (intro exI[of _ s'] exI[of _ rt'] exI[of _ "plug fs S'"]) (simp add: nodes_plug)
    next
      fix s1
      assume a: "set_retrace c k (Some a) s rt = set_retrace c k (ctx_par fs) s1 rt"
        "is_ctx s1 rt fs (Some a)" "is_tree s1 (ctx_par fs) (Some a) (Nd l a t)"
        "bf_ok s1 (Nd l a t)" "avl (Nd l a t)" "ctx_ok s1 fs (hgt (Nd l a t) - 1)"
        "grown (Nd l a t)" "\<forall>x. key_of s1 x = key_of s x \<and> val_of s1 x = val_of s x"
      have rp: "retrace_path c s1 k fs" using p(2) a(8) by (subst retrace_path_cong[of s1 s]) auto
      from Cons.IH[of s1 "Nd l a t", OF rp] a p(5)
      obtain s' rt' T' where "set_retrace c k (ctx_par fs) s1 rt = Some (s', rt')"
        "is_tree s' None rt' T'" "nodes T' = nodes (plug fs (Nd l a t))" "bf_ok s' T'" "avl T'"
        "\<forall>x. key_of s' x = key_of s1 x \<and> val_of s' x = val_of s1 x"
        by auto
      then show ?thesis using InR a(1) a(8)
        by (intro exI[of _ s'] exI[of _ rt'] exI[of _ T']) simp
    qed
  qed
qed

section \<open>Insertion\<close>

lemma descend_plug:
  "descend c nd s k t fs = Inr fs' \<Longrightarrow> plug fs' Tip = plug fs t"
  by (induction t arbitrary: fs) (auto split: if_splits)

lemma descend_path:
  "descend c nd s k t fs = Inr fs' \<Longrightarrow> descent_path c nd s k fs \<Longrightarrow> descent_path c nd s k fs'"
proof (induction t arbitrary: fs)
  case Tip
  then show ?case by simp
next
  case (Nd l a r)
  then show ?case by (auto split: if_splits)
qed

lemma descend_nonempty:
  "descend c nd s k t fs = Inr fs' \<Longrightarrow> t \<noteq> Tip \<or> fs \<noteq> [] \<Longrightarrow> fs' \<noteq> []"
proof (induction t arbitrary: fs)
  case Tip
  then show ?case by simp
next
  case (Nd l a r)
  then show ?case by (auto split: if_splits)
qed

lemma descend_found:
  "descend c nd s k t fs = Inl a \<Longrightarrow>
   nd \<and> a \<in> set (nodes t) \<and> c k (key_of s a) = 0 \<and> lookup c s k t = Some a"
proof (induction t arbitrary: fs)
  case Tip
  then show ?case by simp
next
  case (Nd l b r)
  then show ?case by (auto split: if_splits)
qed

lemma set_descend_dup_tree:
  "is_tree s par p t \<Longrightarrow>
   \<exists>fs'. descend c False s k t fs = Inr fs' \<and>
     set_descend_dup c s k p (ctx_par fs) (top_cmp c s k fs d) =
       Some (ctx_par fs', top_cmp c s k fs' d)"
proof (induction t arbitrary: par p fs)
  case Tip
  then show ?case by (subst set_descend_dup.simps) simp
next
  case (Nd l a r)
  from Nd.prems have p: "p = Some a" and l: "is_tree s (Some a) (left_of s a) l"
    and r: "is_tree s (Some a) (right_of s a) r" by auto
  show ?case
  proof (cases "c k (key_of s a) \<le> 0")
    case True
    from Nd.IH(1)[OF l, of "InL a r # fs"] True p show ?thesis
      by (subst set_descend_dup.simps) (auto simp: Let_def)
  next
    case False
    from Nd.IH(2)[OF r, of "InR l a # fs"] False p show ?thesis
      by (subst set_descend_dup.simps) (auto simp: Let_def)
  qed
qed

lemma set_descend_nodup_tree:
  "is_tree s par p t \<Longrightarrow>
   set_descend_nodup c s k p (ctx_par fs) (top_cmp c s k fs d) =
     Some (case descend c True s k t fs of
             Inl a \<Rightarrow> Inl a
           | Inr fs' \<Rightarrow> Inr (ctx_par fs', top_cmp c s k fs' d))"
proof (induction t arbitrary: par p fs)
  case Tip
  then show ?case by (subst set_descend_nodup.simps) simp
next
  case (Nd l a r)
  from Nd.prems have p: "p = Some a" and l: "is_tree s (Some a) (left_of s a) l"
    and r: "is_tree s (Some a) (right_of s a) r" by auto
  consider (eq) "c k (key_of s a) = 0" | (lt) "c k (key_of s a) < 0" | (gt) "c k (key_of s a) > 0"
    by linarith
  then show ?case
  proof cases
    case eq
    with p show ?thesis by (subst set_descend_nodup.simps) (simp add: Let_def)
  next
    case lt
    from Nd.IH(1)[OF l, of "InL a r # fs"] lt p show ?thesis
      by (subst set_descend_nodup.simps) (auto simp: Let_def)
  next
    case gt
    from Nd.IH(2)[OF r, of "InR l a # fs"] gt p show ?thesis
      by (subst set_descend_nodup.simps) (auto simp: Let_def)
  qed
qed

lemma ord_weak: "ord c nd a b \<Longrightarrow> c a b \<le> 0"
  by (auto simp: ord_def split: if_splits)

lemma ord_trans:
  assumes "valid_comparator c" shows "ord c nd a b \<Longrightarrow> ord c nd b d \<Longrightarrow> ord c nd a d"
  using vc_trans[OF assms, of a b d] vc_trans_lt1[OF assms, of a b d]
  by (auto simp: ord_def split: if_splits)

lemma descent_retrace_path:
  assumes vc: "valid_comparator c"
  shows "descent_path c nd s k fs \<Longrightarrow> retrace_path c s k fs"
proof (induction fs)
  case Nil
  show ?case by simp
next
  case (Cons f fs)
  then show ?case using vc_sym[OF vc, of "key_of s a" k for a]
    by (cases f) (auto split: if_splits)
qed

lemma retrace_path_cong':
  assumes "\<And>x. x \<in> set (ctx_pre fs @ ctx_post fs) \<Longrightarrow> key_of s' x = key_of s x"
  shows "retrace_path c s' k fs = retrace_path c s k fs"
  using assms
proof (induction fs)
  case Nil
  show ?case by simp
next
  case (Cons f fs)
  then show ?case by (cases f) auto
qed

lemma path_keys:
  assumes vc: "valid_comparator c"
  shows "descent_path c nd s k fs \<Longrightarrow> sorted_keys c nd s (ctx_pre fs @ ctx_post fs) \<Longrightarrow>
    (\<forall>x\<in>set (ctx_pre fs). c k (key_of s x) > 0) \<and>
    (\<forall>y\<in>set (ctx_post fs). if nd then c k (key_of s y) < 0 else c k (key_of s y) \<le> 0)"
proof (induction fs)
  case Nil
  show ?case by simp
next
  case (Cons f fs)
  show ?case
  proof (cases f)
    case (InL a r)
    from Cons.prems InL have pa: "if nd then c k (key_of s a) < 0 else c k (key_of s a) \<le> 0"
      and pf: "descent_path c nd s k fs" by auto
    from Cons.prems(2) InL
    have srt: "sorted_keys c nd s (ctx_pre fs @ a # nodes r @ ctx_post fs)" by simp
    then have s': "sorted_keys c nd s (ctx_pre fs @ ctx_post fs)"
      by (auto simp: sorted_keys_def sorted_wrt_append)
    from srt have ar: "\<forall>y\<in>set (nodes r). c (key_of s a) (key_of s y) \<le> 0"
      by (auto simp: sorted_keys_def sorted_wrt_append dest: ord_weak)
    have "\<forall>y\<in>set (nodes r). if nd then c k (key_of s y) < 0 else c k (key_of s y) \<le> 0"
      using pa ar vc_trans[OF vc, of k "key_of s a"] vc_trans_lt1[OF vc, of k "key_of s a"]
      by (auto split: if_splits)
    with Cons.IH[OF pf s'] pa InL show ?thesis by auto
  next
    case (InR l a)
    from Cons.prems InR have pa: "c k (key_of s a) > 0"
      and pf: "descent_path c nd s k fs" by auto
    from Cons.prems(2) InR
    have srt: "sorted_keys c nd s (ctx_pre fs @ nodes l @ a # ctx_post fs)" by simp
    then have s': "sorted_keys c nd s (ctx_pre fs @ ctx_post fs)"
      by (auto simp: sorted_keys_def sorted_wrt_append)
    from srt have la: "\<forall>x\<in>set (nodes l). c (key_of s x) (key_of s a) \<le> 0"
      by (auto simp: sorted_keys_def sorted_wrt_append dest: ord_weak)
    from pa have ak: "c (key_of s a) k < 0" using vc_sym[OF vc, of "key_of s a" k] by simp
    have "\<forall>x\<in>set (nodes l). c k (key_of s x) > 0"
    proof
      fix x assume "x \<in> set (nodes l)"
      with la have "c (key_of s x) (key_of s a) \<le> 0" by simp
      from vc_trans_lt2[OF vc this ak] show "c k (key_of s x) > 0"
        using vc_sym[OF vc, of "key_of s x" k] by simp
    qed
    with Cons.IH[OF pf s'] pa InR show ?thesis by auto
  qed
qed

lemma is_ctx_hole:
  assumes "is_ctx s rt fs p" and "distinct (ctx_pre fs @ ctx_post fs)"
    and "\<And>x. x \<in> set (ctx_pre fs @ ctx_post fs) \<Longrightarrow>
       parent_of s' x = parent_of s x \<and>
       (Some x \<noteq> ctx_par fs \<longrightarrow> left_of s' x = left_of s x \<and> right_of s' x = right_of s x)"
    and "case fs of [] \<Rightarrow> rt' = p'
         | InL a r # fs' \<Rightarrow> rt' = rt \<and> left_of s' a = p' \<and> right_of s' a = right_of s a
         | InR l a # fs' \<Rightarrow> rt' = rt \<and> right_of s' a = p' \<and> left_of s' a = left_of s a"
  shows "is_ctx s' rt' fs p'"
proof (cases fs)
  case Nil
  with assms show ?thesis by simp
next
  case (Cons f fs')
  show ?thesis
  proof (cases f)
    case (InL a r)
    from assms(2) Cons InL have d: "a \<notin> set (ctx_pre fs' @ ctx_post fs')" "a \<notin> set (nodes r)"
      by auto
    from assms(1) Cons InL have c: "parent_of s a = ctx_par fs'"
      "is_tree s (Some a) (right_of s a) r" "is_ctx s rt fs' (Some a)" by auto
    have x: "\<And>x. x \<in> set (ctx_pre fs' @ ctx_post fs') \<union> set (nodes r) \<Longrightarrow>
       parent_of s' x = parent_of s x \<and> left_of s' x = left_of s x \<and> right_of s' x = right_of s x"
      using assms(3) d Cons InL by auto
    have "is_tree s' (Some a) (right_of s a) r"
      using c(2) x by (subst is_tree_cong[of r s' s]) auto
    moreover have "is_ctx s' rt fs' (Some a)"
      using c(3) x by (subst is_ctx_cong[of fs' s' s]) auto
    moreover have "parent_of s' a = parent_of s a" using assms(3)[of a] Cons InL by simp
    ultimately show ?thesis using assms(4) c(1) Cons InL by simp
  next
    case (InR l a)
    from assms(2) Cons InR have d: "a \<notin> set (ctx_pre fs' @ ctx_post fs')" "a \<notin> set (nodes l)"
      by auto
    from assms(1) Cons InR have c: "parent_of s a = ctx_par fs'"
      "is_tree s (Some a) (left_of s a) l" "is_ctx s rt fs' (Some a)" by auto
    have x: "\<And>x. x \<in> set (ctx_pre fs' @ ctx_post fs') \<union> set (nodes l) \<Longrightarrow>
       parent_of s' x = parent_of s x \<and> left_of s' x = left_of s x \<and> right_of s' x = right_of s x"
      using assms(3) d Cons InR by auto
    have "is_tree s' (Some a) (left_of s a) l"
      using c(2) x by (subst is_tree_cong[of l s' s]) auto
    moreover have "is_ctx s' rt fs' (Some a)"
      using c(3) x by (subst is_ctx_cong[of fs' s' s]) auto
    moreover have "parent_of s' a = parent_of s a" using assms(3)[of a] Cons InR by simp
    ultimately show ?thesis using assms(4) c(1) Cons InR by simp
  qed
qed

lemma ins_list_split:
  assumes "\<forall>e\<in>set xs. c k (fst e) > 0"
    and "\<forall>e\<in>set ys. if nd then c k (fst e) < 0 else c k (fst e) \<le> 0"
  shows "ins_list c nd k v (xs @ ys) = xs @ (k, v) # ys"
  using assms(1)
proof (induction xs)
  case Nil
  show ?case using assms(2) by (cases ys) (auto split: if_splits)
next
  case (Cons e xs)
  then show ?case by (cases e) auto
qed

lemma ins_list_found:
  assumes "\<forall>e\<in>set xs. c k (fst e) > 0" and "c k k' = 0"
  shows "ins_list c True k v (xs @ (k', v') # ys) = xs @ (k', v) # ys"
  using assms(1)
proof (induction xs)
  case Nil
  show ?case using assms(2) by simp
next
  case (Cons e xs)
  then show ?case by (cases e) auto
qed

lemma sorted_keys_map:
  "sorted_keys c nd s ns = sorted_wrt (ord c nd) (map (key_of s) ns)"
  by (simp add: sorted_keys_def sorted_wrt_map)

lemma sorted_keys_cong:
  "(\<And>x. x \<in> set ns \<Longrightarrow> key_of s' x = key_of s x) \<Longrightarrow>
   sorted_keys c nd s' ns = sorted_keys c nd s ns"
proof -
  assume "\<And>x. x \<in> set ns \<Longrightarrow> key_of s' x = key_of s x"
  then have "map (key_of s') ns = map (key_of s) ns" by simp
  then show ?thesis by (simp only: sorted_keys_map)
qed

lemma set_insert_at:
  fixes t :: "('k, 'v) AVLTree"
  assumes vc: "valid_comparator (comparator t)" and inv: "sinv t T"
    and pl: "T = plug fs Tip"
    and dp: "descent_path (comparator t) (noDuplicates t) (heap t) k fs"
    and par: "ctx_par fs = Some p"
    and s2: "s2 = (if top_cmp (comparator t) (heap t) k fs 0 \<le> 0
                   then set_left p (Some (fresh t)) ((heap t)(fresh t \<mapsto> new_node (Some p) k v))
                   else set_right p (Some (fresh t)) ((heap t)(fresh t \<mapsto> new_node (Some p) k v)))"
  shows "\<exists>s3 rt' T'. set_retrace (comparator t) k (Some p) s2 (root t) = Some (s3, rt') \<and>
      sinv (t\<lparr>root := rt', tsize := tsize t + 1, heap := s3, fresh := Suc (fresh t)\<rparr>) T' \<and>
      entries_of s3 T' =
        ins_list (comparator t) (noDuplicates t) k v (entries_of (heap t) T)"
proof -
  let ?c = "comparator t" and ?nd = "noDuplicates t" and ?s = "heap t" and ?x = "fresh t"
  let ?leaf = "Nd Tip ?x Tip"
  from inv have it: "is_tree ?s None (root t) T" and dT: "distinct (nodes T)"
    and fr: "list_all (\<lambda>a. a < ?x) (nodes T)"
    and srt: "sorted_keys ?c ?nd ?s (nodes T)" and bf: "bf_ok ?s T" and av: "avl T"
    and sz: "tsize t = int (length (nodes T))"
    by (simp_all add: sinv_def)
  have nT: "nodes T = ctx_pre fs @ ctx_post fs" by (simp add: pl nodes_plug)
  have xn: "?x \<notin> set (ctx_pre fs @ ctx_post fs)" using fr nT by (auto simp: list_all_iff)
  have pin: "p \<in> set (ctx_pre fs @ ctx_post fs)" using ctx_par_in_nodes[OF par] .
  then have px: "p \<noteq> ?x" using xn by auto
  from it have ctx: "is_ctx ?s (root t) fs None" by (simp add: pl is_tree_plug)
  from bf av have cok: "ctx_ok ?s fs 0" using bf_ok_plug[of ?s fs Tip] by (simp add: pl)
  have old: "\<And>y. y \<noteq> ?x \<Longrightarrow> key_of s2 y = key_of ?s y \<and> val_of s2 y = val_of ?s y \<and>
      bf_of s2 y = bf_of ?s y \<and> parent_of s2 y = parent_of ?s y \<and>
      (y \<noteq> p \<longrightarrow> left_of s2 y = left_of ?s y \<and> right_of s2 y = right_of ?s y)"
    by (simp add: s2)
  have new: "key_of s2 ?x = k" "val_of s2 ?x = v" "bf_of s2 ?x = 0" "parent_of s2 ?x = Some p"
    "left_of s2 ?x = None" "right_of s2 ?x = None"
    using px by (simp_all add: s2)
  have top: "case fs of [] \<Rightarrow> root t = Some ?x
         | InL a r # fs' \<Rightarrow> root t = root t \<and> left_of s2 a = Some ?x \<and> right_of s2 a = right_of ?s a
         | InR l a # fs' \<Rightarrow> root t = root t \<and> right_of s2 a = Some ?x \<and> left_of s2 a = left_of ?s a"
  proof (cases fs)
    case Nil
    with par show ?thesis by simp
  next
    case (Cons f fs')
    show ?thesis
    proof (cases f)
      case (InL a r)
      with Cons par dp px have "a = p" "top_cmp ?c ?s k fs 0 \<le> 0" by (auto split: if_splits)
      with Cons InL px show ?thesis by (simp add: s2)
    next
      case (InR l a)
      with Cons par dp px have "a = p" "\<not> top_cmp ?c ?s k fs 0 \<le> 0" by (auto split: if_splits)
      with Cons InR px show ?thesis by (simp add: s2)
    qed
  qed
  have c2: "is_ctx s2 (root t) fs (Some ?x)"
  proof (rule is_ctx_hole[OF ctx])
    show "distinct (ctx_pre fs @ ctx_post fs)" using dT nT by simp
    show "case fs of [] \<Rightarrow> root t = Some ?x
         | InL a r # fs' \<Rightarrow> root t = root t \<and> left_of s2 a = Some ?x \<and> right_of s2 a = right_of ?s a
         | InR l a # fs' \<Rightarrow> root t = root t \<and> right_of s2 a = Some ?x \<and> left_of s2 a = left_of ?s a"
      by (rule top)
    fix y assume y: "y \<in> set (ctx_pre fs @ ctx_post fs)"
    with xn have "y \<noteq> ?x" by auto
    from old[OF this] par
    show "parent_of s2 y = parent_of ?s y \<and>
       (Some y \<noteq> ctx_par fs \<longrightarrow> left_of s2 y = left_of ?s y \<and> right_of s2 y = right_of ?s y)"
      by auto
  qed
  have t2: "is_tree s2 (ctx_par fs) (ptr ?leaf) ?leaf" using new par by simp
  have d2: "distinct (nodes (plug fs ?leaf))" using dT nT xn by (simp add: nodes_plug)
  have rp: "retrace_path ?c s2 k fs"
  proof -
    have "retrace_path ?c s2 k fs = retrace_path ?c ?s k fs"
    proof (rule retrace_path_cong')
      fix y assume "y \<in> set (ctx_pre fs @ ctx_post fs)"
      with xn have "y \<noteq> ?x" by auto
      from old[OF this] show "key_of s2 y = key_of ?s y" by simp
    qed
    with descent_retrace_path[OF vc dp] show ?thesis by simp
  qed
  have cok2: "ctx_ok s2 fs (hgt ?leaf - 1)"
  proof -
    have "ctx_ok s2 fs 0 = ctx_ok ?s fs 0"
    proof (rule ctx_ok_cong)
      fix y assume "y \<in> set (ctx_pre fs @ ctx_post fs)"
      with xn have "y \<noteq> ?x" by auto
      from old[OF this] show "bf_of s2 y = bf_of ?s y" by simp
    qed
    with cok show ?thesis by simp
  qed
  from set_retrace_ok[where c = ?c and s = s2 and k = k and fs = fs and t = ?leaf and rt = "root t",
      OF rp _ t2 d2 _ _ cok2] c2 new
  obtain s3 rt' T' where r: "set_retrace ?c k (ctx_par fs) s2 (root t) = Some (s3, rt')"
    and it3: "is_tree s3 None rt' T'" and n3: "nodes T' = nodes (plug fs ?leaf)"
    and bf3: "bf_ok s3 T'" and av3: "avl T'"
    and kv3: "\<forall>y. key_of s3 y = key_of s2 y \<and> val_of s3 y = val_of s2 y"
    by auto
  have n3': "nodes T' = ctx_pre fs @ ?x # ctx_post fs" using n3 by (simp add: nodes_plug)
  have keys3: "\<And>y. key_of s3 y = (if y = ?x then k else key_of ?s y)"
    "\<And>y. val_of s3 y = (if y = ?x then v else val_of ?s y)"
    using kv3 old new by auto
  from srt nT have srt': "sorted_keys ?c ?nd ?s (ctx_pre fs @ ctx_post fs)" by simp
  note pk = path_keys[OF vc dp srt']
  have ordpre: "\<forall>a\<in>set (ctx_pre fs). ord ?c ?nd (key_of ?s a) k"
  proof
    fix a assume "a \<in> set (ctx_pre fs)"
    with pk have "?c k (key_of ?s a) > 0" by simp
    then have "?c (key_of ?s a) k < 0" using vc_sym[OF vc, of "key_of ?s a" k] by simp
    then show "ord ?c ?nd (key_of ?s a) k" by (simp add: ord_def)
  qed
  have ordpost: "\<forall>b\<in>set (ctx_post fs). ord ?c ?nd k (key_of ?s b)"
    using pk by (auto simp: ord_def)
  have mp: "map (key_of s3) (ctx_pre fs) = map (key_of ?s) (ctx_pre fs)"
    "map (key_of s3) (ctx_post fs) = map (key_of ?s) (ctx_post fs)"
    using xn by (auto simp: keys3)
  have srt3: "sorted_keys ?c ?nd s3 (nodes T')"
    using srt' ordpre ordpost
    by (auto simp: sorted_keys_map n3' sorted_wrt_append keys3 mp)
  have fr3: "list_all (\<lambda>a. a < Suc ?x) (nodes T')"
    using fr nT by (auto simp: n3' list_all_iff less_Suc_eq)
  have sz3: "tsize t + 1 = int (length (nodes T'))" using sz nT by (simp add: n3')
  have "sinv (t\<lparr>root := rt', tsize := tsize t + 1, heap := s3, fresh := Suc ?x\<rparr>) T'"
    using it3 d2 n3 fr3 srt3 bf3 av3 sz3 by (simp add: sinv_def)
  moreover have "entries_of s3 T' = ins_list ?c ?nd k v (entries_of ?s T)"
  proof -
    have pre: "map (\<lambda>a. (key_of s3 a, val_of s3 a)) (ctx_pre fs) =
               map (\<lambda>a. (key_of ?s a, val_of ?s a)) (ctx_pre fs)"
      using xn by (auto simp: keys3)
    have post: "map (\<lambda>a. (key_of s3 a, val_of s3 a)) (ctx_post fs) =
               map (\<lambda>a. (key_of ?s a, val_of ?s a)) (ctx_post fs)"
      using xn by (auto simp: keys3)
    have "ins_list ?c ?nd k v
            (map (\<lambda>a. (key_of ?s a, val_of ?s a)) (ctx_pre fs) @
             map (\<lambda>a. (key_of ?s a, val_of ?s a)) (ctx_post fs)) =
          map (\<lambda>a. (key_of ?s a, val_of ?s a)) (ctx_pre fs) @ (k, v) #
          map (\<lambda>a. (key_of ?s a, val_of ?s a)) (ctx_post fs)"
      by (rule ins_list_split) (use pk in auto)
    moreover have "key_of s3 ?x = k" "val_of s3 ?x = v" by (simp_all add: keys3)
    ultimately show ?thesis by (simp add: entries_of_def n3' nT pre post)
  qed
  ultimately show ?thesis using r par by auto
qed

lemma is_tree_set_val [simp]: "is_tree (set_val a v s) par p t = is_tree s par p t"
  by (rule is_tree_cong) simp

lemma is_tree_set_key [simp]: "is_tree (set_key a v s) par p t = is_tree s par p t"
  by (rule is_tree_cong) simp

lemma bf_ok_set_val [simp]: "bf_ok (set_val a v s) t = bf_ok s t"
  by (rule bf_ok_cong) simp

lemma bf_ok_set_key [simp]: "bf_ok (set_key a v s) t = bf_ok s t"
  by (rule bf_ok_cong) simp

lemma sorted_keys_set_val [simp]: "sorted_keys c nd (set_val a v s) ns = sorted_keys c nd s ns"
  by (rule sorted_keys_cong) simp

lemma tree_set_ok:
  fixes t :: "('k, 'v) AVLTree"
  assumes vc: "valid_comparator (comparator t)" and inv: "sinv t T"
  shows "\<exists>t' T'. tree_set k v t = Some (Inr (), t') \<and> sinv t' T' \<and>
     comparator t' = comparator t \<and> noDuplicates t' = noDuplicates t \<and>
     entries_of (heap t') T' =
       ins_list (comparator t) (noDuplicates t) k v (entries_of (heap t) T)"
proof (cases "root t")
  case None
  with inv have T: "T = Tip" and sz: "tsize t = 0" by (auto simp: sinv_def)
  let ?t' = "t\<lparr>root := Some (fresh t), tsize := tsize t + 1,
              heap := (heap t)(fresh t \<mapsto> new_node None k v), fresh := Suc (fresh t)\<rparr>"
  have "tree_set k v t = Some (Inr (), ?t')" using None by (simp add: tree_set_def)
  moreover have "sinv ?t' (Nd Tip (fresh t) Tip)"
    using sz by (simp add: sinv_def sorted_keys_def)
  moreover have "entries_of (heap ?t') (Nd Tip (fresh t) Tip) =
      ins_list (comparator t) (noDuplicates t) k v (entries_of (heap t) T)"
    by (simp add: entries_of_def T)
  ultimately show ?thesis by (intro exI[of _ ?t'] exI[of _ "Nd Tip (fresh t) Tip"]) simp
next
  case (Some r)
  let ?c = "comparator t" and ?nd = "noDuplicates t" and ?s = "heap t"
  from inv have it: "is_tree ?s None (root t) T" and dT: "distinct (nodes T)"
    and srt: "sorted_keys ?c ?nd ?s (nodes T)"
    by (simp_all add: sinv_def)
  from it Some have Tne: "T \<noteq> Tip" by auto
  have desc: "(if ?nd then set_descend_nodup ?c ?s k (Some r) None 0
               else map_option Inr (set_descend_dup ?c ?s k (Some r) None 0)) =
     Some (case descend ?c ?nd ?s k T [] of
             Inl a \<Rightarrow> Inl a
           | Inr fs' \<Rightarrow> Inr (ctx_par fs', top_cmp ?c ?s k fs' 0))"
  proof (cases ?nd)
    case True
    with set_descend_nodup_tree[OF it, of ?c k "[]" 0] Some show ?thesis by simp
  next
    case False
    with set_descend_dup_tree[OF it, of ?c k "[]" 0] Some show ?thesis by auto
  qed
  show ?thesis
  proof (cases "descend ?c ?nd ?s k T []")
    case (Inl a)
    from descend_found[OF Inl] have nd: "?nd" and a: "a \<in> set (nodes T)"
      and ka: "?c k (key_of ?s a) = 0" by auto
    let ?t' = "t\<lparr>heap := set_val a v ?s\<rparr>"
    have r: "tree_set k v t = Some (Inr (), ?t')"
      using Some desc Inl by (simp add: tree_set_def)
    have i': "sinv ?t' T" using inv by (simp add: sinv_def)
    from a obtain xs ys where sp: "nodes T = xs @ a # ys" by (auto simp: in_set_conv_decomp)
    with dT have na: "a \<notin> set xs" "a \<notin> set ys" by auto
    have pre: "\<forall>e\<in>set (map (\<lambda>y. (key_of ?s y, val_of ?s y)) xs). ?c k (fst e) > 0"
    proof -
      { fix x assume "x \<in> set xs"
        with srt sp nd have "?c (key_of ?s x) (key_of ?s a) < 0"
          by (auto simp: sorted_keys_def sorted_wrt_append ord_def)
        moreover have "?c (key_of ?s a) k \<le> 0" using ka vc_zero[OF vc, of k "key_of ?s a"] by simp
        ultimately have "?c (key_of ?s x) k < 0" by (rule vc_trans_lt1[OF vc])
        then have "?c k (key_of ?s x) > 0" using vc_sym[OF vc, of "key_of ?s x" k] by simp }
      then show ?thesis by auto
    qed
    have "entries_of (heap ?t') T =
        map (\<lambda>y. (key_of ?s y, val_of ?s y)) xs @ (key_of ?s a, v) #
        map (\<lambda>y. (key_of ?s y, val_of ?s y)) ys"
      using na by (auto simp: entries_of_def sp)
    also have "\<dots> = ins_list ?c True k v
        (map (\<lambda>y. (key_of ?s y, val_of ?s y)) xs @ (key_of ?s a, val_of ?s a) #
         map (\<lambda>y. (key_of ?s y, val_of ?s y)) ys)"
      by (rule ins_list_found[where c = ?c and k = k, OF pre ka, symmetric])
    also have "\<dots> = ins_list ?c ?nd k v (entries_of ?s T)"
      using nd by (simp add: entries_of_def sp)
    finally show ?thesis using r i' by (intro exI[of _ ?t'] exI[of _ T]) simp
  next
    case (Inr fs)
    from descend_plug[OF Inr] have pl: "T = plug fs Tip" by simp
    from descend_path[OF Inr] have dp: "descent_path ?c ?nd ?s k fs" by simp
    from descend_nonempty[OF Inr] Tne have "fs \<noteq> []" by simp
    then obtain p where par: "ctx_par fs = Some p" by (cases fs rule: ctx_par.cases) auto
    define s2 where "s2 = (if top_cmp ?c ?s k fs 0 \<le> 0
                   then set_left p (Some (fresh t)) (?s(fresh t \<mapsto> new_node (Some p) k v))
                   else set_right p (Some (fresh t)) (?s(fresh t \<mapsto> new_node (Some p) k v)))"
    from set_insert_at[OF vc inv pl dp par s2_def]
    obtain s3 rt' T' where rr: "set_retrace ?c k (Some p) s2 (root t) = Some (s3, rt')"
      and i': "sinv (t\<lparr>root := rt', tsize := tsize t + 1, heap := s3, fresh := Suc (fresh t)\<rparr>) T'"
      and e': "entries_of s3 T' = ins_list ?c ?nd k v (entries_of ?s T)"
      by blast
    have r: "tree_set k v t =
        Some (Inr (), t\<lparr>root := rt', tsize := tsize t + 1, heap := s3, fresh := Suc (fresh t)\<rparr>)"
      using Some desc Inr par rr by (simp add: tree_set_def s2_def Let_def)
    show ?thesis using r i' e'
      by (intro exI[of _ "t\<lparr>root := rt', tsize := tsize t + 1, heap := s3, fresh := Suc (fresh t)\<rparr>"]
          exI[of _ T']) simp
  qed
qed

section \<open>Bulk load\<close>

declare loadRecursive.simps [simp del]

lemma loadRecursive_ok:
  "end \<le> length ks \<Longrightarrow>
   \<exists>rt s' T. loadRecursive par ks vs start end s fr = Some (rt, s', fr + (end - start)) \<and>
     is_tree s' par rt T \<and> set (nodes T) = {fr ..< fr + (end - start)} \<and>
     distinct (nodes T) \<and>
     entries_of s' T =
       map (\<lambda>i. (ks ! i, if i < length vs then Some (vs ! i) else None)) [start ..< end] \<and>
     (\<forall>x. x < fr \<or> x \<ge> fr + (end - start) \<longrightarrow> s' x = s x)"
proof (induction "end - start" arbitrary: par start "end" s fr rule: less_induct)
  case less
  show ?case
  proof (cases "start < end")
    case False
    then have "loadRecursive par ks vs start end s fr = Some (None, s, fr)"
      by (subst loadRecursive.simps) simp
    with False show ?thesis
      by (intro exI[of _ None] exI[of _ s] exI[of _ Tip]) (simp add: entries_of_def)
  next
    case True
    define middle where "middle = start + (end - start) div 2"
    have m: "start \<le> middle" "middle < end" "middle < length ks"
      using True less.prems by (auto simp: middle_def)
    define nd :: "('a, 'b) node" where "nd = \<lparr>parent = par, left = None, right = None, balanceFactor = 0,
                      key = ks ! middle,
                      val = (if middle < length vs then Some (vs ! middle) else None)\<rparr>"
    define s1 where "s1 = s(fr \<mapsto> nd)"
    have l1: "middle - start < end - start" using m by simp
    from less.hyps[OF l1, of "Some fr" s1 "Suc fr"] m
    obtain l s2 Tl where L: "loadRecursive (Some fr) ks vs start middle s1 (Suc fr) =
        Some (l, s2, Suc fr + (middle - start))"
      and tl: "is_tree s2 (Some fr) l Tl"
      and nl: "set (nodes Tl) = {Suc fr ..< Suc fr + (middle - start)}"
      and dl: "distinct (nodes Tl)"
      and el: "entries_of s2 Tl =
         map (\<lambda>i. (ks ! i, if i < length vs then Some (vs ! i) else None)) [start ..< middle]"
      and fl: "\<forall>x. x < Suc fr \<or> x \<ge> Suc fr + (middle - start) \<longrightarrow> s2 x = s1 x"
      by auto
    define fr2 where "fr2 = Suc fr + (middle - start)"
    define s2' where "s2' = set_left fr l s2"
    have l2: "end - (middle + 1) < end - start" using m by simp
    from less.hyps[OF l2, of "Some fr" s2' fr2] less.prems
    obtain r s3 Tr where R: "loadRecursive (Some fr) ks vs (middle + 1) end s2' fr2 =
        Some (r, s3, fr2 + (end - (middle + 1)))"
      and tr: "is_tree s3 (Some fr) r Tr"
      and nr: "set (nodes Tr) = {fr2 ..< fr2 + (end - (middle + 1))}"
      and dr: "distinct (nodes Tr)"
      and er: "entries_of s3 Tr =
         map (\<lambda>i. (ks ! i, if i < length vs then Some (vs ! i) else None)) [middle + 1 ..< end]"
      and fr': "\<forall>x. x < fr2 \<or> x \<ge> fr2 + (end - (middle + 1)) \<longrightarrow> s3 x = s2' x"
      by auto
    define s4 where "s4 = set_right fr r s3"
    have sz: "fr2 + (end - (middle + 1)) = fr + (end - start)" using m by (simp add: fr2_def)
    have res: "loadRecursive par ks vs start end s fr = Some (Some fr, s4, fr + (end - start))"
      using True m L R sz
      unfolding s4_def s2'_def fr2_def s1_def nd_def middle_def
      by (subst loadRecursive.simps) (simp add: Let_def)
    \<comment> \<open>the fields of the stores\<close>
    have acc: "\<And>f x. x < fr2 \<Longrightarrow> s3 x = s2' x" using fr' by simp
    have lowl: "\<And>x. x \<in> set (nodes Tl) \<Longrightarrow> x \<noteq> fr \<and> x < fr2" using nl by (auto simp: fr2_def)
    have s3l: "\<And>x. x \<in> set (nodes Tl) \<Longrightarrow> s4 x = s2 x"
    proof -
      fix x assume "x \<in> set (nodes Tl)"
      from lowl[OF this] acc[of x] show "s4 x = s2 x"
        by (simp add: s4_def s2'_def set_right_def set_left_def)
    qed
    have lowr: "\<And>x. x \<in> set (nodes Tr) \<Longrightarrow> x \<noteq> fr" using nr by (auto simp: fr2_def)
    have s4r: "\<And>x. x \<in> set (nodes Tr) \<Longrightarrow> s4 x = s3 x"
      using lowr by (simp add: s4_def set_right_def)
    have fld: "\<And>s s' x. s' x = s x \<Longrightarrow> left_of s' x = left_of s x \<and>
        right_of s' x = right_of s x \<and> parent_of s' x = parent_of s x \<and>
        key_of s' x = key_of s x \<and> val_of s' x = val_of s x"
      by (simp add: left_of_def right_of_def parent_of_def key_of_def val_of_def)
    have tl4: "is_tree s4 (Some fr) l Tl"
      using tl s3l fld by (subst is_tree_cong[of Tl s4 s2]) auto
    have tr4: "is_tree s4 (Some fr) r Tr"
      using tr s4r fld by (subst is_tree_cong[of Tr s4 s3]) auto
    have s2fr: "s2 fr = Some nd" using fl by (simp add: s1_def)
    have s3fr: "s3 fr = s2' fr" using acc[of fr] by (simp add: fr2_def)
    have frf: "parent_of s4 fr = par" "left_of s4 fr = l" "right_of s4 fr = r"
      "key_of s4 fr = ks ! middle"
      "val_of s4 fr = (if middle < length vs then Some (vs ! middle) else None)"
      using s3fr s2fr
      by (simp_all add: s4_def s2'_def set_right_def set_left_def parent_of_def left_of_def
          right_of_def key_of_def val_of_def nd_def)
    have it: "is_tree s4 par (Some fr) (Nd Tl fr Tr)" using tl4 tr4 frf by simp
    have ns: "set (nodes (Nd Tl fr Tr)) = {fr ..< fr + (end - start)}"
      using nl nr m sz by (auto simp: fr2_def)
    have ds: "distinct (nodes (Nd Tl fr Tr))"
      using dl dr nl nr by (auto simp: fr2_def)
    have el4: "entries_of s4 Tl = entries_of s2 Tl"
      using s3l fld by (auto simp: entries_of_def)
    have er4: "entries_of s4 Tr = entries_of s3 Tr"
      using s4r fld by (auto simp: entries_of_def)
    have upt: "[start ..< end] = [start ..< middle] @ middle # [middle + 1 ..< end]"
      using m by (metis Suc_eq_plus1 le_add2 le_add_same_cancel2 less_imp_le_nat upt_add_eq_append
          upt_conv_Cons le_Suc_ex)
    have es: "entries_of s4 (Nd Tl fr Tr) =
       map (\<lambda>i. (ks ! i, if i < length vs then Some (vs ! i) else None)) [start ..< end]"
      using el er frf el4 er4 by (simp add: entries_of_def upt)
    have out: "\<forall>x. x < fr \<or> x \<ge> fr + (end - start) \<longrightarrow> s4 x = s x"
    proof (intro allI impI)
      fix x assume x: "x < fr \<or> x \<ge> fr + (end - start)"
      then have xf: "x \<noteq> fr" using True by auto
      from x sz have "x < fr2 \<or> x \<ge> fr2 + (end - (middle + 1))" by (auto simp: fr2_def)
      with fr' have a3: "s3 x = s2' x" by blast
      from x m have "x < Suc fr \<or> x \<ge> Suc fr + (middle - start)" by auto
      with fl have a2: "s2 x = s1 x" by blast
      show "s4 x = s x"
        using xf a3 a2 by (simp add: s4_def s2'_def s1_def set_right_def set_left_def)
    qed
    show ?thesis using res it ns ds es out
      by (intro exI[of _ "Some fr"] exI[of _ s4] exI[of _ "Nd Tl fr Tr"]) simp
  qed
qed

lemma markBalance_ok:
  "is_tree s par p T \<Longrightarrow> distinct (nodes T) \<Longrightarrow>
   \<exists>s'. markBalance p s = Some (hgt T, s') \<and> bf_ok s' T \<and>
     (\<forall>x. left_of s' x = left_of s x \<and> right_of s' x = right_of s x \<and>
          parent_of s' x = parent_of s x \<and> key_of s' x = key_of s x \<and>
          val_of s' x = val_of s x) \<and>
     (\<forall>x. x \<notin> set (nodes T) \<longrightarrow> bf_of s' x = bf_of s x)"
proof (induction T arbitrary: s par p)
  case Tip
  then show ?case by (subst markBalance.simps) simp
next
  case (Nd l a r)
  from Nd.prems have p: "p = Some a" and tl: "is_tree s (Some a) (left_of s a) l"
    and tr: "is_tree s (Some a) (right_of s a) r"
    and d: "distinct (nodes l)" "distinct (nodes r)" "a \<notin> set (nodes l)" "a \<notin> set (nodes r)"
      "set (nodes l) \<inter> set (nodes r) = {}"
    by auto
  from Nd.IH(1)[OF tl d(1)] obtain s1 where
    m1: "markBalance (left_of s a) s = Some (hgt l, s1)" and b1: "bf_ok s1 l"
    and k1: "\<forall>x. left_of s1 x = left_of s x \<and> right_of s1 x = right_of s x \<and>
          parent_of s1 x = parent_of s x \<and> key_of s1 x = key_of s x \<and>
          val_of s1 x = val_of s x"
    and o1: "\<forall>x. x \<notin> set (nodes l) \<longrightarrow> bf_of s1 x = bf_of s x"
    by blast
  have tr1: "is_tree s1 (Some a) (right_of s1 a) r"
    using tr k1 by (subst is_tree_cong[of r s1 s]) auto
  from Nd.IH(2)[OF tr1 d(2)] obtain s2 where
    m2: "markBalance (right_of s1 a) s1 = Some (hgt r, s2)" and b2: "bf_ok s2 r"
    and k2: "\<forall>x. left_of s2 x = left_of s1 x \<and> right_of s2 x = right_of s1 x \<and>
          parent_of s2 x = parent_of s1 x \<and> key_of s2 x = key_of s1 x \<and>
          val_of s2 x = val_of s1 x"
    and o2: "\<forall>x. x \<notin> set (nodes r) \<longrightarrow> bf_of s2 x = bf_of s1 x"
    by blast
  let ?s3 = "set_bf a (hgt l - hgt r) s2"
  have res: "markBalance p s = Some (hgt (Nd l a r), ?s3)"
    using p m1 m2 by (subst markBalance.simps) (simp add: max.commute add.commute)
  have bl: "bf_ok ?s3 l" using b1 o2 d by (subst bf_ok_cong[of l ?s3 s1]) auto
  have br: "bf_ok ?s3 r" using b2 d by (subst bf_ok_cong[of r ?s3 s2]) auto
  show ?case using res bl br k1 k2 o1 o2
    by (intro exI[of _ ?s3]) auto
qed

lemma load_not_empty:
  "tsize t \<noteq> 0 \<Longrightarrow> load ks vs presort t = Some (Inl (Error ''bulk-load: tree is not empty''), t)"
  by (simp add: load_def)

lemma load_sorted_ok:
  assumes "tsize t = 0"
  shows "\<exists>t' T. load ks vs False t = Some (Inr (), t') \<and>
     is_tree (heap t') None (root t') T \<and> distinct (nodes T) \<and> bf_ok (heap t') T \<and>
     entries_of (heap t') T =
       map (\<lambda>i. (ks ! i, if i < length vs then Some (vs ! i) else None)) [0 ..< length ks] \<and>
     tsize t' = int (length ks) \<and> comparator t' = comparator t \<and>
     noDuplicates t' = noDuplicates t"
proof -
  from loadRecursive_ok[of "length ks" ks None vs 0 "heap t" "fresh t"]
  obtain rt s1 T where lr: "loadRecursive None ks vs 0 (length ks) (heap t) (fresh t) =
       Some (rt, s1, fresh t + length ks)"
    and it: "is_tree s1 None rt T" and d: "distinct (nodes T)"
    and e: "entries_of s1 T =
       map (\<lambda>i. (ks ! i, if i < length vs then Some (vs ! i) else None)) [0 ..< length ks]"
    by auto
  from markBalance_ok[OF it d] obtain s2 where mb: "markBalance rt s1 = Some (hgt T, s2)"
    and b: "bf_ok s2 T"
    and k: "\<forall>x. left_of s2 x = left_of s1 x \<and> right_of s2 x = right_of s1 x \<and>
          parent_of s2 x = parent_of s1 x \<and> key_of s2 x = key_of s1 x \<and>
          val_of s2 x = val_of s1 x"
    by blast
  let ?t' = "t\<lparr>root := rt, tsize := int (length ks), heap := s2, fresh := fresh t + length ks\<rparr>"
  have "load ks vs False t = Some (Inr (), ?t')" using assms lr mb by (simp add: load_def)
  moreover have "is_tree s2 None rt T" using it k by (subst is_tree_cong[of T s2 s1]) auto
  moreover have "entries_of s2 T = entries_of s1 T" using k by (simp add: entries_of_def)
  ultimately show ?thesis using d b e by (intro exI[of _ ?t'] exI[of _ T]) simp
qed

lemma sort_scan_i_ok:
  assumes "i < a" "\<not> c (ks ! nat a) pivot < 0" "- 1 \<le> i" "a < int (length ks)"
  shows "\<exists>i'. sort_scan_i c ks pivot i = Some i' \<and> i < i' \<and> i' \<le> a \<and>
           \<not> c (ks ! nat i') pivot < 0"
  using assms
proof (induction "nat (a - i)" arbitrary: i rule: less_induct)
  case less
  show ?case
  proof (cases "c (ks ! nat (i + 1)) pivot < 0")
    case False
    with less.prems show ?thesis
      by (subst sort_scan_i.simps) (auto simp: Let_def)
  next
    case True
    with less.prems have ne: "i + 1 \<noteq> a" by auto
    with less.prems have lt: "i + 1 < a" by simp
    then have m: "nat (a - (i + 1)) < nat (a - i)" by simp
    from less.hyps[OF m lt less.prems(2) _ less.prems(4)] less.prems(3)
    obtain i' where "sort_scan_i c ks pivot (i + 1) = Some i'" "i + 1 < i'" "i' \<le> a"
      "\<not> c (ks ! nat i') pivot < 0" by auto
    with True less.prems lt show ?thesis
      by (subst sort_scan_i.simps) (auto simp: Let_def)
  qed
qed

lemma sort_scan_j_ok:
  assumes "b < j" "\<not> c (ks ! nat b) pivot > 0" "0 \<le> b" "j \<le> int (length ks)"
  shows "\<exists>j'. sort_scan_j c ks pivot j = Some j' \<and> j' < j \<and> b \<le> j' \<and>
           \<not> c (ks ! nat j') pivot > 0"
  using assms
proof (induction "nat (j - b)" arbitrary: j rule: less_induct)
  case less
  show ?case
  proof (cases "c (ks ! nat (j - 1)) pivot > 0")
    case False
    with less.prems show ?thesis
      by (subst sort_scan_j.simps) (auto simp: Let_def)
  next
    case True
    with less.prems have ne: "j - 1 \<noteq> b" by auto
    with less.prems have lt: "b < j - 1" by simp
    then have m: "nat (j - 1 - b) < nat (j - b)" by simp
    from less.hyps[OF m lt less.prems(2) less.prems(3)] less.prems(4)
    obtain j' where "sort_scan_j c ks pivot (j - 1) = Some j'" "j' < j - 1" "b \<le> j'"
      "\<not> c (ks ! nat j') pivot > 0" by auto
    with True less.prems lt show ?thesis
      by (subst sort_scan_j.simps) (auto simp: Let_def)
  qed
qed

lemma sort_partition_ok:
  assumes "length vs = length ks" "0 \<le> lo" "hi < int (length ks)"
    and "lo - 1 \<le> i" "i < j" "j \<le> hi + 1"
    and "\<exists>a. i < a \<and> a \<le> hi \<and> a \<le> j \<and> \<not> c (ks ! nat a) pivot < 0"
    and "\<exists>b. lo \<le> b \<and> b < j \<and> i \<le> b \<and> \<not> c (ks ! nat b) pivot > 0"
    and "j \<le> hi \<or> (\<exists>a. i < a \<and> a < hi \<and> \<not> c (ks ! nat a) pivot < 0)"
  shows "\<exists>ks' vs' j'. sort_partition c pivot ks vs i j = Some (ks', vs', j') \<and>
           lo \<le> j' \<and> j' < hi \<and> length ks' = length ks \<and> length vs' = length vs"
  using assms
proof (induction "nat (j - i)" arbitrary: i j ks vs rule: less_induct)
  case less
  from less.prems(7) obtain a where a: "i < a" "a \<le> hi" "a \<le> j" "\<not> c (ks ! nat a) pivot < 0"
    by blast
  from less.prems(8) obtain b where b: "lo \<le> b" "b < j" "i \<le> b" "\<not> c (ks ! nat b) pivot > 0"
    by blast
  from sort_scan_i_ok[where c = c and ks = ks and pivot = pivot, OF a(1) a(4)] less.prems a
  obtain i' where i': "sort_scan_i c ks pivot i = Some i'" "i < i'" "i' \<le> a"
    "\<not> c (ks ! nat i') pivot < 0" by auto
  from sort_scan_j_ok[where c = c and ks = ks and pivot = pivot, OF b(2) b(4)] less.prems b
  obtain j' where j': "sort_scan_j c ks pivot j = Some j'" "j' < j" "b \<le> j'"
    "\<not> c (ks ! nat j') pivot > 0" by auto
  show ?case
  proof (cases "i' \<ge> j'")
    case True
    have "j' < hi"
    proof (cases "j \<le> hi")
      case True
      with j' show ?thesis by simp
    next
      case False
      with less.prems(9) obtain a' where "i < a'" "a' < hi" "\<not> c (ks ! nat a') pivot < 0"
        by blast
      from sort_scan_i_ok[where c = c and ks = ks and pivot = pivot, OF this(1) this(3)] less.prems this i'(1)
      have "i' \<le> a'" by auto
      with \<open>a' < hi\<close> True show ?thesis by simp
    qed
    with True i' j' b show ?thesis
      by (subst sort_partition.simps) auto
  next
    case False
    then have lt: "i' < j'" by simp
    let ?ks = "swap ks (nat i') (nat j')" and ?vs = "swap vs (nat i') (nat j')"
    have bnd: "0 \<le> i'" "j' < int (length ks)" using i' j' less.prems lt by auto
    then have n: "nat i' < length ks" "nat j' < length ks" "nat i' \<noteq> nat j'"
      using lt by auto
    have len: "length ?ks = length ks" "length ?vs = length vs" by (simp_all add: swap_def)
    have k1: "?ks ! nat i' = ks ! nat j'" "?ks ! nat j' = ks ! nat i'"
      using n by (simp_all add: swap_def)
    have m: "nat (j' - i') < nat (j - i)" using i' j' lt by simp
    have "\<exists>ks' vs' j''. sort_partition c pivot ?ks ?vs i' j' = Some (ks', vs', j'') \<and>
           lo \<le> j'' \<and> j'' < hi \<and> length ks' = length ?ks \<and> length vs' = length ?vs"
    proof (rule less.hyps[OF m])
      show "length ?vs = length ?ks" using less.prems(1) len by simp
      show "0 \<le> lo" by (rule less.prems(2))
      show "hi < int (length ?ks)" using less.prems(3) len by simp
      show "lo - 1 \<le> i'" using i' less.prems by simp
      show "i' < j'" by (rule lt)
      show "j' \<le> hi + 1" using j' less.prems by simp
      show "\<exists>a. i' < a \<and> a \<le> hi \<and> a \<le> j' \<and> \<not> c (?ks ! nat a) pivot < 0"
        using lt j' less.prems i'(4) k1 by (intro exI[of _ j']) auto
      show "\<exists>b. lo \<le> b \<and> b < j' \<and> i' \<le> b \<and> \<not> c (?ks ! nat b) pivot > 0"
        using lt i' less.prems j'(4) k1 by (intro exI[of _ i']) auto
      show "j' \<le> hi \<or> (\<exists>a. i' < a \<and> a < hi \<and> \<not> c (?ks ! nat a) pivot < 0)"
        using j' less.prems by simp
    qed
    then obtain ks' vs' j'' where
      "sort_partition c pivot ?ks ?vs i' j' = Some (ks', vs', j'')" "lo \<le> j''" "j'' < hi"
      "length ks' = length ks" "length vs' = length vs"
      using len by auto
    with lt i' j' n less.prems(1) show ?thesis
      by (subst sort_partition.simps) auto
  qed
qed

lemma sort_arrays_ok:
  assumes refl: "\<And>x. c x x = 0"
  shows "length vs = length ks \<Longrightarrow> 0 \<le> lo \<Longrightarrow> hi < int (length ks) \<Longrightarrow>
    \<exists>ks' vs'. sort_arrays c ks vs lo hi = Some (ks', vs') \<and>
       length ks' = length ks \<and> length vs' = length vs"
proof (induction "nat (hi - lo)" arbitrary: lo hi ks vs rule: less_induct)
  case less
  show ?case
  proof (cases "lo \<ge> hi")
    case True
    then show ?thesis by (subst sort_arrays.simps) simp
  next
    case False
    define m where "m = (lo + hi) div 2"
    have m: "lo \<le> m" "m < hi" using False by (auto simp: m_def)
    have mb: "0 \<le> m" "m < int (length ks)" using m less.prems by auto
    have "\<exists>ks' vs' j'. sort_partition c (ks ! nat m) ks vs (lo - 1) (hi + 1) = Some (ks', vs', j') \<and>
           lo \<le> j' \<and> j' < hi \<and> length ks' = length ks \<and> length vs' = length vs"
    proof (rule sort_partition_ok[OF less.prems(1) less.prems(2) less.prems(3)])
      show "lo - 1 \<le> lo - 1" by simp
      show "lo - 1 < hi + 1" using False by simp
      show "hi + 1 \<le> hi + 1" by simp
      show "\<exists>a. lo - 1 < a \<and> a \<le> hi \<and> a \<le> hi + 1 \<and> \<not> c (ks ! nat a) (ks ! nat m) < 0"
        using m refl by (intro exI[of _ m]) simp
      show "\<exists>b. lo \<le> b \<and> b < hi + 1 \<and> lo - 1 \<le> b \<and> \<not> c (ks ! nat b) (ks ! nat m) > 0"
        using m refl by (intro exI[of _ m]) simp
      show "hi + 1 \<le> hi \<or> (\<exists>a. lo - 1 < a \<and> a < hi \<and> \<not> c (ks ! nat a) (ks ! nat m) < 0)"
        using m refl by (intro disjI2 exI[of _ m]) simp
    qed
    then obtain ks1 vs1 j1 where
      p: "sort_partition c (ks ! nat m) ks vs (lo - 1) (hi + 1) = Some (ks1, vs1, j1)"
      and j1: "lo \<le> j1" "j1 < hi" and l1: "length ks1 = length ks" "length vs1 = length vs"
      by blast
    have m1: "nat (j1 - lo) < nat (hi - lo)" using j1 by simp
    from less.hyps[OF m1, of vs1 ks1] less.prems j1 l1
    obtain ks2 vs2 where s1: "sort_arrays c ks1 vs1 lo j1 = Some (ks2, vs2)"
      and l2: "length ks2 = length ks" "length vs2 = length vs" by auto
    have m2: "nat (hi - (j1 + 1)) < nat (hi - lo)" using j1 by simp
    from less.hyps[OF m2, of vs2 ks2] less.prems j1 l2
    obtain ks3 vs3 where s2: "sort_arrays c ks2 vs2 (j1 + 1) hi = Some (ks3, vs3)"
      and l3: "length ks3 = length ks" "length vs3 = length vs" by auto
    show ?thesis using False mb p s1 s2 l3
      by (subst sort_arrays.simps) (simp add: m_def)
  qed
qed

lemma load_ok:
  assumes "tsize t = 0"
    and "presort \<longrightarrow> length vs = length ks \<and> valid_comparator (comparator t)"
  shows "\<exists>t'. load ks vs presort t = Some (Inr (), t')"
proof (cases presort)
  case False
  with load_sorted_ok[OF assms(1), of ks vs] show ?thesis by auto
next
  case True
  with assms(2) have l: "length vs = length ks" and vc: "valid_comparator (comparator t)"
    by simp_all
  have "hi < int (length ks) \<Longrightarrow> \<exists>ks' vs'. sort_arrays (comparator t) ks vs 0 hi = Some (ks', vs') \<and>
       length ks' = length ks \<and> length vs' = length vs" for hi
    by (rule sort_arrays_ok[OF vc_refl[OF vc] l]) simp_all
  from this[of "int (length ks) - 1"]
  obtain ks1 vs1 where s: "sort_arrays (comparator t) ks vs 0 (int (length ks) - 1) = Some (ks1, vs1)"
    and l1: "length ks1 = length ks" by auto
  from loadRecursive_ok[of "length ks" ks1 None vs1 0 "heap t" "fresh t"] l1
  obtain rt s1 T where lr: "loadRecursive None ks1 vs1 0 (length ks) (heap t) (fresh t) =
       Some (rt, s1, fresh t + length ks)"
    and it: "is_tree s1 None rt T" and d: "distinct (nodes T)"
    by auto
  from markBalance_ok[OF it d] obtain s2 where mb: "markBalance rt s1 = Some (hgt T, s2)"
    by blast
  show ?thesis using assms(1) True s lr mb by (simp add: load_def)
qed

subsection \<open>Deletion\<close>

lemma erase_notin: "x \<notin> set (nodes t) \<Longrightarrow> erase x t = t"
  by (induction t) auto

lemma is_leaf_in: "is_leaf x t \<Longrightarrow> x \<in> set (nodes t)"
  by (induction t) (auto split: if_splits)

lemma nodes_erase:
  "is_leaf x t \<Longrightarrow> distinct (nodes t) \<Longrightarrow> nodes (erase x t) = remove1 x (nodes t)"
proof (induction t)
  case Tip
  then show ?case by simp
next
  case (Nd l a r)
  show ?case
  proof (cases "a = x")
    case True
    with Nd.prems show ?thesis by simp
  next
    case False
    from Nd.prems have d: "distinct (nodes l)" "distinct (nodes r)"
      "set (nodes l) \<inter> set (nodes r) = {}" by auto
    from Nd.prems False have "is_leaf x l \<or> is_leaf x r" by simp
    then show ?thesis
    proof
      assume l: "is_leaf x l"
      then have "x \<in> set (nodes l)" by (rule is_leaf_in)
      with d have "x \<notin> set (nodes r)" by auto
      with Nd.IH(1)[OF l d(1)] False \<open>x \<in> set (nodes l)\<close> show ?thesis
        by (simp add: erase_notin remove1_append)
    next
      assume r: "is_leaf x r"
      then have "x \<in> set (nodes r)" by (rule is_leaf_in)
      with d have "x \<notin> set (nodes l)" by auto
      with Nd.IH(2)[OF r d(2)] False \<open>x \<in> set (nodes r)\<close> show ?thesis
        by (simp add: erase_notin remove1_append)
    qed
  qed
qed

lemma erase_plug:
  "x \<notin> set (ctx_pre fs @ ctx_post fs) \<Longrightarrow> erase x (plug fs t) = plug fs (erase x t)"
proof (induction fs arbitrary: t)
  case Nil
  show ?case by simp
next
  case (Cons f fs)
  then show ?case by (cases f) (auto simp: erase_notin)
qed

lemma is_leaf_plug:
  "is_leaf x t \<Longrightarrow> distinct (nodes (plug fs t)) \<Longrightarrow> is_leaf x (plug fs t)"
proof (induction fs arbitrary: t)
  case Nil
  then show ?case by simp
next
  case (Cons f fs)
  from Cons.prems(1) have xt: "x \<in> set (nodes t)" by (rule is_leaf_in)
  show ?case
  proof (cases f)
    case (InL a r)
    from Cons.prems(2) InL have "distinct (nodes (plug fs (Nd t a r)))" by simp
    moreover from this xt have "a \<noteq> x" by (auto simp: nodes_plug)
    ultimately show ?thesis using Cons.IH[of "Nd t a r"] Cons.prems(1) InL by simp
  next
    case (InR l a)
    from Cons.prems(2) InR have "distinct (nodes (plug fs (Nd l a t)))" by simp
    moreover from this xt have "a \<noteq> x" by (auto simp: nodes_plug)
    ultimately show ?thesis using Cons.IH[of "Nd l a t"] Cons.prems(1) InR by simp
  qed
qed

text \<open>Unlinking a leaf: the child link of its parent is cleared.\<close>

lemma unlink_leaf:
  assumes "is_tree s par p t" "x \<in> set (nodes t) \<longrightarrow> is_leaf x t" "distinct (nodes t)"
    and "\<And>y. y \<in> set (nodes t) \<Longrightarrow> y \<noteq> x \<Longrightarrow> parent_of s' y = parent_of s y \<and>
           left_of s' y = (if left_of s y = Some x then None else left_of s y) \<and>
           right_of s' y = (if right_of s y = Some x then None else right_of s y)"
  shows "is_tree s' par (if p = Some x then None else p) (erase x t)"
  using assms
proof (induction t arbitrary: par p)
  case Tip
  then show ?case by simp
next
  case (Nd l a r)
  show ?case
  proof (cases "a = x")
    case True
    with Nd.prems show ?thesis by simp
  next
    case False
    from Nd.prems(1) have p: "p = Some a" and pa: "parent_of s a = par"
      and l: "is_tree s (Some a) (left_of s a) l"
      and r: "is_tree s (Some a) (right_of s a) r" by auto
    from Nd.prems(3) have d: "distinct (nodes l)" "distinct (nodes r)"
      "set (nodes l) \<inter> set (nodes r) = {}" by auto
    have a': "parent_of s' a = par"
      "left_of s' a = (if left_of s a = Some x then None else left_of s a)"
      "right_of s' a = (if right_of s a = Some x then None else right_of s a)"
      using Nd.prems(4)[of a] pa False by auto
    from Nd.prems(2) False d have lf: "x \<in> set (nodes l) \<longrightarrow> is_leaf x l"
      "x \<in> set (nodes r) \<longrightarrow> is_leaf x r"
      by (auto dest: is_leaf_in)
    have L: "is_tree s' (Some a) (left_of s' a) (erase x l)"
      unfolding a' by (rule Nd.IH(1)[OF l lf(1) d(1)]) (use Nd.prems(4) in auto)
    have R: "is_tree s' (Some a) (right_of s' a) (erase x r)"
      unfolding a' by (rule Nd.IH(2)[OF r lf(2) d(2)]) (use Nd.prems(4) in auto)
    from L R a' False p show ?thesis by simp
  qed
qed

lemma plug_append: "plug (fs1 @ fs2) t = plug fs2 (plug fs1 t)"
  by (induction fs1 t rule: plug.induct) auto

lemma copy_entry_reads [simp]:
  "left_of (copy_entry n m s) y = left_of s y"
  "right_of (copy_entry n m s) y = right_of s y"
  "parent_of (copy_entry n m s) y = parent_of s y"
  "bf_of (copy_entry n m s) y = bf_of s y"
  by (simp_all add: copy_entry_def Let_def)

lemma copy_entry_entry:
  "entry_of (copy_entry n m s) y = (if y = n then entry_of s m else entry_of s y)"
  by (simp add: copy_entry_def entry_of_def Let_def)

lemma same_links_refl [simp]: "same_links s s"
  by (simp add: same_links_def)

lemma same_links_copy: "same_links (copy_entry n m s) s' = same_links s s'"
  by (simp add: same_links_def)

lemma same_links_trans: "same_links s'' s' \<Longrightarrow> same_links s' s \<Longrightarrow> same_links s'' s"
  by (simp add: same_links_def)

lemma is_tree_same_links: "same_links s' s \<Longrightarrow> is_tree s' par p t = is_tree s par p t"
  by (rule is_tree_cong) (simp add: same_links_def)

lemma delete_max_loop_unfold:
  "delete_max_loop s node mx =
     (if left_of s mx \<noteq> None \<or> right_of s mx \<noteq> None then delete_max_body s node mx
      else Some (s, node, mx))"
  by (subst delete_max_loop.simps) (simp add: delete_max_body_def copy_entry_def Let_def cong: option.case_cong)

lemma delete_min_loop_unfold:
  "delete_min_loop s node mn =
     (if left_of s mn \<noteq> None \<or> right_of s mn \<noteq> None then delete_min_body s node mn
      else Some (s, node, mn))"
  by (subst delete_min_loop.simps) (simp add: delete_min_body_def copy_entry_def Let_def cong: option.case_cong)

lemma delete_max_body_ok:
  assumes "is_tree s par (Some m) M" "distinct (n # nodes M)"
  shows "\<exists>s' n' x fsi. delete_max_body s n m = Some (s', n', x) \<and>
     plug fsi (Nd Tip x Tip) = M \<and> same_links (copy_entry n' x s') s \<and>
     map (entry_of (copy_entry n' x s')) (remove1 x (nodes M) @ [n]) = map (entry_of s) (nodes M) \<and>
     (\<forall>y. y \<notin> set (nodes M) \<and> y \<noteq> n \<longrightarrow> entry_of (copy_entry n' x s') y = entry_of s y)"
  using assms
proof (induction M arbitrary: s par m n)
  case Tip
  then show ?case by simp
next
  case (Nd l a r)
  from Nd.prems(1) have m: "m = a" and pa: "parent_of s a = par"
    and tl: "is_tree s (Some a) (left_of s a) l"
    and tr: "is_tree s (Some a) (right_of s a) r" by auto
  from Nd.prems(2) have d: "distinct (nodes l)" "distinct (nodes r)"
    "set (nodes l) \<inter> set (nodes r) = {}" "a \<notin> set (nodes l)" "a \<notin> set (nodes r)"
    "n \<notin> set (nodes l)" "n \<notin> set (nodes r)" "n \<noteq> a" by auto
  show ?case
  proof (cases r)
    case (Nd rl b rr)
    with tr have rb: "right_of s a = Some b" and tb: "is_tree s (Some a) (Some b) r" by auto
    have body: "delete_max_body s n a = delete_max_body s n b"
      unfolding delete_max_body_def by (subst rightmost.simps) (simp add: rb)
    have "distinct (n # nodes r)" using d by simp
    from Nd.IH(2)[OF tb this] obtain s' n' x fsi where
      res: "delete_max_body s n b = Some (s', n', x)"
      and pl: "plug fsi (Nd Tip x Tip) = r"
      and sl: "same_links (copy_entry n' x s') s"
      and en: "map (entry_of (copy_entry n' x s')) (remove1 x (nodes r) @ [n]) = map (entry_of s) (nodes r)"
      and ot: "\<forall>y. y \<notin> set (nodes r) \<and> y \<noteq> n \<longrightarrow> entry_of (copy_entry n' x s') y = entry_of s y"
      by blast
    from pl have xr: "x \<in> set (nodes r)" using nodes_plug[of fsi "Nd Tip x Tip"] by auto
    with d have xl: "x \<notin> set (nodes l)" "x \<noteq> a" by auto
    have rm: "remove1 x (nodes (Nd l a r)) = nodes l @ a # remove1 x (nodes r)"
      using xl by (simp add: remove1_append)
    have e1: "map (entry_of (copy_entry n' x s')) (nodes l) = map (entry_of s) (nodes l)"
      using ot d by (intro map_cong) auto
    have e2: "entry_of (copy_entry n' x s') a = entry_of s a"
      using ot d by auto
    have "plug (fsi @ [InR l a]) (Nd Tip x Tip) = Nd l a r"
      by (simp add: plug_append pl)
    moreover have "map (entry_of (copy_entry n' x s')) (remove1 x (nodes (Nd l a r)) @ [n]) =
       map (entry_of s) (nodes (Nd l a r))"
      unfolding rm using en e1 e2 by simp
    moreover have "\<forall>y. y \<notin> set (nodes (Nd l a r)) \<and> y \<noteq> n \<longrightarrow>
       entry_of (copy_entry n' x s') y = entry_of s y"
      using ot by auto
    ultimately show ?thesis unfolding m body res using sl
      by (intro exI[of _ s'] exI[of _ n'] exI[of _ x] exI[of _ "fsi @ [InR l a]"] conjI refl)
  next
    case Tip
    with tr have ra: "right_of s a = None" by simp
    have rm: "rightmost s a = Some a"
      by (subst rightmost.simps) (simp add: ra)
    define s2 where "s2 = copy_entry n a s"
    show ?thesis
    proof (cases l)
      case Tip
      with tl have la: "left_of s a = None" by simp
      have body: "delete_max_body s n a = Some (s2, n, a)"
        unfolding delete_max_body_def
        by (simp add: rm Let_def la delete_max_loop_unfold ra s2_def)
      have "plug [] (Nd Tip a Tip) = Nd l a r" using Tip \<open>r = Tip\<close> by simp
      moreover have "same_links (copy_entry n a s2) s" by (simp add: s2_def same_links_def)
      moreover have "map (entry_of (copy_entry n a s2)) (remove1 a (nodes (Nd l a r)) @ [n])
        = map (entry_of s) (nodes (Nd l a r))"
        using Tip \<open>r = Tip\<close> d by (simp add: s2_def copy_entry_entry)
      moreover have "\<forall>y. y \<notin> set (nodes (Nd l a r)) \<and> y \<noteq> n \<longrightarrow>
         entry_of (copy_entry n a s2) y = entry_of s y"
        by (simp add: s2_def copy_entry_entry)
      ultimately show ?thesis unfolding m body
        by (intro exI[of _ s2] exI[of _ n] exI[of _ a] exI[of _ "[]"] conjI refl)
    next
      case (Nd ll b lr)
      with tl have lb: "left_of s a = Some b" and tb: "is_tree s (Some a) (Some b) l"
        and bl: "left_of s b = ptr ll" "right_of s b = ptr lr"
        by (auto dest: is_tree_ptr)
      have tb2: "is_tree s2 (Some a) (Some b) l"
        using tb is_tree_same_links[of s2 s "Some a" "Some b" l]
        by (simp add: s2_def same_links_def)
      have body: "delete_max_body s n a = delete_max_loop s2 a b"
        unfolding delete_max_body_def by (simp add: rm s2_def[symmetric] Let_def) (simp add: s2_def lb)
      have e2: "\<And>y. entry_of s2 y = (if y = n then entry_of s a else entry_of s y)"
        by (simp add: s2_def copy_entry_entry)
      have "\<exists>s' n' x fsi. delete_max_loop s2 a b = Some (s', n', x) \<and>
         plug fsi (Nd Tip x Tip) = l \<and> same_links (copy_entry n' x s') s2 \<and>
         map (entry_of (copy_entry n' x s')) (remove1 x (nodes l) @ [a]) = map (entry_of s2) (nodes l) \<and>
         (\<forall>y. y \<notin> set (nodes l) \<and> y \<noteq> a \<longrightarrow> entry_of (copy_entry n' x s') y = entry_of s2 y)"
      proof (cases "ll = Tip \<and> lr = Tip")
        case True
        with bl have "delete_max_loop s2 a b = Some (s2, a, b)"
          by (simp add: delete_max_loop_unfold s2_def)
        moreover have "plug [] (Nd Tip b Tip) = l" using True Nd by simp
        moreover have "map (entry_of (copy_entry a b s2)) (remove1 b (nodes l) @ [a]) = map (entry_of s2) (nodes l)"
          using True Nd d by (simp add: copy_entry_entry)
        ultimately show ?thesis
          by (intro exI[of _ s2] exI[of _ a] exI[of _ b] exI[of _ "[]"])
            (simp add: copy_entry_entry same_links_def)
      next
        case False
        with bl have "left_of s2 b \<noteq> None \<or> right_of s2 b \<noteq> None"
          by (cases ll; cases lr) (auto simp: s2_def)
        then have "delete_max_loop s2 a b = delete_max_body s2 a b"
          by (simp add: delete_max_loop_unfold)
        moreover have "distinct (a # nodes l)" using d by simp
        ultimately show ?thesis using Nd.IH(1)[OF tb2, of a] by simp
      qed
      then obtain s' n' x fsi where
        res: "delete_max_loop s2 a b = Some (s', n', x)"
        and pl: "plug fsi (Nd Tip x Tip) = l"
        and sl: "same_links (copy_entry n' x s') s2"
        and en: "map (entry_of (copy_entry n' x s')) (remove1 x (nodes l) @ [a]) = map (entry_of s2) (nodes l)"
        and ot: "\<forall>y. y \<notin> set (nodes l) \<and> y \<noteq> a \<longrightarrow> entry_of (copy_entry n' x s') y = entry_of s2 y"
        by blast
      from pl have xl: "x \<in> set (nodes l)" using nodes_plug[of fsi "Nd Tip x Tip"] by auto
      have rmv: "remove1 x (nodes (Nd l a r)) = remove1 x (nodes l) @ [a]"
        using xl \<open>r = Tip\<close> by (simp add: remove1_append)
      have e3: "map (entry_of s2) (nodes l) = map (entry_of s) (nodes l)"
        using d by (intro map_cong) (auto simp: e2)
      have e4: "entry_of (copy_entry n' x s') n = entry_of s a"
        using ot d by (simp add: e2)
      have "plug (fsi @ [InL a Tip]) (Nd Tip x Tip) = Nd l a r"
        using \<open>r = Tip\<close> by (simp add: plug_append pl)
      moreover have "same_links (copy_entry n' x s') s"
        using sl by (simp add: s2_def same_links_def)
      moreover have "map (entry_of (copy_entry n' x s')) (remove1 x (nodes (Nd l a r)) @ [n])
        = map (entry_of s) (nodes (Nd l a r))"
        unfolding rmv using en e3 e4 \<open>r = Tip\<close> by simp
      moreover have "\<forall>y. y \<notin> set (nodes (Nd l a r)) \<and> y \<noteq> n \<longrightarrow>
         entry_of (copy_entry n' x s') y = entry_of s y"
        using ot by (auto simp: e2)
      ultimately show ?thesis unfolding m body res
        by (intro exI[of _ s'] exI[of _ n'] exI[of _ x] exI[of _ "fsi @ [InL a Tip]"] conjI refl)
    qed
  qed
qed

lemma delete_min_body_ok:
  assumes "is_tree s par (Some m) M" "distinct (n # nodes M)"
  shows "\<exists>s' n' x fsi. delete_min_body s n m = Some (s', n', x) \<and>
     plug fsi (Nd Tip x Tip) = M \<and> same_links (copy_entry n' x s') s \<and>
     map (entry_of (copy_entry n' x s')) (n # remove1 x (nodes M)) = map (entry_of s) (nodes M) \<and>
     (\<forall>y. y \<notin> set (nodes M) \<and> y \<noteq> n \<longrightarrow> entry_of (copy_entry n' x s') y = entry_of s y)"
  using assms
proof (induction M arbitrary: s par m n)
  case Tip
  then show ?case by simp
next
  case (Nd l a r)
  from Nd.prems(1) have m: "m = a" and pa: "parent_of s a = par"
    and tl: "is_tree s (Some a) (left_of s a) l"
    and tr: "is_tree s (Some a) (right_of s a) r" by auto
  from Nd.prems(2) have d: "distinct (nodes l)" "distinct (nodes r)"
    "set (nodes l) \<inter> set (nodes r) = {}" "a \<notin> set (nodes l)" "a \<notin> set (nodes r)"
    "n \<notin> set (nodes l)" "n \<notin> set (nodes r)" "n \<noteq> a" by auto
  show ?case
  proof (cases l)
    case (Nd ll b lr)
    with tl have lb: "left_of s a = Some b" and tb: "is_tree s (Some a) (Some b) l" by auto
    have body: "delete_min_body s n a = delete_min_body s n b"
      unfolding delete_min_body_def by (subst leftmost.simps) (simp add: lb)
    have "distinct (n # nodes l)" using d by simp
    from Nd.IH(1)[OF tb this] obtain s' n' x fsi where
      res: "delete_min_body s n b = Some (s', n', x)"
      and pl: "plug fsi (Nd Tip x Tip) = l"
      and sl: "same_links (copy_entry n' x s') s"
      and en: "map (entry_of (copy_entry n' x s')) (n # remove1 x (nodes l)) = map (entry_of s) (nodes l)"
      and ot: "\<forall>y. y \<notin> set (nodes l) \<and> y \<noteq> n \<longrightarrow> entry_of (copy_entry n' x s') y = entry_of s y"
      by blast
    from pl have xl: "x \<in> set (nodes l)" using nodes_plug[of fsi "Nd Tip x Tip"] by auto
    have rm: "remove1 x (nodes (Nd l a r)) = remove1 x (nodes l) @ a # nodes r"
      using xl by (simp add: remove1_append)
    have e1: "map (entry_of (copy_entry n' x s')) (nodes r) = map (entry_of s) (nodes r)"
      using ot d by (intro map_cong) auto
    have e2: "entry_of (copy_entry n' x s') a = entry_of s a"
      using ot d by auto
    have "plug (fsi @ [InL a r]) (Nd Tip x Tip) = Nd l a r"
      by (simp add: plug_append pl)
    moreover have "map (entry_of (copy_entry n' x s')) (n # remove1 x (nodes (Nd l a r))) =
       map (entry_of s) (nodes (Nd l a r))"
    proof -
      have "map (entry_of (copy_entry n' x s')) (n # remove1 x (nodes l) @ a # nodes r) =
        map (entry_of (copy_entry n' x s')) (n # remove1 x (nodes l)) @
        entry_of (copy_entry n' x s') a # map (entry_of (copy_entry n' x s')) (nodes r)"
        by simp
      also have "\<dots> = map (entry_of s) (nodes l) @ entry_of s a # map (entry_of s) (nodes r)"
        by (simp only: en e1 e2)
      finally show ?thesis unfolding rm by simp
    qed
    moreover have "\<forall>y. y \<notin> set (nodes (Nd l a r)) \<and> y \<noteq> n \<longrightarrow>
       entry_of (copy_entry n' x s') y = entry_of s y"
      using ot by auto
    ultimately show ?thesis unfolding m body res using sl
      by (intro exI[of _ s'] exI[of _ n'] exI[of _ x] exI[of _ "fsi @ [InL a r]"] conjI refl)
  next
    case Tip
    with tl have la: "left_of s a = None" by simp
    have rm: "leftmost s a = Some a"
      by (subst leftmost.simps) (simp add: la)
    define s2 where "s2 = copy_entry n a s"
    show ?thesis
    proof (cases r)
      case Tip
      with tr have ra: "right_of s a = None" by simp
      have body: "delete_min_body s n a = Some (s2, n, a)"
        unfolding delete_min_body_def
        by (simp add: rm Let_def la delete_min_loop_unfold ra s2_def)
      have "plug [] (Nd Tip a Tip) = Nd l a r" using Tip \<open>l = Tip\<close> by simp
      moreover have "same_links (copy_entry n a s2) s" by (simp add: s2_def same_links_def)
      moreover have "map (entry_of (copy_entry n a s2)) (n # remove1 a (nodes (Nd l a r)))
        = map (entry_of s) (nodes (Nd l a r))"
        using Tip \<open>l = Tip\<close> d by (simp add: s2_def copy_entry_entry)
      moreover have "\<forall>y. y \<notin> set (nodes (Nd l a r)) \<and> y \<noteq> n \<longrightarrow>
         entry_of (copy_entry n a s2) y = entry_of s y"
        by (simp add: s2_def copy_entry_entry)
      ultimately show ?thesis unfolding m body
        by (intro exI[of _ s2] exI[of _ n] exI[of _ a] exI[of _ "[]"] conjI refl)
    next
      case (Nd rl b rr)
      with tr have rb: "right_of s a = Some b" and tb: "is_tree s (Some a) (Some b) r"
        and bl: "left_of s b = ptr rl" "right_of s b = ptr rr"
        by (auto dest: is_tree_ptr)
      have tb2: "is_tree s2 (Some a) (Some b) r"
        using tb is_tree_same_links[of s2 s "Some a" "Some b" r]
        by (simp add: s2_def same_links_def)
      have body: "delete_min_body s n a = delete_min_loop s2 a b"
        unfolding delete_min_body_def by (simp add: rm s2_def[symmetric] Let_def) (simp add: s2_def rb)
      have e2: "\<And>y. entry_of s2 y = (if y = n then entry_of s a else entry_of s y)"
        by (simp add: s2_def copy_entry_entry)
      have "\<exists>s' n' x fsi. delete_min_loop s2 a b = Some (s', n', x) \<and>
         plug fsi (Nd Tip x Tip) = r \<and> same_links (copy_entry n' x s') s2 \<and>
         map (entry_of (copy_entry n' x s')) (a # remove1 x (nodes r)) = map (entry_of s2) (nodes r) \<and>
         (\<forall>y. y \<notin> set (nodes r) \<and> y \<noteq> a \<longrightarrow> entry_of (copy_entry n' x s') y = entry_of s2 y)"
      proof (cases "rl = Tip \<and> rr = Tip")
        case True
        with bl have "delete_min_loop s2 a b = Some (s2, a, b)"
          by (simp add: delete_min_loop_unfold s2_def)
        moreover have "plug [] (Nd Tip b Tip) = r" using True Nd by simp
        moreover have "map (entry_of (copy_entry a b s2)) (a # remove1 b (nodes r)) = map (entry_of s2) (nodes r)"
          using True Nd d by (simp add: copy_entry_entry)
        ultimately show ?thesis
          by (intro exI[of _ s2] exI[of _ a] exI[of _ b] exI[of _ "[]"])
            (simp add: copy_entry_entry same_links_def)
      next
        case False
        with bl have "left_of s2 b \<noteq> None \<or> right_of s2 b \<noteq> None"
          by (cases rl; cases rr) (auto simp: s2_def)
        then have "delete_min_loop s2 a b = delete_min_body s2 a b"
          by (simp add: delete_min_loop_unfold)
        moreover have "distinct (a # nodes r)" using d by simp
        ultimately show ?thesis using Nd.IH(2)[OF tb2, of a] by simp
      qed
      then obtain s' n' x fsi where
        res: "delete_min_loop s2 a b = Some (s', n', x)"
        and pl: "plug fsi (Nd Tip x Tip) = r"
        and sl: "same_links (copy_entry n' x s') s2"
        and en: "map (entry_of (copy_entry n' x s')) (a # remove1 x (nodes r)) = map (entry_of s2) (nodes r)"
        and ot: "\<forall>y. y \<notin> set (nodes r) \<and> y \<noteq> a \<longrightarrow> entry_of (copy_entry n' x s') y = entry_of s2 y"
        by blast
      from pl have xr: "x \<in> set (nodes r)" using nodes_plug[of fsi "Nd Tip x Tip"] by auto
      with d have xa: "x \<noteq> a" by auto
      have rmv: "remove1 x (nodes (Nd l a r)) = a # remove1 x (nodes r)"
        using xa \<open>l = Tip\<close> by simp
      have e3: "map (entry_of s2) (nodes r) = map (entry_of s) (nodes r)"
        using d by (intro map_cong) (auto simp: e2)
      have e4: "entry_of (copy_entry n' x s') n = entry_of s a"
        using ot d by (simp add: e2)
      have "plug (fsi @ [InR Tip a]) (Nd Tip x Tip) = Nd l a r"
        using \<open>l = Tip\<close> by (simp add: plug_append pl)
      moreover have "same_links (copy_entry n' x s') s"
        using sl by (simp add: s2_def same_links_def)
      moreover have "map (entry_of (copy_entry n' x s')) (n # remove1 x (nodes (Nd l a r)))
        = map (entry_of s) (nodes (Nd l a r))"
        unfolding rmv using en e3 e4 \<open>l = Tip\<close> by simp
      moreover have "\<forall>y. y \<notin> set (nodes (Nd l a r)) \<and> y \<noteq> n \<longrightarrow>
         entry_of (copy_entry n' x s') y = entry_of s y"
        using ot by (auto simp: e2)
      ultimately show ?thesis unfolding m body res
        by (intro exI[of _ s'] exI[of _ n'] exI[of _ x] exI[of _ "fsi @ [InR Tip a]"] conjI refl)
    qed
  qed
qed

lemma delete_max_loop_ok:
  assumes "is_tree s par (Some m) M" "distinct (n # nodes M)"
  shows "\<exists>s' n' x fsi. delete_max_loop s n m = Some (s', n', x) \<and>
     plug fsi (Nd Tip x Tip) = M \<and> same_links (copy_entry n' x s') s \<and>
     map (entry_of (copy_entry n' x s')) (remove1 x (nodes M) @ [n]) = map (entry_of s) (nodes M) \<and>
     (\<forall>y. y \<notin> set (nodes M) \<and> y \<noteq> n \<longrightarrow> entry_of (copy_entry n' x s') y = entry_of s y)"
proof (cases M)
  case Tip
  with assms show ?thesis by simp
next
  case (Nd l b r)
  with assms have m: "m = b" and bl: "left_of s b = ptr l" "right_of s b = ptr r"
    by (auto dest: is_tree_ptr)
  show ?thesis
  proof (cases "l = Tip \<and> r = Tip")
    case True
    with bl have "delete_max_loop s n b = Some (s, n, b)"
      by (simp add: delete_max_loop_unfold)
    moreover have "plug [] (Nd Tip b Tip) = M" using True Nd by simp
    moreover have "map (entry_of (copy_entry n b s)) (remove1 b (nodes M) @ [n]) = map (entry_of s) (nodes M)"
      using True Nd assms(2) by (simp add: copy_entry_entry)
    ultimately show ?thesis unfolding m
      by (intro exI[of _ s] exI[of _ n] exI[of _ b] exI[of _ "[]"])
        (simp add: copy_entry_entry same_links_def)
  next
    case False
    with bl have "left_of s b \<noteq> None \<or> right_of s b \<noteq> None"
      by (cases l; cases r) auto
    then have "delete_max_loop s n b = delete_max_body s n b"
      by (simp add: delete_max_loop_unfold)
    then show ?thesis using delete_max_body_ok[OF assms] m by simp
  qed
qed

lemma delete_min_loop_ok:
  assumes "is_tree s par (Some m) M" "distinct (n # nodes M)"
  shows "\<exists>s' n' x fsi. delete_min_loop s n m = Some (s', n', x) \<and>
     plug fsi (Nd Tip x Tip) = M \<and> same_links (copy_entry n' x s') s \<and>
     map (entry_of (copy_entry n' x s')) (n # remove1 x (nodes M)) = map (entry_of s) (nodes M) \<and>
     (\<forall>y. y \<notin> set (nodes M) \<and> y \<noteq> n \<longrightarrow> entry_of (copy_entry n' x s') y = entry_of s y)"
proof (cases M)
  case Tip
  with assms show ?thesis by simp
next
  case (Nd l b r)
  with assms have m: "m = b" and bl: "left_of s b = ptr l" "right_of s b = ptr r"
    by (auto dest: is_tree_ptr)
  show ?thesis
  proof (cases "l = Tip \<and> r = Tip")
    case True
    with bl have "delete_min_loop s n b = Some (s, n, b)"
      by (simp add: delete_min_loop_unfold)
    moreover have "plug [] (Nd Tip b Tip) = M" using True Nd by simp
    moreover have "map (entry_of (copy_entry n b s)) (n # remove1 b (nodes M)) = map (entry_of s) (nodes M)"
      using True Nd assms(2) by (simp add: copy_entry_entry)
    ultimately show ?thesis unfolding m
      by (intro exI[of _ s] exI[of _ n] exI[of _ b] exI[of _ "[]"])
        (simp add: copy_entry_entry same_links_def)
  next
    case False
    with bl have "left_of s b \<noteq> None \<or> right_of s b \<noteq> None"
      by (cases l; cases r) auto
    then have "delete_min_loop s n b = delete_min_body s n b"
      by (simp add: delete_min_loop_unfold)
    then show ?thesis using delete_min_body_ok[OF assms] m by simp
  qed
qed

lemma in_nodes_plug: "a \<in> set (nodes t) \<Longrightarrow> \<exists>fs l r. t = plug fs (Nd l a r)"
proof (induction t)
  case Tip
  then show ?case by simp
next
  case (Nd l b r)
  show ?case
  proof (cases "a = b")
    case True
    then have "Nd l b r = plug [] (Nd l a r)" by simp
    then show ?thesis by blast
  next
    case False
    with Nd.prems have "a \<in> set (nodes l) \<or> a \<in> set (nodes r)" by auto
    then show ?thesis
    proof
      assume "a \<in> set (nodes l)"
      from Nd.IH(1)[OF this] obtain fs l' r' where "l = plug fs (Nd l' a r')" by blast
      then have "Nd l b r = plug (fs @ [InL b r]) (Nd l' a r')" by (simp add: plug_append)
      then show ?thesis by blast
    next
      assume "a \<in> set (nodes r)"
      from Nd.IH(2)[OF this] obtain fs l' r' where "r = plug fs (Nd l' a r')" by blast
      then have "Nd l b r = plug (fs @ [InR l b]) (Nd l' a r')" by (simp add: plug_append)
      then show ?thesis by blast
    qed
  qed
qed

lemma is_leaf_plug_leaf:
  "distinct (nodes (plug fs (Nd Tip x Tip))) \<Longrightarrow> is_leaf x (plug fs (Nd Tip x Tip))"
  by (rule is_leaf_plug) simp_all

lemma delete_copy_ok:
  assumes t: "is_tree s None rt T" and d: "distinct (nodes T)" and a: "a \<in> set (nodes T)"
  shows "\<exists>s1 node1 s2 x fsx. delete_copy_left s a = Some (s1, node1) \<and>
     delete_copy_right s1 node1 = Some (s2, x) \<and> plug fsx (Nd Tip x Tip) = T \<and>
     same_links s2 s \<and>
     map (entry_of s2) (remove1 x (nodes T)) = map (entry_of s) (remove1 a (nodes T))"
proof -
  from in_nodes_plug[OF a] obtain fs l r where T: "T = plug fs (Nd l a r)" by blast
  from t have ta: "is_tree s (ctx_par fs) (Some a) (Nd l a r)"
    unfolding T by (simp add: is_tree_plug)
  then have tl: "is_tree s (Some a) (left_of s a) l" and tr: "is_tree s (Some a) (right_of s a) r"
    by auto
  from d have dd: "distinct (ctx_pre fs @ nodes l @ a # nodes r @ ctx_post fs)"
    unfolding T by (simp add: nodes_plug)
  have nT: "nodes T = ctx_pre fs @ nodes l @ a # nodes r @ ctx_post fs"
    unfolding T by (simp add: nodes_plug)
  have ra: "remove1 a (nodes T) = ctx_pre fs @ nodes l @ nodes r @ ctx_post fs"
    unfolding nT using dd by (simp add: remove1_append)
  show ?thesis
  proof (cases l)
    case (Nd ll b lr)
    with tl have lb: "left_of s a = Some b" and tb: "is_tree s (Some a) (Some b) l" by auto
    have "distinct (a # nodes l)" using dd by simp
    from delete_max_loop_ok[OF tb this] obtain s' n' x fsi where
      res: "delete_max_loop s a b = Some (s', n', x)"
      and pl: "plug fsi (Nd Tip x Tip) = l"
      and sl: "same_links (copy_entry n' x s') s"
      and en: "map (entry_of (copy_entry n' x s')) (remove1 x (nodes l) @ [a]) = map (entry_of s) (nodes l)"
      and ot: "\<forall>y. y \<notin> set (nodes l) \<and> y \<noteq> a \<longrightarrow> entry_of (copy_entry n' x s') y = entry_of s y"
      by blast
    define s1 where "s1 = copy_entry n' x s'"
    from pl have xl: "x \<in> set (nodes l)" using nodes_plug[of fsi "Nd Tip x Tip"] by auto
    have pT: "plug (fsi @ InL a r # fs) (Nd Tip x Tip) = T"
      by (simp add: plug_append pl T)
    have "is_tree s1 None rt T"
      using t sl is_tree_same_links[of s1 s] by (simp add: s1_def)
    then have "is_tree s1 (ctx_par (fsi @ InL a r # fs)) (Some x) (Nd Tip x Tip)"
      unfolding pT[symmetric] by (simp add: is_tree_plug)
    then have rx: "right_of s1 x = None" by simp
    have cl: "delete_copy_left s a = Some (s1, x)"
      by (simp add: delete_copy_left_def lb res s1_def copy_entry_def Let_def)
    have cr: "delete_copy_right s1 x = Some (s1, x)"
      by (simp add: delete_copy_right_def rx)
    have rx: "remove1 x (nodes T) = ctx_pre fs @ (remove1 x (nodes l) @ [a]) @ nodes r @ ctx_post fs"
      unfolding nT using dd xl by (auto simp add: remove1_append)
    have o1: "map (entry_of s1) (ctx_pre fs) = map (entry_of s) (ctx_pre fs)"
      "map (entry_of s1) (nodes r) = map (entry_of s) (nodes r)"
      "map (entry_of s1) (ctx_post fs) = map (entry_of s) (ctx_post fs)"
      using ot dd unfolding s1_def by (auto intro!: map_cong)
    have "map (entry_of s1) (remove1 x (nodes T)) =
      map (entry_of s1) (ctx_pre fs) @ map (entry_of s1) (remove1 x (nodes l) @ [a]) @
      map (entry_of s1) (nodes r) @ map (entry_of s1) (ctx_post fs)"
      unfolding rx by simp
    also have "\<dots> = map (entry_of s) (remove1 a (nodes T))"
      unfolding ra o1 en[folded s1_def] by simp
    finally have "map (entry_of s1) (remove1 x (nodes T)) = map (entry_of s) (remove1 a (nodes T))" .
    then show ?thesis using pT cl cr sl[folded s1_def] by blast
  next
    case Tip
    with tl have la: "left_of s a = None" by simp
    have cl: "delete_copy_left s a = Some (s, a)"
      by (simp add: delete_copy_left_def la)
    show ?thesis
    proof (cases r)
      case Tip
      with tr have "right_of s a = None" by simp
      then have cr: "delete_copy_right s a = Some (s, a)"
        by (simp add: delete_copy_right_def)
      have "plug fs (Nd Tip a Tip) = T" using Tip \<open>l = Tip\<close> T by simp
      then show ?thesis using cl cr by (intro exI[of _ s] exI[of _ a] exI[of _ fs]) simp
    next
      case (Nd rl b rr)
      with tr have rb: "right_of s a = Some b" and tb: "is_tree s (Some a) (Some b) r" by auto
      have "distinct (a # nodes r)" using dd by simp
      from delete_min_loop_ok[OF tb this] obtain s' n' x fsi where
        res: "delete_min_loop s a b = Some (s', n', x)"
        and pl: "plug fsi (Nd Tip x Tip) = r"
        and sl: "same_links (copy_entry n' x s') s"
        and en: "map (entry_of (copy_entry n' x s')) (a # remove1 x (nodes r)) = map (entry_of s) (nodes r)"
        and ot: "\<forall>y. y \<notin> set (nodes r) \<and> y \<noteq> a \<longrightarrow> entry_of (copy_entry n' x s') y = entry_of s y"
        by blast
      define s1 where "s1 = copy_entry n' x s'"
      from pl have xr: "x \<in> set (nodes r)" using nodes_plug[of fsi "Nd Tip x Tip"] by auto
      have pT: "plug (fsi @ InR l a # fs) (Nd Tip x Tip) = T"
        by (simp add: plug_append pl T)
      have cr: "delete_copy_right s a = Some (s1, x)"
        by (simp add: delete_copy_right_def rb res s1_def copy_entry_def Let_def)
      have rx: "remove1 x (nodes T) = ctx_pre fs @ (a # remove1 x (nodes r)) @ ctx_post fs"
        unfolding nT using dd xr \<open>l = Tip\<close> by (auto simp add: remove1_append)
      have o1: "map (entry_of s1) (ctx_pre fs) = map (entry_of s) (ctx_pre fs)"
        "map (entry_of s1) (ctx_post fs) = map (entry_of s) (ctx_post fs)"
        using ot dd unfolding s1_def by (auto intro!: map_cong)
      have "map (entry_of s1) (remove1 x (nodes T)) =
        map (entry_of s1) (ctx_pre fs) @ map (entry_of s1) (a # remove1 x (nodes r)) @
        map (entry_of s1) (ctx_post fs)"
        unfolding rx by simp
      also have "\<dots> = map (entry_of s) (remove1 a (nodes T))"
        unfolding ra o1 en[folded s1_def] using \<open>l = Tip\<close> by simp
      finally have "map (entry_of s1) (remove1 x (nodes T)) = map (entry_of s) (remove1 a (nodes T))" .
      then show ?thesis using pT cl cr sl[folded s1_def] by blast
    qed
  qed
qed

lemma nodes_erase_subset: "set (nodes (erase x t)) \<subseteq> set (nodes t)"
  by (induction t) auto

lemma finish_plug_erase:
  assumes "is_ctx s' rt' fs (ptr S')" "is_tree s' (ctx_par fs) (ptr S') S'"
    and "bf_ok s' E" "avl E" "ctx_ok s fs (hgt E)"
    and "\<And>x. x \<in> set (ctx_pre fs @ ctx_post fs) \<Longrightarrow> bf_of s' x = bf_of s x"
  shows "is_tree s' None rt' (plug fs S') \<and> bf_ok s' (plug fs E) \<and> avl (plug fs E)"
proof -
  have "ctx_ok s' fs (hgt E) = ctx_ok s fs (hgt E)"
    by (rule ctx_ok_cong) (use assms(6) in auto)
  with assms show ?thesis by (simp add: is_tree_plug bf_ok_plug)
qed

lemma delete_retrace_step_L:
  assumes ctx: "is_ctx s rt fs (Some a)"
    and tr: "is_tree s (ctx_par fs) (Some a) (Nd t a r)"
    and dist: "distinct (nodes (plug fs (Nd t a r)))"
    and xt: "is_leaf x t"
    and bft: "bf_ok s (erase x t)" "avl (erase x t)" and bfr: "bf_ok s r" "avl r"
    and bfa: "bf_of s a = hgt (erase x t) + 1 - hgt r" "\<bar>hgt (erase x t) + 1 - hgt r\<bar> \<le> 1"
    and cok: "ctx_ok s fs (1 + max (hgt (erase x t) + 1) (hgt r))"
  shows "(\<exists>s' rt' S'. delete_retrace (Some a) (ptr t) s rt = Some (s', rt') \<and>
            is_tree s' None rt' (plug fs S') \<and>
            bf_ok s' (plug fs (erase x S')) \<and> avl (plug fs (erase x S')) \<and>
            nodes S' = nodes (Nd t a r) \<and> is_leaf x S' \<and>
            (\<forall>y. key_of s' y = key_of s y \<and> val_of s' y = val_of s y))
       \<or> (\<exists>s1 rt1 S1. delete_retrace (Some a) (ptr t) s rt =
              delete_retrace (ctx_par fs) (ptr S1) s1 rt1 \<and>
            is_ctx s1 rt1 fs (ptr S1) \<and> is_tree s1 (ctx_par fs) (ptr S1) S1 \<and>
            nodes S1 = nodes (Nd t a r) \<and> is_leaf x S1 \<and>
            bf_ok s1 (erase x S1) \<and> avl (erase x S1) \<and> ctx_ok s1 fs (hgt (erase x S1) + 1) \<and>
            (\<forall>y. key_of s1 y = key_of s y \<and> val_of s1 y = val_of s y))"
proof -
  define e where "e = hgt (erase x t)"
  define s1 where "s1 = set_bf a (bf_of s a - 1) s"
  from dist have d: "distinct (ctx_pre fs @ (nodes t @ a # nodes r) @ ctx_post fs)"
    by (simp add: nodes_plug)
  from xt have xin: "x \<in> set (nodes t)" by (rule is_leaf_in)
  with d have xn: "x \<noteq> a" "x \<notin> set (nodes r)" by auto
  have e0: "e \<ge> 0" unfolding e_def by (rule hgt_nonneg)
  have la: "left_of s a = ptr t" using tr by (auto dest: is_tree_ptr)
  have b1: "bf_of s1 a = e - hgt r" using bfa by (simp add: s1_def e_def)
  have oth: "\<And>y. y \<noteq> a \<Longrightarrow> bf_of s1 y = bf_of s y" by (simp add: s1_def)
  have kv: "\<And>y. key_of s1 y = key_of s y \<and> val_of s1 y = val_of s y" by (simp add: s1_def)
  have ctx1: "is_ctx s1 rt fs (Some a)" using ctx by (simp add: s1_def)
  have tr1: "is_tree s1 (ctx_par fs) (Some a) (Nd t a r)" using tr by (simp add: s1_def)
  have bft1: "bf_ok s1 (erase x t)"
    using bft(1) d nodes_erase_subset[of x t]
    by (subst bf_ok_cong[of "erase x t" s1 s]) (auto intro!: oth)
  have bfr1: "bf_ok s1 r" using bfr(1) d by (subst bf_ok_cong[of r s1 s]) (auto intro!: oth)
  have cok1: "\<And>n. ctx_ok s1 fs n = ctx_ok s fs n"
    using d by (intro ctx_ok_cong) (auto intro!: oth)
  have pa1: "parent_of s1 a = ctx_par fs" using tr1 by simp
  have unf: "delete_retrace (Some a) (ptr t) s rt =
     (case (if bf_of s1 a < - 1 then rebalance_right_heavy a s1 rt
            else if bf_of s1 a > 1 then rebalance_left_heavy a s1 rt
            else (s1, rt, Some a)) of
        (s2, rt2, None) \<Rightarrow> delete_retrace None None s2 rt2
      | (s2, rt2, Some q) \<Rightarrow>
          if bf_of s2 q = - 1 \<or> bf_of s2 q = 1 then Some (s2, rt2)
          else delete_retrace (parent_of s2 q) (Some q) s2 rt2)"
    by (subst delete_retrace.simps) (simp add: delete_step_def la s1_def Let_def)
  have er: "erase x (Nd t a r) = Nd (erase x t) a r"
    using xn by (simp add: erase_notin)
  from bfa(2) consider (eq) "hgt r = e" | (one) "hgt r = e + 1" | (two) "hgt r = e + 2"
    unfolding e_def by linarith
  then show ?thesis
  proof cases
    case one
    have r: "delete_retrace (Some a) (ptr t) s rt = Some (s1, rt)" using unf b1 one by simp
    have "1 + max (hgt (erase x t) + 1) (hgt r) = hgt (Nd (erase x t) a r)"
      using one by (simp add: max_def e_def)
    with cok have co: "ctx_ok s fs (hgt (Nd (erase x t) a r))" by simp
    have "is_tree s1 None rt (plug fs (Nd t a r)) \<and> bf_ok s1 (plug fs (Nd (erase x t) a r)) \<and>
          avl (plug fs (Nd (erase x t) a r))"
    proof (rule finish_plug_erase[where s = s])
      show "is_ctx s1 rt fs (ptr (Nd t a r))" using ctx1 by simp
      show "is_tree s1 (ctx_par fs) (ptr (Nd t a r)) (Nd t a r)" using tr1 by simp
      show "bf_ok s1 (Nd (erase x t) a r)" using b1 bft1 bfr1 by (simp add: e_def)
      show "avl (Nd (erase x t) a r)" using bft(2) bfr(2) one by (simp add: e_def)
      show "ctx_ok s fs (hgt (Nd (erase x t) a r))" by (rule co)
      fix y assume "y \<in> set (ctx_pre fs @ ctx_post fs)"
      with d have "y \<noteq> a" by auto
      then show "bf_of s1 y = bf_of s y" by (rule oth)
    qed
    with r kv xt xn show ?thesis
      by (intro disjI1 exI[of _ s1] exI[of _ rt] exI[of _ "Nd t a r"]) (simp add: er del: erase.simps)
  next
    case eq
    have r: "delete_retrace (Some a) (ptr t) s rt =
        delete_retrace (ctx_par fs) (ptr (Nd t a r)) s1 rt"
      using unf b1 eq pa1 by simp
    have "1 + max (hgt (erase x t) + 1) (hgt r) = hgt (Nd (erase x t) a r) + 1"
      using eq by (simp add: max_def e_def)
    with cok have "ctx_ok s1 fs (hgt (erase x (Nd t a r)) + 1)" by (simp add: cok1 er del: erase.simps)
    moreover have "bf_ok s1 (erase x (Nd t a r))" using b1 bft1 bfr1 by (simp add: e_def er del: erase.simps)
    moreover have "avl (erase x (Nd t a r))" using bft(2) bfr(2) eq by (simp add: e_def er del: erase.simps)
    moreover have "is_leaf x (Nd t a r)" using xt xn by simp
    ultimately show ?thesis using r ctx1 tr1 kv
      by (intro disjI2 exI[of _ s1] exI[of _ rt] exI[of _ "Nd t a r"]) simp
  next
    case two
    have r: "delete_retrace (Some a) (ptr t) s rt =
     (case rebalance_right_heavy a s1 rt of
        (s2, rt2, None) \<Rightarrow> delete_retrace None None s2 rt2
      | (s2, rt2, Some q) \<Rightarrow>
          if bf_of s2 q = - 1 \<or> bf_of s2 q = 1 then Some (s2, rt2)
          else delete_retrace (parent_of s2 q) (Some q) s2 rt2)"
      using unf b1 two by simp
    from two e0 have "hgt r \<ge> 2" by linarith
    then obtain rl b rr where rr: "r = Nd rl b rr" by (cases r) auto
    from bfr1 rr have bb: "bf_of s1 b = hgt rl - hgt rr" and bfrl: "bf_ok s1 rl"
      and bfrr: "bf_ok s1 rr" by auto
    from bfr(2) rr have av: "\<bar>hgt rl - hgt rr\<bar> \<le> 1" "avl rl" "avl rr" by auto
    have "1 + max (hgt (erase x t) + 1) (hgt r) = e + 3" using two by (simp add: max_def e_def)
    with cok have co: "ctx_ok s fs (e + 3)" by simp
    from d rr have dd: "distinct (ctx_pre fs @ (nodes t @ a # nodes rl @ b # nodes rr) @ ctx_post fs)"
      by simp
    from dd xin have xn2: "x \<noteq> b" "x \<notin> set (nodes rl)" "x \<notin> set (nodes rr)" by auto
    have subt: "set (nodes (erase x t)) \<subseteq> set (nodes t)" by (rule nodes_erase_subset)
    show ?thesis
    proof (cases "bf_of s1 b = 1")
      case False
      have ha: "bf_of s1 a = e - (1 + max (hgt rl) (hgt rr))" using b1 rr by simp
      from rebalance_right_heavy_single [OF ctx1 tr1[unfolded rr] dist[unfolded rr] False ha bb]
      obtain s' rt' where reb: "rebalance_right_heavy a s1 rt = (s', rt', Some b)"
        and c': "is_ctx s' rt' fs (Some b)"
        and t': "is_tree s' (ctx_par fs) (Some b) (Nd (Nd t a rl) b rr)"
        and ba': "bf_of s' a = e - hgt rl"
        and bb': "bf_of s' b = 1 + max e (hgt rl) - hgt rr"
        and o': "\<forall>y. y \<noteq> a \<and> y \<noteq> b \<longrightarrow> bf_of s' y = bf_of s1 y"
        and kv': "\<forall>y. key_of s' y = key_of s1 y \<and> val_of s' y = val_of s1 y"
        by blast
      let ?S = "Nd (Nd t a rl) b rr"
      let ?E = "Nd (Nd (erase x t) a rl) b rr"
      have erS: "erase x ?S = ?E" using xn xn2 by (simp add: erase_notin)
      have lfS: "is_leaf x ?S" using xt xn xn2 by simp
      have nS: "nodes ?S = nodes (Nd t a r)" using rr by simp
      have bt: "bf_ok s' (erase x t)" using bft1 dd o' subt
        by (subst bf_ok_cong[of "erase x t" s' s1]) auto
      have brl: "bf_ok s' rl" using bfrl dd o' by (subst bf_ok_cong[of rl s' s1]) auto
      have brr: "bf_ok s' rr" using bfrr dd o' by (subst bf_ok_cong[of rr s' s1]) auto
      have pb: "parent_of s' b = ctx_par fs" using t' by simp
      have octx: "\<And>y. y \<in> set (ctx_pre fs @ ctx_post fs) \<Longrightarrow> bf_of s' y = bf_of s y"
      proof -
        fix y assume "y \<in> set (ctx_pre fs @ ctx_post fs)"
        with dd have "y \<noteq> a" "y \<noteq> b" by auto
        then show "bf_of s' y = bf_of s y" using o' oth by simp
      qed
      have r': "delete_retrace (Some a) (ptr t) s rt =
          (if bf_of s' b = - 1 \<or> bf_of s' b = 1 then Some (s', rt')
           else delete_retrace (ctx_par fs) (Some b) s' rt')"
        using r reb pb by simp
      from False bb av have "hgt rl = hgt rr \<or> hgt rr = hgt rl + 1" by auto
      then show ?thesis
      proof
        assume h1: "hgt rl = hgt rr"
        with two rr have h2: "hgt rl = e + 1" "hgt rr = e + 1" by auto
        have bb1: "bf_of s' b = 1" using bb' h2 by (simp add: max_def)
        have hE: "hgt ?E = e + 3" using h2 by (simp add: e_def max_def)
        have "is_tree s' None rt' (plug fs ?S) \<and> bf_ok s' (plug fs ?E) \<and> avl (plug fs ?E)"
        proof (rule finish_plug_erase[where s = s])
          show "is_ctx s' rt' fs (ptr ?S)" using c' by simp
          show "is_tree s' (ctx_par fs) (ptr ?S) ?S" using t' by simp
          show "bf_ok s' ?E" using bt brl brr ba' bb' by (simp add: e_def)
          show "avl ?E" using av bft(2) h2 by (simp add: max_def e_def)
          show "ctx_ok s fs (hgt ?E)" unfolding hE by (rule co)
        qed (rule octx)
        then show ?thesis using r' bb1 kv kv' nS lfS
          by (intro disjI1 exI[of _ s'] exI[of _ rt'] exI[of _ ?S]) (simp add: erS del: erase.simps)
      next
        assume h1: "hgt rr = hgt rl + 1"
        with two rr have h2: "hgt rl = e" "hgt rr = e + 1" by auto
        have bb0: "bf_of s' b = 0" using bb' h2 by (simp add: max_def)
        have hE: "hgt ?E = e + 2" using h2 by (simp add: e_def max_def)
        have hE1: "hgt (erase x ?S) + 1 = e + 3" unfolding erS using hE by simp
        have "ctx_ok s' fs (e + 3) = ctx_ok s fs (e + 3)"
          by (rule ctx_ok_cong) (rule octx)
        with co have "ctx_ok s' fs (hgt (erase x ?S) + 1)" unfolding hE1 by simp
        moreover have "bf_ok s' (erase x ?S)" using bt brl brr ba' bb' by (simp add: e_def erS del: erase.simps)
        moreover have "avl (erase x ?S)" using av bft(2) h2 by (simp add: max_def e_def erS del: erase.simps)
        moreover have "delete_retrace (Some a) (ptr t) s rt =
            delete_retrace (ctx_par fs) (ptr ?S) s' rt'" using r' bb0 by simp
        ultimately show ?thesis using c' t' kv kv' nS lfS
          by (intro disjI2 exI[of _ s'] exI[of _ rt'] exI[of _ ?S]) simp
      qed
    next
      case True
      with bb have h1: "hgt rl = hgt rr + 1" by simp
      then have "hgt rl \<ge> 1" using hgt_nonneg[of rr] by linarith
      then obtain rll cc rlr where rl: "rl = Nd rll cc rlr" by (cases rl) auto
      from bfrl rl have bc: "bf_of s1 cc = hgt rll - hgt rlr" and bfrll: "bf_ok s1 rll"
        and bfrlr: "bf_ok s1 rlr" by auto
      from av(2) rl have av2: "\<bar>hgt rll - hgt rlr\<bar> \<le> 1" "avl rll" "avl rlr" by auto
      have ha: "bf_of s1 a = e - (1 + max (1 + max (hgt rll) (hgt rlr)) (hgt rr))"
        using b1 rr rl by simp
      have hb: "bf_of s1 b = 1 + max (hgt rll) (hgt rlr) - hgt rr" using bb rl by simp
      from rebalance_right_heavy_double [OF ctx1 tr1[unfolded rr rl] dist[unfolded rr rl] True ha hb bc]
      obtain s' rt' where reb: "rebalance_right_heavy a s1 rt = (s', rt', Some cc)"
        and c': "is_ctx s' rt' fs (Some cc)"
        and t': "is_tree s' (ctx_par fs) (Some cc) (Nd (Nd t a rll) cc (Nd rlr b rr))"
        and ba': "bf_of s' a = e - hgt rll"
        and bb': "bf_of s' b = hgt rlr - hgt rr"
        and bc': "bf_of s' cc = 1 + max e (hgt rll) - (1 + max (hgt rlr) (hgt rr))"
        and o': "\<forall>y. y \<noteq> a \<and> y \<noteq> b \<and> y \<noteq> cc \<longrightarrow> bf_of s' y = bf_of s1 y"
        and kv': "\<forall>y. key_of s' y = key_of s1 y \<and> val_of s' y = val_of s1 y"
        by blast
      let ?S = "Nd (Nd t a rll) cc (Nd rlr b rr)"
      let ?E = "Nd (Nd (erase x t) a rll) cc (Nd rlr b rr)"
      from dd rl have ddd: "distinct (ctx_pre fs @
          (nodes t @ a # (nodes rll @ cc # nodes rlr) @ b # nodes rr) @ ctx_post fs)"
        by simp
      from ddd xin have xn3: "x \<noteq> cc" "x \<notin> set (nodes rll)" "x \<notin> set (nodes rlr)" by auto
      have erS: "erase x ?S = ?E" using xn xn2 xn3 by (simp add: erase_notin)
      have lfS: "is_leaf x ?S" using xt xn xn2 xn3 by simp
      have nS: "nodes ?S = nodes (Nd t a r)" using rr rl by simp
      have hts: "hgt rr = e" "max (hgt rll) (hgt rlr) = e"
        using h1 two rr rl by (auto simp: max_def)
      have le: "hgt rll \<le> e" "hgt rlr \<le> e"
        using hts(2) by (simp_all add: max_def split: if_splits)
      have bt: "bf_ok s' (erase x t)" using bft1 ddd o' subt
        by (subst bf_ok_cong[of "erase x t" s' s1]) auto
      have brll: "bf_ok s' rll" using bfrll ddd o' by (subst bf_ok_cong[of rll s' s1]) auto
      have brlr: "bf_ok s' rlr" using bfrlr ddd o' by (subst bf_ok_cong[of rlr s' s1]) auto
      have brr: "bf_ok s' rr" using bfrr ddd o' by (subst bf_ok_cong[of rr s' s1]) auto
      have pc: "parent_of s' cc = ctx_par fs" using t' by simp
      have octx: "\<And>y. y \<in> set (ctx_pre fs @ ctx_post fs) \<Longrightarrow> bf_of s' y = bf_of s y"
      proof -
        fix y assume "y \<in> set (ctx_pre fs @ ctx_post fs)"
        with ddd have "y \<noteq> a" "y \<noteq> b" "y \<noteq> cc" by auto
        then show "bf_of s' y = bf_of s y" using o' oth by simp
      qed
      have bc0: "bf_of s' cc = 0" using bc' hts le by (simp add: max_def)
      have r': "delete_retrace (Some a) (ptr t) s rt =
          delete_retrace (ctx_par fs) (ptr ?S) s' rt'"
        using r reb pc bc0 by simp
      have hE: "hgt ?E = e + 2" using hts le by (simp add: e_def max_def)
      have hE1: "hgt (erase x ?S) + 1 = e + 3" unfolding erS using hE by simp
      have "ctx_ok s' fs (e + 3) = ctx_ok s fs (e + 3)"
        by (rule ctx_ok_cong) (rule octx)
      with co have "ctx_ok s' fs (hgt (erase x ?S) + 1)" unfolding hE1 by simp
      moreover have "bf_ok s' (erase x ?S)"
        using bt brll brlr brr ba' bb' bc' by (simp add: e_def erS del: erase.simps)
      moreover have "avl (erase x ?S)"
        using av(3) av2 bft(2) hts le by (simp add: max_def e_def erS del: erase.simps split: if_splits)
      ultimately show ?thesis using r' c' t' kv kv' nS lfS
        by (intro disjI2 exI[of _ s'] exI[of _ rt'] exI[of _ ?S]) simp
    qed
  qed
qed

lemma delete_retrace_step_R:
  assumes ctx: "is_ctx s rt fs (Some a)"
    and tr: "is_tree s (ctx_par fs) (Some a) (Nd l a t)"
    and dist: "distinct (nodes (plug fs (Nd l a t)))"
    and xt: "is_leaf x t"
    and bft: "bf_ok s (erase x t)" "avl (erase x t)" and bfl: "bf_ok s l" "avl l"
    and bfa: "bf_of s a = hgt l - (hgt (erase x t) + 1)" "\<bar>hgt l - (hgt (erase x t) + 1)\<bar> \<le> 1"
    and cok: "ctx_ok s fs (1 + max (hgt l) (hgt (erase x t) + 1))"
  shows "(\<exists>s' rt' S'. delete_retrace (Some a) (ptr t) s rt = Some (s', rt') \<and>
            is_tree s' None rt' (plug fs S') \<and>
            bf_ok s' (plug fs (erase x S')) \<and> avl (plug fs (erase x S')) \<and>
            nodes S' = nodes (Nd l a t) \<and> is_leaf x S' \<and>
            (\<forall>y. key_of s' y = key_of s y \<and> val_of s' y = val_of s y))
       \<or> (\<exists>s1 rt1 S1. delete_retrace (Some a) (ptr t) s rt =
              delete_retrace (ctx_par fs) (ptr S1) s1 rt1 \<and>
            is_ctx s1 rt1 fs (ptr S1) \<and> is_tree s1 (ctx_par fs) (ptr S1) S1 \<and>
            nodes S1 = nodes (Nd l a t) \<and> is_leaf x S1 \<and>
            bf_ok s1 (erase x S1) \<and> avl (erase x S1) \<and> ctx_ok s1 fs (hgt (erase x S1) + 1) \<and>
            (\<forall>y. key_of s1 y = key_of s y \<and> val_of s1 y = val_of s y))"
proof -
  define e where "e = hgt (erase x t)"
  define s1 where "s1 = set_bf a (bf_of s a + 1) s"
  from dist have d: "distinct (ctx_pre fs @ (nodes l @ a # nodes t) @ ctx_post fs)"
    by (simp add: nodes_plug)
  from xt have xin: "x \<in> set (nodes t)" by (rule is_leaf_in)
  with d have xn: "x \<noteq> a" "x \<notin> set (nodes l)" by auto
  have e0: "e \<ge> 0" unfolding e_def by (rule hgt_nonneg)
  have la: "left_of s a \<noteq> ptr t"
  proof
    assume eq: "left_of s a = ptr t"
    from xin obtain tl y tr' where "t = Nd tl y tr'" by (cases t) auto
    then have "ptr t = Some y" "y \<in> set (nodes t)" by auto
    moreover from tr have "left_of s a = ptr l" by (auto dest: is_tree_ptr)
    ultimately have "y \<in> set (nodes l)" using eq by (auto dest: ptr_in_nodes')
    with \<open>y \<in> set (nodes t)\<close> d show False by auto
  qed
  have b1: "bf_of s1 a = hgt l - e" using bfa by (simp add: s1_def e_def)
  have oth: "\<And>y. y \<noteq> a \<Longrightarrow> bf_of s1 y = bf_of s y" by (simp add: s1_def)
  have kv: "\<And>y. key_of s1 y = key_of s y \<and> val_of s1 y = val_of s y" by (simp add: s1_def)
  have ctx1: "is_ctx s1 rt fs (Some a)" using ctx by (simp add: s1_def)
  have tr1: "is_tree s1 (ctx_par fs) (Some a) (Nd l a t)" using tr by (simp add: s1_def)
  have bft1: "bf_ok s1 (erase x t)"
    using bft(1) d nodes_erase_subset[of x t]
    by (subst bf_ok_cong[of "erase x t" s1 s]) (auto intro!: oth)
  have bfl1: "bf_ok s1 l" using bfl(1) d by (subst bf_ok_cong[of l s1 s]) (auto intro!: oth)
  have cok1: "\<And>n. ctx_ok s1 fs n = ctx_ok s fs n"
    using d by (intro ctx_ok_cong) (auto intro!: oth)
  have pa1: "parent_of s1 a = ctx_par fs" using tr1 by simp
  have unf: "delete_retrace (Some a) (ptr t) s rt =
     (case (if bf_of s1 a < - 1 then rebalance_right_heavy a s1 rt
            else if bf_of s1 a > 1 then rebalance_left_heavy a s1 rt
            else (s1, rt, Some a)) of
        (s2, rt2, None) \<Rightarrow> delete_retrace None None s2 rt2
      | (s2, rt2, Some q) \<Rightarrow>
          if bf_of s2 q = - 1 \<or> bf_of s2 q = 1 then Some (s2, rt2)
          else delete_retrace (parent_of s2 q) (Some q) s2 rt2)"
    by (subst delete_retrace.simps) (simp add: delete_step_def la s1_def Let_def)
  have er: "erase x (Nd l a t) = Nd l a (erase x t)"
    using xn by (simp add: erase_notin)
  from bfa(2) consider (eq) "hgt l = e" | (one) "hgt l = e + 1" | (two) "hgt l = e + 2"
    unfolding e_def by linarith
  then show ?thesis
  proof cases
    case one
    have r: "delete_retrace (Some a) (ptr t) s rt = Some (s1, rt)" using unf b1 one by simp
    have "1 + max (hgt l) (hgt (erase x t) + 1) = hgt (Nd l a (erase x t))"
      using one by (simp add: max_def e_def)
    with cok have co: "ctx_ok s fs (hgt (Nd l a (erase x t)))" by simp
    have "is_tree s1 None rt (plug fs (Nd l a t)) \<and> bf_ok s1 (plug fs (Nd l a (erase x t))) \<and>
          avl (plug fs (Nd l a (erase x t)))"
    proof (rule finish_plug_erase[where s = s])
      show "is_ctx s1 rt fs (ptr (Nd l a t))" using ctx1 by simp
      show "is_tree s1 (ctx_par fs) (ptr (Nd l a t)) (Nd l a t)" using tr1 by simp
      show "bf_ok s1 (Nd l a (erase x t))" using b1 bft1 bfl1 by (simp add: e_def)
      show "avl (Nd l a (erase x t))" using bft(2) bfl(2) one by (simp add: e_def)
      show "ctx_ok s fs (hgt (Nd l a (erase x t)))" by (rule co)
      fix y assume "y \<in> set (ctx_pre fs @ ctx_post fs)"
      with d have "y \<noteq> a" by auto
      then show "bf_of s1 y = bf_of s y" by (rule oth)
    qed
    with r kv xt xn show ?thesis
      by (intro disjI1 exI[of _ s1] exI[of _ rt] exI[of _ "Nd l a t"]) (simp add: er del: erase.simps)
  next
    case eq
    have r: "delete_retrace (Some a) (ptr t) s rt =
        delete_retrace (ctx_par fs) (ptr (Nd l a t)) s1 rt"
      using unf b1 eq pa1 by simp
    have "1 + max (hgt l) (hgt (erase x t) + 1) = hgt (Nd l a (erase x t)) + 1"
      using eq by (simp add: max_def e_def)
    with cok have "ctx_ok s1 fs (hgt (erase x (Nd l a t)) + 1)" by (simp add: cok1 er del: erase.simps)
    moreover have "bf_ok s1 (erase x (Nd l a t))" using b1 bft1 bfl1 by (simp add: e_def er del: erase.simps)
    moreover have "avl (erase x (Nd l a t))" using bft(2) bfl(2) eq by (simp add: e_def er del: erase.simps)
    moreover have "is_leaf x (Nd l a t)" using xt xn by simp
    ultimately show ?thesis using r ctx1 tr1 kv
      by (intro disjI2 exI[of _ s1] exI[of _ rt] exI[of _ "Nd l a t"]) simp
  next
    case two
    have r: "delete_retrace (Some a) (ptr t) s rt =
     (case rebalance_left_heavy a s1 rt of
        (s2, rt2, None) \<Rightarrow> delete_retrace None None s2 rt2
      | (s2, rt2, Some q) \<Rightarrow>
          if bf_of s2 q = - 1 \<or> bf_of s2 q = 1 then Some (s2, rt2)
          else delete_retrace (parent_of s2 q) (Some q) s2 rt2)"
      using unf b1 two e0 by simp
    from two e0 have "hgt l \<ge> 2" by linarith
    then obtain ll b lr where lsh: "l = Nd ll b lr" by (cases l) auto
    from bfl1 lsh have bb: "bf_of s1 b = hgt ll - hgt lr" and bfll: "bf_ok s1 ll"
      and bflr: "bf_ok s1 lr" by auto
    from bfl(2) lsh have av: "\<bar>hgt ll - hgt lr\<bar> \<le> 1" "avl ll" "avl lr" by auto
    have "1 + max (hgt l) (hgt (erase x t) + 1) = e + 3" using two by (simp add: max_def e_def)
    with cok have co: "ctx_ok s fs (e + 3)" by simp
    from d lsh have dd: "distinct (ctx_pre fs @ ((nodes ll @ b # nodes lr) @ a # nodes t) @ ctx_post fs)"
      by simp
    from dd xin have xn2: "x \<noteq> b" "x \<notin> set (nodes ll)" "x \<notin> set (nodes lr)" by auto
    have subt: "set (nodes (erase x t)) \<subseteq> set (nodes t)" by (rule nodes_erase_subset)
    show ?thesis
    proof (cases "bf_of s1 b = - 1")
      case False
      have ha: "bf_of s1 a = 1 + max (hgt ll) (hgt lr) - e" using b1 lsh by simp
      from rebalance_left_heavy_single [OF ctx1 tr1[unfolded lsh] dist[unfolded lsh] False ha bb]
      obtain s' rt' where reb: "rebalance_left_heavy a s1 rt = (s', rt', Some b)"
        and c': "is_ctx s' rt' fs (Some b)"
        and t': "is_tree s' (ctx_par fs) (Some b) (Nd ll b (Nd lr a t))"
        and ba': "bf_of s' a = hgt lr - e"
        and bb': "bf_of s' b = hgt ll - (1 + max (hgt lr) e)"
        and o': "\<forall>y. y \<noteq> a \<and> y \<noteq> b \<longrightarrow> bf_of s' y = bf_of s1 y"
        and kv': "\<forall>y. key_of s' y = key_of s1 y \<and> val_of s' y = val_of s1 y"
        by blast
      let ?S = "Nd ll b (Nd lr a t)"
      let ?E = "Nd ll b (Nd lr a (erase x t))"
      have erS: "erase x ?S = ?E" using xn xn2 by (simp add: erase_notin)
      have lfS: "is_leaf x ?S" using xt xn xn2 by simp
      have nS: "nodes ?S = nodes (Nd l a t)" using lsh by simp
      have bt: "bf_ok s' (erase x t)" using bft1 dd o' subt
        by (subst bf_ok_cong[of "erase x t" s' s1]) auto
      have bll: "bf_ok s' ll" using bfll dd o' by (subst bf_ok_cong[of ll s' s1]) auto
      have blr: "bf_ok s' lr" using bflr dd o' by (subst bf_ok_cong[of lr s' s1]) auto
      have pb: "parent_of s' b = ctx_par fs" using t' by simp
      have octx: "\<And>y. y \<in> set (ctx_pre fs @ ctx_post fs) \<Longrightarrow> bf_of s' y = bf_of s y"
      proof -
        fix y assume "y \<in> set (ctx_pre fs @ ctx_post fs)"
        with dd have "y \<noteq> a" "y \<noteq> b" by auto
        then show "bf_of s' y = bf_of s y" using o' oth by simp
      qed
      have r': "delete_retrace (Some a) (ptr t) s rt =
          (if bf_of s' b = - 1 \<or> bf_of s' b = 1 then Some (s', rt')
           else delete_retrace (ctx_par fs) (Some b) s' rt')"
        using r reb pb by simp
      from False bb av have "hgt ll = hgt lr \<or> hgt ll = hgt lr + 1" by auto
      then show ?thesis
      proof
        assume h1: "hgt ll = hgt lr"
        with two lsh have h2: "hgt ll = e + 1" "hgt lr = e + 1" by auto
        have bb1: "bf_of s' b = - 1" using bb' h2 by (simp add: max_def)
        have hE: "hgt ?E = e + 3" using h2 by (simp add: e_def max_def)
        have "is_tree s' None rt' (plug fs ?S) \<and> bf_ok s' (plug fs ?E) \<and> avl (plug fs ?E)"
        proof (rule finish_plug_erase[where s = s])
          show "is_ctx s' rt' fs (ptr ?S)" using c' by simp
          show "is_tree s' (ctx_par fs) (ptr ?S) ?S" using t' by simp
          show "bf_ok s' ?E" using bt bll blr ba' bb' by (simp add: e_def)
          show "avl ?E" using av bft(2) h2 by (simp add: max_def e_def)
          show "ctx_ok s fs (hgt ?E)" unfolding hE by (rule co)
        qed (rule octx)
        then show ?thesis using r' bb1 kv kv' nS lfS
          by (intro disjI1 exI[of _ s'] exI[of _ rt'] exI[of _ ?S]) (simp add: erS del: erase.simps)
      next
        assume h1: "hgt ll = hgt lr + 1"
        with two lsh have h2: "hgt lr = e" "hgt ll = e + 1" by auto
        have bb0: "bf_of s' b = 0" using bb' h2 by (simp add: max_def)
        have hE: "hgt ?E = e + 2" using h2 by (simp add: e_def max_def)
        have hE1: "hgt (erase x ?S) + 1 = e + 3" unfolding erS using hE by simp
        have "ctx_ok s' fs (e + 3) = ctx_ok s fs (e + 3)"
          by (rule ctx_ok_cong) (rule octx)
        with co have "ctx_ok s' fs (hgt (erase x ?S) + 1)" unfolding hE1 by simp
        moreover have "bf_ok s' (erase x ?S)" using bt bll blr ba' bb' by (simp add: e_def erS del: erase.simps)
        moreover have "avl (erase x ?S)" using av bft(2) h2 by (simp add: max_def e_def erS del: erase.simps)
        moreover have "delete_retrace (Some a) (ptr t) s rt =
            delete_retrace (ctx_par fs) (ptr ?S) s' rt'" using r' bb0 by simp
        ultimately show ?thesis using c' t' kv kv' nS lfS
          by (intro disjI2 exI[of _ s'] exI[of _ rt'] exI[of _ ?S]) simp
      qed
    next
      case True
      with bb have h1: "hgt lr = hgt ll + 1" by simp
      then have "hgt lr \<ge> 1" using hgt_nonneg[of ll] by linarith
      then obtain lrl cc lrr where lrsh: "lr = Nd lrl cc lrr" by (cases lr) auto
      from bflr lrsh have bc: "bf_of s1 cc = hgt lrl - hgt lrr" and bflrl: "bf_ok s1 lrl"
        and bflrr: "bf_ok s1 lrr" by auto
      from av(3) lrsh have av2: "\<bar>hgt lrl - hgt lrr\<bar> \<le> 1" "avl lrl" "avl lrr" by auto
      have ha: "bf_of s1 a = 1 + max (hgt ll) (1 + max (hgt lrl) (hgt lrr)) - e"
        using b1 lsh lrsh by simp
      have hb: "bf_of s1 b = hgt ll - (1 + max (hgt lrl) (hgt lrr))" using bb lrsh by simp
      from rebalance_left_heavy_double [OF ctx1 tr1[unfolded lsh lrsh] dist[unfolded lsh lrsh] True ha hb bc]
      obtain s' rt' where reb: "rebalance_left_heavy a s1 rt = (s', rt', Some cc)"
        and c': "is_ctx s' rt' fs (Some cc)"
        and t': "is_tree s' (ctx_par fs) (Some cc) (Nd (Nd ll b lrl) cc (Nd lrr a t))"
        and ba': "bf_of s' a = hgt lrr - e"
        and bb': "bf_of s' b = hgt ll - hgt lrl"
        and bc': "bf_of s' cc = 1 + max (hgt ll) (hgt lrl) - (1 + max (hgt lrr) e)"
        and o': "\<forall>y. y \<noteq> a \<and> y \<noteq> b \<and> y \<noteq> cc \<longrightarrow> bf_of s' y = bf_of s1 y"
        and kv': "\<forall>y. key_of s' y = key_of s1 y \<and> val_of s' y = val_of s1 y"
        by blast
      let ?S = "Nd (Nd ll b lrl) cc (Nd lrr a t)"
      let ?E = "Nd (Nd ll b lrl) cc (Nd lrr a (erase x t))"
      from dd lrsh have ddd: "distinct (ctx_pre fs @
          ((nodes ll @ b # nodes lrl @ cc # nodes lrr) @ a # nodes t) @ ctx_post fs)"
        by simp
      from ddd xin have xn3: "x \<noteq> cc" "x \<notin> set (nodes lrl)" "x \<notin> set (nodes lrr)" by auto
      have erS: "erase x ?S = ?E" using xn xn2 xn3 by (simp add: erase_notin)
      have lfS: "is_leaf x ?S" using xt xn xn2 xn3 by simp
      have nS: "nodes ?S = nodes (Nd l a t)" using lsh lrsh by simp
      have hts: "hgt ll = e" "max (hgt lrl) (hgt lrr) = e"
        using h1 two lsh lrsh by (auto simp: max_def)
      have le: "hgt lrl \<le> e" "hgt lrr \<le> e"
        using hts(2) by (simp_all add: max_def split: if_splits)
      have bt: "bf_ok s' (erase x t)" using bft1 ddd o' subt
        by (subst bf_ok_cong[of "erase x t" s' s1]) auto
      have bll: "bf_ok s' ll" using bfll ddd o' by (subst bf_ok_cong[of ll s' s1]) auto
      have blrl: "bf_ok s' lrl" using bflrl ddd o' by (subst bf_ok_cong[of lrl s' s1]) auto
      have blrr: "bf_ok s' lrr" using bflrr ddd o' by (subst bf_ok_cong[of lrr s' s1]) auto
      have pc: "parent_of s' cc = ctx_par fs" using t' by simp
      have octx: "\<And>y. y \<in> set (ctx_pre fs @ ctx_post fs) \<Longrightarrow> bf_of s' y = bf_of s y"
      proof -
        fix y assume "y \<in> set (ctx_pre fs @ ctx_post fs)"
        with ddd have "y \<noteq> a" "y \<noteq> b" "y \<noteq> cc" by auto
        then show "bf_of s' y = bf_of s y" using o' oth by simp
      qed
      have bc0: "bf_of s' cc = 0" using bc' hts le by (simp add: max_def)
      have r': "delete_retrace (Some a) (ptr t) s rt =
          delete_retrace (ctx_par fs) (ptr ?S) s' rt'"
        using r reb pc bc0 by simp
      have hE: "hgt ?E = e + 2" using hts le by (simp add: e_def max_def)
      have hE1: "hgt (erase x ?S) + 1 = e + 3" unfolding erS using hE by simp
      have "ctx_ok s' fs (e + 3) = ctx_ok s fs (e + 3)"
        by (rule ctx_ok_cong) (rule octx)
      with co have "ctx_ok s' fs (hgt (erase x ?S) + 1)" unfolding hE1 by simp
      moreover have "bf_ok s' (erase x ?S)"
        using bt bll blrl blrr ba' bb' bc' by (simp add: e_def erS del: erase.simps)
      moreover have "avl (erase x ?S)"
        using av(2) av2 bft(2) hts le by (simp add: max_def e_def erS del: erase.simps split: if_splits)
      ultimately show ?thesis using r' c' t' kv kv' nS lfS
        by (intro disjI2 exI[of _ s'] exI[of _ rt'] exI[of _ ?S]) simp
    qed
  qed
qed

lemma delete_retrace_ok:
  assumes "is_ctx s rt fs (ptr t)" "is_tree s (ctx_par fs) (ptr t) t"
    and "distinct (nodes (plug fs t))" "is_leaf x t"
    and "bf_ok s (erase x t)" "avl (erase x t)" "ctx_ok s fs (hgt (erase x t) + 1)"
  shows "\<exists>s' rt' T'. delete_retrace (ctx_par fs) (ptr t) s rt = Some (s', rt') \<and>
     is_tree s' None rt' T' \<and> nodes T' = nodes (plug fs t) \<and> is_leaf x T' \<and>
     bf_ok s' (erase x T') \<and> avl (erase x T') \<and>
     (\<forall>y. key_of s' y = key_of s y \<and> val_of s' y = val_of s y)"
  using assms
proof (induction fs arbitrary: s t rt)
  case Nil
  have "delete_retrace None (ptr t) s rt = Some (s, rt)" by (subst delete_retrace.simps) simp
  with Nil show ?case by (intro exI[of _ s] exI[of _ rt] exI[of _ t]) simp
next
  case (Cons f fs)
  from Cons.prems(4) have xin: "x \<in> set (nodes t)" by (rule is_leaf_in)
  then obtain tl b tr' where t: "t = Nd tl b tr'" by (cases t) auto
  from Cons.prems(3) xin have xctx: "x \<notin> set (ctx_pre (f # fs) @ ctx_post (f # fs))"
    by (auto simp: nodes_plug)
  show ?case
  proof (cases f)
    case (InL a r)
    from xctx InL have xfs: "x \<notin> set (ctx_pre fs @ ctx_post fs)" by auto
    from Cons.prems InL t
    have p: "is_ctx s rt fs (Some a)" "is_tree s (ctx_par fs) (Some a) (Nd t a r)"
      "distinct (nodes (plug fs (Nd t a r)))" "is_leaf x t"
      "bf_ok s (erase x t)" "avl (erase x t)" "bf_ok s r" "avl r"
      "bf_of s a = hgt (erase x t) + 1 - hgt r" "\<bar>hgt (erase x t) + 1 - hgt r\<bar> \<le> 1"
      "ctx_ok s fs (1 + max (hgt (erase x t) + 1) (hgt r))"
      by auto
    from delete_retrace_step_L [OF p]
    show ?thesis
    proof (elim disjE exE conjE)
      fix s' rt' S'
      assume a: "delete_retrace (Some a) (ptr t) s rt = Some (s', rt')"
        "is_tree s' None rt' (plug fs S')" "bf_ok s' (plug fs (erase x S'))"
        "avl (plug fs (erase x S'))" "nodes S' = nodes (Nd t a r)" "is_leaf x S'"
        "\<forall>y. key_of s' y = key_of s y \<and> val_of s' y = val_of s y"
      have dS: "distinct (nodes (plug fs S'))" using p(3) a(5) by (simp add: nodes_plug)
      have "is_leaf x (plug fs S')" using a(6) dS by (rule is_leaf_plug)
      moreover have "erase x (plug fs S') = plug fs (erase x S')" using xfs by (rule erase_plug)
      ultimately show ?thesis using a InL
        by (intro exI[of _ s'] exI[of _ rt'] exI[of _ "plug fs S'"]) (simp add: nodes_plug)
    next
      fix s1 rt1 S1
      assume a: "delete_retrace (Some a) (ptr t) s rt = delete_retrace (ctx_par fs) (ptr S1) s1 rt1"
        "is_ctx s1 rt1 fs (ptr S1)" "is_tree s1 (ctx_par fs) (ptr S1) S1"
        "nodes S1 = nodes (Nd t a r)" "is_leaf x S1"
        "bf_ok s1 (erase x S1)" "avl (erase x S1)" "ctx_ok s1 fs (hgt (erase x S1) + 1)"
        "\<forall>y. key_of s1 y = key_of s y \<and> val_of s1 y = val_of s y"
      have dS: "distinct (nodes (plug fs S1))" using p(3) a(4) by (simp add: nodes_plug)
      from Cons.IH[OF a(2) a(3) dS a(5) a(6) a(7) a(8)]
      obtain s' rt' T' where "delete_retrace (ctx_par fs) (ptr S1) s1 rt1 = Some (s', rt')"
        "is_tree s' None rt' T'" "nodes T' = nodes (plug fs S1)" "is_leaf x T'"
        "bf_ok s' (erase x T')" "avl (erase x T')"
        "\<forall>y. key_of s' y = key_of s1 y \<and> val_of s' y = val_of s1 y"
        by blast
      then show ?thesis using InL a(1) a(4) a(9)
        by (intro exI[of _ s'] exI[of _ rt'] exI[of _ T']) (simp add: nodes_plug)
    qed
  next
    case (InR l a)
    from xctx InR have xfs: "x \<notin> set (ctx_pre fs @ ctx_post fs)" by auto
    from Cons.prems InR t
    have p: "is_ctx s rt fs (Some a)" "is_tree s (ctx_par fs) (Some a) (Nd l a t)"
      "distinct (nodes (plug fs (Nd l a t)))" "is_leaf x t"
      "bf_ok s (erase x t)" "avl (erase x t)" "bf_ok s l" "avl l"
      "bf_of s a = hgt l - (hgt (erase x t) + 1)" "\<bar>hgt l - (hgt (erase x t) + 1)\<bar> \<le> 1"
      "ctx_ok s fs (1 + max (hgt l) (hgt (erase x t) + 1))"
      by auto
    from delete_retrace_step_R [OF p]
    show ?thesis
    proof (elim disjE exE conjE)
      fix s' rt' S'
      assume a: "delete_retrace (Some a) (ptr t) s rt = Some (s', rt')"
        "is_tree s' None rt' (plug fs S')" "bf_ok s' (plug fs (erase x S'))"
        "avl (plug fs (erase x S'))" "nodes S' = nodes (Nd l a t)" "is_leaf x S'"
        "\<forall>y. key_of s' y = key_of s y \<and> val_of s' y = val_of s y"
      have dS: "distinct (nodes (plug fs S'))" using p(3) a(5) by (simp add: nodes_plug)
      have "is_leaf x (plug fs S')" using a(6) dS by (rule is_leaf_plug)
      moreover have "erase x (plug fs S') = plug fs (erase x S')" using xfs by (rule erase_plug)
      ultimately show ?thesis using a InR
        by (intro exI[of _ s'] exI[of _ rt'] exI[of _ "plug fs S'"]) (simp add: nodes_plug)
    next
      fix s1 rt1 S1
      assume a: "delete_retrace (Some a) (ptr t) s rt = delete_retrace (ctx_par fs) (ptr S1) s1 rt1"
        "is_ctx s1 rt1 fs (ptr S1)" "is_tree s1 (ctx_par fs) (ptr S1) S1"
        "nodes S1 = nodes (Nd l a t)" "is_leaf x S1"
        "bf_ok s1 (erase x S1)" "avl (erase x S1)" "ctx_ok s1 fs (hgt (erase x S1) + 1)"
        "\<forall>y. key_of s1 y = key_of s y \<and> val_of s1 y = val_of s y"
      have dS: "distinct (nodes (plug fs S1))" using p(3) a(4) by (simp add: nodes_plug)
      from Cons.IH[OF a(2) a(3) dS a(5) a(6) a(7) a(8)]
      obtain s' rt' T' where "delete_retrace (ctx_par fs) (ptr S1) s1 rt1 = Some (s', rt')"
        "is_tree s' None rt' T'" "nodes T' = nodes (plug fs S1)" "is_leaf x T'"
        "bf_ok s' (erase x T')" "avl (erase x T')"
        "\<forall>y. key_of s' y = key_of s1 y \<and> val_of s' y = val_of s1 y"
        by blast
      then show ?thesis using InR a(1) a(4) a(9)
        by (intro exI[of _ s'] exI[of _ rt'] exI[of _ T']) (simp add: nodes_plug)
    qed
  qed
qed

lemma lookup_in:
  "lookup c s k t = Some a \<Longrightarrow> a \<in> set (nodes t) \<and> c k (key_of s a) = 0"
  by (induction t) (auto split: if_splits)

lemma is_leaf_ctx:
  "is_leaf x t \<Longrightarrow> distinct (nodes t) \<Longrightarrow> \<exists>fs. t = plug fs (Nd Tip x Tip)"
proof (induction t)
  case Tip
  then show ?case by simp
next
  case (Nd l b r)
  show ?case
  proof (cases "b = x")
    case True
    with Nd.prems have "Nd l b r = plug [] (Nd Tip x Tip)" by simp
    then show ?thesis by blast
  next
    case False
    with Nd.prems have "is_leaf x l \<or> is_leaf x r" by simp
    then show ?thesis
    proof
      assume "is_leaf x l"
      from Nd.IH(1)[OF this] Nd.prems(2) obtain fs where "l = plug fs (Nd Tip x Tip)" by auto
      then have "Nd l b r = plug (fs @ [InL b r]) (Nd Tip x Tip)" by (simp add: plug_append)
      then show ?thesis by blast
    next
      assume "is_leaf x r"
      from Nd.IH(2)[OF this] Nd.prems(2) obtain fs where "r = plug fs (Nd Tip x Tip)" by auto
      then have "Nd l b r = plug (fs @ [InR l b]) (Nd Tip x Tip)" by (simp add: plug_append)
      then show ?thesis by blast
    qed
  qed
qed

lemma sorted_wrt_remove1: "sorted_wrt P xs \<Longrightarrow> sorted_wrt P (remove1 a xs)"
proof (induction xs)
  case Nil
  then show ?case by simp
next
  case (Cons x xs)
  then show ?case using set_remove1_subset[of a xs] by auto
qed

text \<open>The last step of \<open>delete\<close>: the leaf is unlinked from its parent.\<close>

lemma delete_unlink:
  fixes s :: "('k, 'v) store"
  assumes t: "is_tree s None rt (plug fs (Nd Tip x Tip))"
    and d: "distinct (nodes (plug fs (Nd Tip x Tip)))"
  defines "s4 \<equiv> (case parent_of s x of
                    Some np \<Rightarrow> if left_of s np = Some x then set_left np None s
                               else set_right np None s
                  | None \<Rightarrow> s)"
  shows "is_tree s4 None (if Some x = rt then None else rt) (plug fs Tip)"
    and "\<And>y. bf_of s4 y = bf_of s y \<and> key_of s4 y = key_of s y \<and> val_of s4 y = val_of s y"
proof -
  from t have c: "is_ctx s rt fs (Some x)" and px: "parent_of s x = ctx_par fs"
    by (simp_all add: is_tree_plug)
  from d have dd: "distinct (ctx_pre fs @ x # ctx_post fs)" by (simp add: nodes_plug)
  then have dc: "distinct (ctx_pre fs @ ctx_post fs)" by simp
  show "\<And>y. bf_of s4 y = bf_of s y \<and> key_of s4 y = key_of s y \<and> val_of s4 y = val_of s y"
    by (simp add: s4_def split: option.splits)
  show "is_tree s4 None (if Some x = rt then None else rt) (plug fs Tip)"
  proof (cases fs)
    case Nil
    with c px show ?thesis by (simp add: s4_def)
  next
    case (Cons f fs')
    from is_ctx_root[OF c] Cons dd have rt: "Some x \<noteq> rt" by auto
    have "is_ctx s4 rt fs None"
    proof (cases f)
      case (InL a r)
      with c Cons have la: "left_of s a = Some x" by simp
      from px Cons InL have s4: "s4 = set_left a None s" by (simp add: s4_def la)
      show ?thesis
        by (rule is_ctx_hole[where s' = s4 and rt' = rt and p' = None, OF c dc])
          (auto simp: s4 Cons InL)
    next
      case (InR l a)
      with c Cons have ra: "right_of s a = Some x" and tl: "is_tree s (Some a) (left_of s a) l"
        by simp_all
      from dd Cons InR have "x \<notin> set (nodes l)" by auto
      with is_tree_ptr[OF tl] have la: "left_of s a \<noteq> Some x" by (auto dest: ptr_in_nodes)
      from px Cons InR have s4: "s4 = set_right a None s" by (simp add: s4_def la)
      show ?thesis
        by (rule is_ctx_hole[where s' = s4 and rt' = rt and p' = None, OF c dc])
          (auto simp: s4 Cons InR)
    qed
    then show ?thesis using rt by (simp add: is_tree_plug)
  qed
qed

lemma entries_of_entry: "entries_of s t = map (entry_of s) (nodes t)"
  by (simp add: entries_of_def entry_of_def)

lemma entry_keys: "map (key_of s) ns = map fst (map (entry_of s) ns)"
  by (simp add: entry_of_def)

lemma delete_ok:
  fixes t :: "('k, 'v) AVLTree"
  assumes inv: "sinv t T"
  shows "\<exists>b t' T'. delete truthy k t = Some (b, t') \<and> sinv t' T' \<and>
     comparator t' = comparator t \<and> noDuplicates t' = noDuplicates t \<and>
     (case (if truthy k then lookup (comparator t) (heap t) k T else None) of
        None \<Rightarrow> \<not> b \<and> t' = t \<and> T' = T
      | Some a \<Rightarrow> b \<and> tsize t' = tsize t - 1 \<and>
          entries_of (heap t') T' = map (entry_of (heap t)) (remove1 a (nodes T)))"
proof -
  let ?c = "comparator t" and ?nd = "noDuplicates t" and ?s = "heap t"
  from inv have it: "is_tree ?s None (root t) T" and dT: "distinct (nodes T)"
    and fr: "list_all (\<lambda>a. a < fresh t) (nodes T)"
    and srt: "sorted_keys ?c ?nd ?s (nodes T)"
    and bf: "bf_ok ?s T" and av: "avl T" and sz: "tsize t = int (length (nodes T))"
    by (simp_all add: sinv_def)
  have find: "delete_find ?c ?s k (root t) = Some (lookup ?c ?s k T)"
    using it by (rule delete_find_tree)
  show ?thesis
  proof (cases "if truthy k then lookup ?c ?s k T else None")
    case None
    have "delete truthy k t = Some (False, t)"
    proof (cases "root t = None \<or> \<not> truthy k")
      case True
      then show ?thesis by (simp add: delete_def)
    next
      case False
      with None have "lookup ?c ?s k T = None" by simp
      with False find show ?thesis by (simp add: delete_def)
    qed
    with None inv show ?thesis by (intro exI[of _ False] exI[of _ t] exI[of _ T]) simp
  next
    case (Some a)
    then have tk: "truthy k" and lk: "lookup ?c ?s k T = Some a" by (simp_all split: if_splits)
    from lookup_in[OF lk] have aT: "a \<in> set (nodes T)" by simp
    then have rn: "root t \<noteq> None" using it by (cases T) auto
    from delete_copy_ok[OF it dT aT] obtain s1 node1 s2 x fsx where
      cl: "delete_copy_left ?s a = Some (s1, node1)"
      and cr: "delete_copy_right s1 node1 = Some (s2, x)"
      and pl: "plug fsx (Nd Tip x Tip) = T"
      and sl: "same_links s2 ?s"
      and en: "map (entry_of s2) (remove1 x (nodes T)) = map (entry_of ?s) (remove1 a (nodes T))"
      by blast
    have it2: "is_tree s2 None (root t) (plug fsx (Nd Tip x Tip))"
      using it sl is_tree_same_links[of s2 ?s] by (simp add: pl)
    then have c2: "is_ctx s2 (root t) fsx (ptr (Nd Tip x Tip))"
      and t2: "is_tree s2 (ctx_par fsx) (ptr (Nd Tip x Tip)) (Nd Tip x Tip)"
      by (simp_all add: is_tree_plug)
    then have px: "parent_of s2 x = ctx_par fsx" by simp
    have d2: "distinct (nodes (plug fsx (Nd Tip x Tip)))" using dT by (simp add: pl)
    have "bf_ok ?s (plug fsx (Nd Tip x Tip)) \<and> avl (plug fsx (Nd Tip x Tip))"
      using bf av by (simp add: pl)
    then have "ctx_ok ?s fsx (hgt (Nd Tip x Tip))" by (simp only: bf_ok_plug)
    then have "ctx_ok ?s fsx 1" by simp
    moreover have "ctx_ok s2 fsx 1 = ctx_ok ?s fsx 1"
      by (rule ctx_ok_cong) (use sl in \<open>simp add: same_links_def\<close>)
    ultimately have ck: "ctx_ok s2 fsx (hgt (erase x (Nd Tip x Tip)) + 1)" by simp
    from delete_retrace_ok[OF c2 t2 d2 _ _ _ ck]
    obtain s3 rt3 T3 where
      rr: "delete_retrace (ctx_par fsx) (ptr (Nd Tip x Tip)) s2 (root t) = Some (s3, rt3)"
      and it3: "is_tree s3 None rt3 T3"
      and n3: "nodes T3 = nodes (plug fsx (Nd Tip x Tip))"
      and lf3: "is_leaf x T3"
      and bf3: "bf_ok s3 (erase x T3)" and av3: "avl (erase x T3)"
      and kv3: "\<forall>y. key_of s3 y = key_of s2 y \<and> val_of s3 y = val_of s2 y"
      by auto
    from n3 pl have nT3: "nodes T3 = nodes T" by simp
    with dT have dT3: "distinct (nodes T3)" by simp
    from is_leaf_ctx[OF lf3 dT3] obtain fs3 where T3: "T3 = plug fs3 (Nd Tip x Tip)" by blast
    define s4 where "s4 = (case parent_of s3 x of
                    Some np \<Rightarrow> if left_of s3 np = Some x then set_left np None s3
                               else set_right np None s3
                  | None \<Rightarrow> s3)"
    define rt' where "rt' = (if Some x = rt3 then None else rt3)"
    define t' where "t' = t\<lparr>root := rt', tsize := tsize t - 1, heap := s4\<rparr>"
    have res: "delete truthy k t = Some (True, t')"
      using rn tk find lk cl cr rr px
      by (simp add: delete_def Let_def s4_def rt'_def t'_def)
    note ul = delete_unlink[OF it3[unfolded T3] dT3[unfolded T3], folded s4_def rt'_def]
    have xin: "x \<in> set (nodes T)" using pl nodes_plug[of fsx "Nd Tip x Tip"] by auto
    have xctx: "x \<notin> set (ctx_pre fs3 @ ctx_post fs3)"
      using dT3 unfolding T3 by (simp add: nodes_plug)
    have er: "erase x T3 = plug fs3 Tip"
      unfolding T3 using erase_plug[OF xctx, of "Nd Tip x Tip"] by simp
    have nE: "nodes (plug fs3 Tip) = remove1 x (nodes T)"
      using nodes_erase[OF lf3 dT3] by (simp add: er nT3)
    have e4: "entry_of s4 = entry_of s2"
      using ul(2) kv3 by (intro ext) (simp add: entry_of_def)
    have ent: "map (entry_of s4) (remove1 x (nodes T)) = map (entry_of ?s) (remove1 a (nodes T))"
      using en e4 by simp
    have "sorted_wrt (ord ?c ?nd) (map (key_of ?s) (remove1 a (nodes T)))"
      using srt sorted_wrt_remove1[of "\<lambda>x y. ord ?c ?nd (key_of ?s x) (key_of ?s y)" "nodes T" a]
      by (simp add: sorted_keys_def sorted_wrt_map)
    moreover have "map (key_of s4) (remove1 x (nodes T)) = map (key_of ?s) (remove1 a (nodes T))"
      unfolding entry_keys ent ..
    ultimately have srt4: "sorted_keys ?c ?nd s4 (remove1 x (nodes T))"
      by (simp add: sorted_keys_map)
    have bf4: "bf_ok s4 (plug fs3 Tip)"
      using bf3 ul(2) bf_ok_cong[of "plug fs3 Tip" s4 s3] by (simp add: er)
    have "length (nodes T) > 0" using xin by (cases "nodes T") auto
    then have "int (length (nodes T) - 1) = int (length (nodes T)) - 1" by linarith
    then have len: "tsize t - 1 = int (length (remove1 x (nodes T)))"
      using xin sz by (simp only: length_remove1 if_True)
    have fr4: "list_all (\<lambda>a. a < fresh t) (remove1 x (nodes T))"
      using fr set_remove1_subset[of x "nodes T"] by (auto simp: list_all_iff)
    have av4: "avl (plug fs3 Tip)" using av3 by (simp add: er)
    have "sinv t' (plug fs3 Tip)"
      unfolding sinv_def t'_def nE
      using ul(1) dT fr4 srt4 bf4[unfolded nE] av4 len
      by simp
    moreover have "entries_of (heap t') (plug fs3 Tip) = map (entry_of ?s) (remove1 a (nodes T))"
      using ent by (simp add: entries_of_entry nE t'_def)
    ultimately show ?thesis using res Some
      by (intro exI[of _ True] exI[of _ t'] exI[of _ "plug fs3 Tip"]) (simp add: t'_def)
  qed
qed

subsection \<open>Sequences of operations\<close>

lemma sinv_new: "sinv (new_AVLTree c nd) Tip"
  by (simp add: sinv_def new_AVLTree_def sorted_keys_def)

lemma sorted_keys_bst:
  assumes vc: "valid_comparator c"
  shows "sorted_keys c nd s (nodes t) \<Longrightarrow> bst_inv c nd nd s t"
proof (induction t)
  case Tip
  show ?case by simp
next
  case (Nd l a r)
  from Nd.prems have sl: "sorted_keys c nd s (nodes l)" and sr: "sorted_keys c nd s (nodes r)"
    and la: "\<forall>x\<in>set (nodes l). ord c nd (key_of s x) (key_of s a)"
    and ar: "\<forall>y\<in>set (nodes r). ord c nd (key_of s a) (key_of s y)"
    by (auto simp: sorted_keys_def sorted_wrt_append)
  have "list_all (\<lambda>x. if nd then c (key_of s x) (key_of s a) < 0
                     else c (key_of s x) (key_of s a) \<le> 0) (nodes l)"
    using la by (auto simp: list_all_iff ord_def)
  moreover have "list_all (\<lambda>y. if nd then c (key_of s y) (key_of s a) > 0
                     else c (key_of s y) (key_of s a) \<ge> 0) (nodes r)"
    using ar vc_sym[OF vc] vc_ge[OF vc] by (auto simp: list_all_iff ord_def)
  ultimately show ?case using Nd.IH(1)[OF sl] Nd.IH(2)[OF sr] by simp
qed

lemma sinv_tree_inv:
  "valid_comparator (comparator t) \<Longrightarrow> sinv t T \<Longrightarrow> tree_inv (noDuplicates t) t T"
  by (simp add: sinv_def tree_inv_def sorted_keys_bst)

lemma run_sinv:
  fixes t :: "('k, 'v) AVLTree"
  assumes "valid_comparator (comparator t)" "sinv t T"
  shows "\<exists>t' T'. run truthy ops t = Some (Inr (), t') \<and> sinv t' T' \<and>
     comparator t' = comparator t \<and> noDuplicates t' = noDuplicates t"
  using assms
proof (induction ops arbitrary: t T)
  case Nil
  then show ?case by auto
next
  case (Cons op ops)
  show ?case
  proof (cases op)
    case (Set k v)
    from tree_set_ok[OF Cons.prems, of k v] obtain t1 T1 where
      s: "tree_set k v t = Some (Inr (), t1)" "sinv t1 T1"
      "comparator t1 = comparator t" "noDuplicates t1 = noDuplicates t" by blast
    from Cons.IH[of t1 T1] s Cons.prems(1) obtain t' T' where
      "run truthy ops t1 = Some (Inr (), t')" "sinv t' T'"
      "comparator t' = comparator t1" "noDuplicates t' = noDuplicates t1" by auto
    with s Set show ?thesis by auto
  next
    case (Delete k)
    from delete_ok[OF Cons.prems(2), of truthy k] obtain b t1 T1 where
      s: "delete truthy k t = Some (b, t1)" "sinv t1 T1"
      "comparator t1 = comparator t" "noDuplicates t1 = noDuplicates t" by blast
    from Cons.IH[of t1 T1] s Cons.prems(1) obtain t' T' where
      "run truthy ops t1 = Some (Inr (), t')" "sinv t' T'"
      "comparator t' = comparator t1" "noDuplicates t' = noDuplicates t1" by auto
    with s Delete show ?thesis by auto
  qed
qed

lemma same_key_thrice_run:
  "map_option (\<lambda>(r, t). (r, root t, right_of (heap t) 1, key_of (heap t) 0, key_of (heap t) 1))
     (run truthy_number same_key_thrice (new_AVLTree DEFAULT_COMPARE False))
   = Some (Inr (), Some 1, Some 0, 1, 1)"
  by code_simp

subsection \<open>Lookups and the sequence of entries\<close>

lemma vc_eq_lt: "valid_comparator c \<Longrightarrow> c k k' = 0 \<Longrightarrow> (c k x < 0) = (c k' x < 0)"
proof -
  assume vc: "valid_comparator c" and e: "c k k' = 0"
  from e vc_zero[OF vc, of k k'] have e': "c k' k = 0" by simp
  show ?thesis
  proof
    assume "c k x < 0"
    with vc_trans_lt2[OF vc, of k' k x] e' show "c k' x < 0" by simp
  next
    assume "c k' x < 0"
    with vc_trans_lt2[OF vc, of k k' x] e show "c k x < 0" by simp
  qed
qed

lemma vc_eq_gt: "valid_comparator c \<Longrightarrow> c k k' = 0 \<Longrightarrow> (c k x > 0) = (c k' x > 0)"
proof -
  assume vc: "valid_comparator c" and e: "c k k' = 0"
  from e vc_zero[OF vc, of k k'] have e': "c k' k = 0" by simp
  have "(c x k < 0) = (c x k' < 0)"
  proof
    assume "c x k < 0"
    with vc_trans_lt1[OF vc, of x k k'] e show "c x k' < 0" by simp
  next
    assume "c x k' < 0"
    with vc_trans_lt1[OF vc, of x k' k] e' show "c x k < 0" by simp
  qed
  then show ?thesis using vc_sym[OF vc, of x k] vc_sym[OF vc, of x k'] by simp
qed

lemma vc_eq_zero: "valid_comparator c \<Longrightarrow> c k k' = 0 \<Longrightarrow> (c k x = 0) = (c k' x = 0)"
  using vc_eq_lt[of c k k' x] vc_eq_gt[of c k k' x] by (cases "c k x" "0::int" rule: linorder_cases; cases "c k' x" "0::int" rule: linorder_cases) auto

lemma lookup_none:
  assumes vc: "valid_comparator c"
  shows "sorted_keys c nd s (nodes t) \<Longrightarrow> lookup c s k t = None \<Longrightarrow>
         \<forall>a\<in>set (nodes t). c k (key_of s a) \<noteq> 0"
proof (induction t)
  case Tip
  show ?case by simp
next
  case (Nd l a r)
  from Nd.prems(1) have sl: "sorted_keys c nd s (nodes l)" and sr: "sorted_keys c nd s (nodes r)"
    and la: "\<forall>x\<in>set (nodes l). c (key_of s x) (key_of s a) \<le> 0"
    and ar: "\<forall>y\<in>set (nodes r). c (key_of s a) (key_of s y) \<le> 0"
    by (auto simp: sorted_keys_def sorted_wrt_append dest: ord_weak)
  from Nd.prems(2) have ne: "c k (key_of s a) \<noteq> 0" by (auto split: if_splits)
  show ?case
  proof (cases "c k (key_of s a) < 0")
    case True
    with Nd.prems(2) ne have "lookup c s k l = None" by simp
    from Nd.IH(1)[OF sl this] have 1: "\<forall>x\<in>set (nodes l). c k (key_of s x) \<noteq> 0" .
    have "\<forall>y\<in>set (nodes r). c k (key_of s y) \<noteq> 0"
    proof
      fix y assume "y \<in> set (nodes r)"
      with ar have "c (key_of s a) (key_of s y) \<le> 0" by simp
      with vc_trans_lt1[OF vc True this] show "c k (key_of s y) \<noteq> 0" by simp
    qed
    with 1 ne show ?thesis by auto
  next
    case False
    with ne have gt: "c k (key_of s a) > 0" by simp
    with Nd.prems(2) ne have "lookup c s k r = None" by simp
    from Nd.IH(2)[OF sr this] have 1: "\<forall>x\<in>set (nodes r). c k (key_of s x) \<noteq> 0" .
    from gt have ak: "c (key_of s a) k < 0" using vc_sym[OF vc, of "key_of s a" k] by simp
    have "\<forall>x\<in>set (nodes l). c k (key_of s x) \<noteq> 0"
    proof
      fix x assume "x \<in> set (nodes l)"
      with la have "c (key_of s x) (key_of s a) \<le> 0" by simp
      from vc_trans_lt2[OF vc this ak] have "c (key_of s x) k < 0" .
      then show "c k (key_of s x) \<noteq> 0" using vc_sym[OF vc, of "key_of s x" k] by simp
    qed
    with 1 ne show ?thesis by auto
  qed
qed

lemma lookup_eqv:
  assumes vc: "valid_comparator c" and srt: "sorted_keys c nd s (nodes t)"
  shows "(lookup c s k t = None \<longrightarrow> eqv c k (entries_of s t) = []) \<and>
         (\<forall>a. lookup c s k t = Some a \<longrightarrow>
              (key_of s a, val_of s a) \<in> set (eqv c k (entries_of s t)))"
proof (intro conjI allI impI)
  assume "lookup c s k t = None"
  from lookup_none[OF vc srt this] show "eqv c k (entries_of s t) = []"
    by (auto simp: eqv_def entries_of_def filter_empty_conv)
next
  fix a assume "lookup c s k t = Some a"
  from lookup_in[OF this] show "(key_of s a, val_of s a) \<in> set (eqv c k (entries_of s t))"
    by (auto simp: eqv_def entries_of_def)
qed

lemma has_ok:
  assumes vc: "valid_comparator (comparator t)" and inv: "sinv t T"
  shows "has k t = Some (eqv (comparator t) k (entries_of (heap t) T) \<noteq> [], t)"
proof -
  from inv have it: "is_tree (heap t) None (root t) T"
    and srt: "sorted_keys (comparator t) (noDuplicates t) (heap t) (nodes T)"
    by (simp_all add: sinv_def)
  note le = lookup_eqv[OF vc srt, of k]
  show ?thesis
  proof (cases "root t")
    case None
    with it have "T = Tip" by simp
    with None show ?thesis by (simp add: has_def eqv_def entries_of_def)
  next
    case (Some r)
    have "(lookup (comparator t) (heap t) k T \<noteq> None) =
          (eqv (comparator t) k (entries_of (heap t) T) \<noteq> [])"
      using le by (cases "lookup (comparator t) (heap t) k T") auto
    with has_loop_tree[OF it, of "comparator t" k] Some show ?thesis
      by (simp add: has_def)
  qed
qed

lemma get_ok:
  assumes vc: "valid_comparator (comparator t)" and inv: "sinv t T"
    and one: "snd ` set (eqv (comparator t) k (entries_of (heap t) T)) = {v}"
  shows "get k t = Some (v, t)"
proof -
  from inv have it: "is_tree (heap t) None (root t) T"
    and srt: "sorted_keys (comparator t) (noDuplicates t) (heap t) (nodes T)"
    by (simp_all add: sinv_def)
  note le = lookup_eqv[OF vc srt, of k]
  from one have "eqv (comparator t) k (entries_of (heap t) T) \<noteq> []" by auto
  with le obtain a where a: "lookup (comparator t) (heap t) k T = Some a"
    by (cases "lookup (comparator t) (heap t) k T") auto
  with le have "(key_of (heap t) a, val_of (heap t) a) \<in> set (eqv (comparator t) k (entries_of (heap t) T))"
    by simp
  then have "val_of (heap t) a \<in> snd ` set (eqv (comparator t) k (entries_of (heap t) T))"
    by force
  with one have "val_of (heap t) a = v" by simp
  with get_loop_tree[OF it, of "comparator t" k] a show ?thesis by (simp add: get_def)
qed

lemma eqv_ins_other:
  assumes vc: "valid_comparator c" and ne: "c k k' \<noteq> 0"
  shows "eqv c k (ins_list c nd k' v es) = eqv c k es"
proof (induction es)
  case Nil
  with ne show ?case by (simp add: eqv_def)
next
  case (Cons e es)
  obtain k2 v2 where e: "e = (k2, v2)" by (cases e)
  show ?case
  proof (cases "nd \<and> c k' k2 = 0")
    case True
    then have "c k' k2 = 0" by simp
    with vc_zero[OF vc, of k' k2] have "c k2 k' = 0" by simp
    from vc_eq_zero[OF vc this, of k] vc_zero[OF vc, of k k'] vc_zero[OF vc, of k k2] ne
    have "c k k2 \<noteq> 0" by simp
    with True e show ?thesis by (simp add: eqv_def)
  next
    case False
    with Cons.IH e ne show ?thesis by (auto simp: eqv_def)
  qed
qed

lemma eqv_ins_nonempty:
  assumes vc: "valid_comparator c" and eq: "c k k' = 0"
  shows "eqv c k (ins_list c nd k' v es) \<noteq> []"
proof (induction es)
  case Nil
  with eq show ?case by (simp add: eqv_def)
next
  case (Cons e es)
  obtain k2 v2 where e: "e = (k2, v2)" by (cases e)
  show ?case
  proof (cases "nd \<and> c k' k2 = 0")
    case True
    with vc_eq_zero[OF vc eq, of k2] have "c k k2 = 0" by simp
    with True e show ?thesis by (simp add: eqv_def)
  next
    case False
    with Cons.IH e eq show ?thesis by (auto simp: eqv_def)
  qed
qed

lemma eqv_above:
  assumes vc: "valid_comparator c" and lt: "c k k2 < 0"
    and srt: "sorted_wrt (\<lambda>a b. c (fst a) (fst b) < 0) ((k2, v2) # es)"
  shows "eqv c k es = []"
proof -
  { fix e assume "e \<in> set es"
    with srt have "c k2 (fst e) < 0" by auto
    then have "c k2 (fst e) \<le> 0" by simp
    from vc_trans_lt1[OF vc lt this] have "c k (fst e) \<noteq> 0" by simp }
  then show ?thesis by (auto simp: eqv_def filter_empty_conv)
qed

lemma eqv_ins_same:
  assumes vc: "valid_comparator c" and eq: "c k k' = 0"
  shows "(if nd then sorted_wrt (\<lambda>a b. c (fst a) (fst b) < 0) es else eqv c k es = []) \<Longrightarrow>
         snd ` set (eqv c k (ins_list c nd k' v es)) = {v}"
proof (induction es)
  case Nil
  with eq show ?case by (simp add: eqv_def)
next
  case (Cons e es)
  obtain k2 v2 where e: "e = (k2, v2)" by (cases e)
  note z = vc_eq_zero[OF vc eq, of k2] and l = vc_eq_lt[OF vc eq, of k2]
    and g = vc_eq_gt[OF vc eq, of k2]
  show ?case
  proof (cases "nd \<and> c k' k2 = 0")
    case True
    with z have k2: "c k k2 = 0" by simp
    from True Cons.prems e have srt: "sorted_wrt (\<lambda>a b. c (fst a) (fst b) < 0) ((k2, v2) # es)"
      by simp
    have "eqv c k es = []"
    proof -
      { fix e' assume "e' \<in> set es"
        with srt have "c k2 (fst e') < 0" by auto
        with vc_eq_lt[OF vc k2, of "fst e'"] have "c k (fst e') \<noteq> 0" by simp }
      then show ?thesis by (auto simp: eqv_def filter_empty_conv)
    qed
    with True e k2 show ?thesis by (simp add: eqv_def)
  next
    case False
    show ?thesis
    proof (cases "c k' k2 > 0")
      case True
      with g have kg: "c k k2 \<noteq> 0" by simp
      have "if nd then sorted_wrt (\<lambda>a b. c (fst a) (fst b) < 0) es else eqv c k es = []"
        using Cons.prems e kg by (auto simp: eqv_def split: if_splits)
      from Cons.IH[OF this] False True e kg show ?thesis by (simp add: eqv_def)
    next
      case le: False
      have "eqv c k (e # es) = []"
      proof (cases nd)
        case True
        with False le have "c k' k2 < 0" by simp
        with l have lt: "c k k2 < 0" by simp
        from True Cons.prems e have "sorted_wrt (\<lambda>a b. c (fst a) (fst b) < 0) ((k2, v2) # es)"
          by simp
        from eqv_above[OF vc lt this] lt e show ?thesis by (simp add: eqv_def)
      next
        case False
        with Cons.prems show ?thesis by simp
      qed
      moreover have "ins_list c nd k' v (e # es) = (k', v) # e # es"
        using False le e by simp
      moreover have "eqv c k ((k', v) # e # es) = (k', v) # eqv c k (e # es)"
        using eq by (simp add: eqv_def)
      ultimately show ?thesis by simp
    qed
  qed
qed

lemma filter_map_remove1:
  "\<not> P (f a) \<Longrightarrow> filter P (map f (remove1 a ns)) = filter P (map f ns)"
  by (induction ns) auto

lemma filter_map_remove1_empty:
  "filter P (map f ns) = [] \<Longrightarrow> filter P (map f (remove1 a ns)) = []"
  using set_remove1_subset[of a ns] by (auto simp: filter_empty_conv)

lemma sinv_strict:
  "sinv t T \<Longrightarrow> noDuplicates t \<Longrightarrow>
   sorted_wrt (\<lambda>a b. comparator t (fst a) (fst b) < 0) (entries_of (heap t) T)"
  by (simp add: sinv_def sorted_keys_def entries_of_def sorted_wrt_map ord_def)

text \<open>One operation and the entries with a given key.\<close>

lemma set_eqv_other:
  fixes t :: "('k, 'v) AVLTree"
  assumes vc: "valid_comparator (comparator t)" and inv: "sinv t T"
    and ne: "comparator t k k' \<noteq> 0"
  shows "\<exists>t' T'. tree_set k' v t = Some (Inr (), t') \<and> sinv t' T' \<and>
     comparator t' = comparator t \<and> noDuplicates t' = noDuplicates t \<and>
     eqv (comparator t) k (entries_of (heap t') T') = eqv (comparator t) k (entries_of (heap t) T)"
proof -
  from tree_set_ok[OF vc inv, of k' v] obtain t' T' where
    s: "tree_set k' v t = Some (Inr (), t')" "sinv t' T'"
    "comparator t' = comparator t" "noDuplicates t' = noDuplicates t"
    "entries_of (heap t') T' =
       ins_list (comparator t) (noDuplicates t) k' v (entries_of (heap t) T)" by blast
  from s(5) have "eqv (comparator t) k (entries_of (heap t') T') =
      eqv (comparator t) k (entries_of (heap t) T)"
    by (simp add: eqv_ins_other[OF vc ne])
  with s show ?thesis by blast
qed

lemma delete_eqv:
  fixes t :: "('k, 'v) AVLTree"
  assumes vc: "valid_comparator (comparator t)" and inv: "sinv t T"
  shows "\<exists>b t' T'. delete truthy k' t = Some (b, t') \<and> sinv t' T' \<and>
     comparator t' = comparator t \<and> noDuplicates t' = noDuplicates t \<and>
     (comparator t k k' \<noteq> 0 \<longrightarrow>
        eqv (comparator t) k (entries_of (heap t') T') =
        eqv (comparator t) k (entries_of (heap t) T)) \<and>
     (eqv (comparator t) k (entries_of (heap t) T) = [] \<longrightarrow>
        eqv (comparator t) k (entries_of (heap t') T') = [])"
proof -
  let ?c = "comparator t"
  from delete_ok[OF inv, of truthy k'] obtain b t' T' where
    s: "delete truthy k' t = Some (b, t')" "sinv t' T'"
    "comparator t' = comparator t" "noDuplicates t' = noDuplicates t"
    and cs: "(case (if truthy k' then lookup ?c (heap t) k' T else None) of
        None \<Rightarrow> \<not> b \<and> t' = t \<and> T' = T
      | Some a \<Rightarrow> b \<and> tsize t' = tsize t - 1 \<and>
          entries_of (heap t') T' = map (entry_of (heap t)) (remove1 a (nodes T)))"
    by blast
  have "(?c k k' \<noteq> 0 \<longrightarrow>
        eqv ?c k (entries_of (heap t') T') = eqv ?c k (entries_of (heap t) T)) \<and>
     (eqv ?c k (entries_of (heap t) T) = [] \<longrightarrow> eqv ?c k (entries_of (heap t') T') = [])"
  proof (cases "if truthy k' then lookup ?c (heap t) k' T else None")
    case None
    with cs show ?thesis by simp
  next
    case (Some a)
    with cs have en: "entries_of (heap t') T' = map (entry_of (heap t)) (remove1 a (nodes T))"
      by simp
    from Some have "lookup ?c (heap t) k' T = Some a" by (simp split: if_splits)
    from lookup_in[OF this] have ka: "?c k' (key_of (heap t) a) = 0" by simp
    have 1: "?c k k' \<noteq> 0 \<longrightarrow> ?c k (fst (entry_of (heap t) a)) \<noteq> 0"
    proof
      assume ne: "?c k k' \<noteq> 0"
      from ka vc_zero[OF vc, of k' "key_of (heap t) a"] have "?c (key_of (heap t) a) k' = 0" by simp
      from vc_eq_zero[OF vc this, of k] vc_zero[OF vc, of k k'] vc_zero[OF vc, of k "key_of (heap t) a"] ne
      show "?c k (fst (entry_of (heap t) a)) \<noteq> 0" by (simp add: entry_of_def)
    qed
    have e1: "eqv ?c k (entries_of (heap t') T') =
        filter (\<lambda>e. ?c k (fst e) = 0) (map (entry_of (heap t)) (remove1 a (nodes T)))"
      by (simp only: en eqv_def)
    have e2: "eqv ?c k (entries_of (heap t) T) =
        filter (\<lambda>e. ?c k (fst e) = 0) (map (entry_of (heap t)) (nodes T))"
      by (simp only: eqv_def entries_of_entry)
    show ?thesis
      unfolding e1 e2
      using 1 filter_map_remove1[of "\<lambda>e. ?c k (fst e) = 0" "entry_of (heap t)" a "nodes T"]
        filter_map_remove1_empty[of "\<lambda>e. ?c k (fst e) = 0" "entry_of (heap t)" "nodes T" a]
      by auto
  qed
  with s show ?thesis by blast
qed

lemma run_append:
  "run truthy (ops1 @ ops2) t =
     (case run truthy ops1 t of
        None \<Rightarrow> None
      | Some (Inl e, t') \<Rightarrow> Some (Inl e, t')
      | Some (Inr u, t') \<Rightarrow> run truthy ops2 t')"
proof (induction ops1 arbitrary: t)
  case Nil
  show ?case by simp
next
  case (Cons op ops1)
  show ?case
  proof (cases op)
    case (Set k v)
    then show ?thesis using Cons.IH by (auto split: option.splits sum.splits)
  next
    case (Delete k)
    then show ?thesis using Cons.IH by (auto split: option.splits sum.splits)
  qed
qed

lemma run_eqv_other:
  fixes t :: "('k, 'v) AVLTree"
  assumes "valid_comparator (comparator t)" "sinv t T"
    and "\<forall>op\<in>set ops. comparator t k (op_key op) \<noteq> 0"
  shows "\<exists>t' T'. run truthy ops t = Some (Inr (), t') \<and> sinv t' T' \<and>
     comparator t' = comparator t \<and> noDuplicates t' = noDuplicates t \<and>
     eqv (comparator t) k (entries_of (heap t') T') = eqv (comparator t) k (entries_of (heap t) T)"
  using assms
proof (induction ops arbitrary: t T)
  case Nil
  then show ?case by auto
next
  case (Cons op ops)
  show ?case
  proof (cases op)
    case (Set k' v)
    with Cons.prems(3) have ne: "comparator t k k' \<noteq> 0" by simp
    from set_eqv_other[OF Cons.prems(1,2) ne, of v] obtain t1 T1 where
      s: "tree_set k' v t = Some (Inr (), t1)" "sinv t1 T1"
      "comparator t1 = comparator t" "noDuplicates t1 = noDuplicates t"
      "eqv (comparator t) k (entries_of (heap t1) T1) = eqv (comparator t) k (entries_of (heap t) T)"
      by blast
    from Cons.IH[of t1 T1] s Cons.prems obtain t' T' where
      "run truthy ops t1 = Some (Inr (), t')" "sinv t' T'"
      "comparator t' = comparator t1" "noDuplicates t' = noDuplicates t1"
      "eqv (comparator t1) k (entries_of (heap t') T') = eqv (comparator t1) k (entries_of (heap t1) T1)"
      by auto
    with s Set show ?thesis by auto
  next
    case (Delete k')
    with Cons.prems(3) have ne: "comparator t k k' \<noteq> 0" by simp
    from delete_eqv[OF Cons.prems(1,2), of truthy k' k] ne obtain b t1 T1 where
      s: "delete truthy k' t = Some (b, t1)" "sinv t1 T1"
      "comparator t1 = comparator t" "noDuplicates t1 = noDuplicates t"
      "eqv (comparator t) k (entries_of (heap t1) T1) = eqv (comparator t) k (entries_of (heap t) T)"
      by blast
    from Cons.IH[of t1 T1] s Cons.prems obtain t' T' where
      "run truthy ops t1 = Some (Inr (), t')" "sinv t' T'"
      "comparator t' = comparator t1" "noDuplicates t' = noDuplicates t1"
      "eqv (comparator t1) k (entries_of (heap t') T') = eqv (comparator t1) k (entries_of (heap t1) T1)"
      by auto
    with s Delete show ?thesis by auto
  qed
qed

lemma run_eqv_none:
  fixes t :: "('k, 'v) AVLTree"
  assumes "valid_comparator (comparator t)" "sinv t T"
    and "\<forall>op\<in>set ops. is_Set op \<longrightarrow> comparator t k (op_key op) \<noteq> 0"
    and "eqv (comparator t) k (entries_of (heap t) T) = []"
  shows "\<exists>t' T'. run truthy ops t = Some (Inr (), t') \<and> sinv t' T' \<and>
     comparator t' = comparator t \<and> noDuplicates t' = noDuplicates t \<and>
     eqv (comparator t) k (entries_of (heap t') T') = []"
  using assms
proof (induction ops arbitrary: t T)
  case Nil
  then show ?case by auto
next
  case (Cons op ops)
  show ?case
  proof (cases op)
    case (Set k' v)
    with Cons.prems(3) have ne: "comparator t k k' \<noteq> 0" by simp
    from set_eqv_other[OF Cons.prems(1,2) ne, of v] Cons.prems(4) obtain t1 T1 where
      s: "tree_set k' v t = Some (Inr (), t1)" "sinv t1 T1"
      "comparator t1 = comparator t" "noDuplicates t1 = noDuplicates t"
      "eqv (comparator t) k (entries_of (heap t1) T1) = []"
      by auto
    from Cons.IH[of t1 T1] s Cons.prems obtain t' T' where
      "run truthy ops t1 = Some (Inr (), t')" "sinv t' T'"
      "comparator t' = comparator t1" "noDuplicates t' = noDuplicates t1"
      "eqv (comparator t1) k (entries_of (heap t') T') = []"
      by auto
    with s Set show ?thesis by auto
  next
    case (Delete k')
    from delete_eqv[OF Cons.prems(1,2), of truthy k' k] Cons.prems(4) obtain b t1 T1 where
      s: "delete truthy k' t = Some (b, t1)" "sinv t1 T1"
      "comparator t1 = comparator t" "noDuplicates t1 = noDuplicates t"
      "eqv (comparator t) k (entries_of (heap t1) T1) = []"
      by blast
    from Cons.IH[of t1 T1] s Cons.prems obtain t' T' where
      "run truthy ops t1 = Some (Inr (), t')" "sinv t' T'"
      "comparator t' = comparator t1" "noDuplicates t' = noDuplicates t1"
      "eqv (comparator t1) k (entries_of (heap t') T') = []"
      by auto
    with s Delete show ?thesis by auto
  qed
qed

lemma new_entries: "entries_of (heap (new_AVLTree c nd)) Tip = []"
  by (simp add: entries_of_def)

subsection \<open>Bulk loading and insertion one at a time\<close>

lemma ins_list_strict:
  assumes vc: "valid_comparator c"
  shows "sorted_wrt (\<lambda>a b. c (fst a) (fst b) < 0) es \<Longrightarrow> \<forall>e\<in>set es. c k (fst e) \<noteq> 0 \<Longrightarrow>
     sorted_wrt (\<lambda>a b. c (fst a) (fst b) < 0) (ins_list c nd k v es) \<and>
     set (ins_list c nd k v es) = insert (k, v) (set es)"
proof (induction es)
  case Nil
  show ?case by simp
next
  case (Cons e es)
  obtain k2 v2 where e: "e = (k2, v2)" by (cases e)
  from Cons.prems e have ne: "c k k2 \<noteq> 0" by simp
  from Cons.prems have srt: "sorted_wrt (\<lambda>a b. c (fst a) (fst b) < 0) es"
    and hd: "\<forall>x\<in>set es. c k2 (fst x) < 0" and nes: "\<forall>e\<in>set es. c k (fst e) \<noteq> 0"
    using e by auto
  show ?case
  proof (cases "c k k2 > 0")
    case True
    then have lt: "c k2 k < 0" using vc_sym[OF vc, of k2 k] by simp
    from Cons.IH[OF srt nes] have ih: "sorted_wrt (\<lambda>a b. c (fst a) (fst b) < 0) (ins_list c nd k v es)"
      "set (ins_list c nd k v es) = insert (k, v) (set es)" by simp_all
    have "\<forall>x\<in>set (ins_list c nd k v es). c k2 (fst x) < 0"
      using ih(2) hd lt by auto
    with ih True ne e show ?thesis by auto
  next
    case False
    with ne have lt: "c k k2 < 0" by simp
    have "\<forall>x\<in>set es. c k (fst x) < 0"
    proof
      fix x assume "x \<in> set es"
      with hd have "c k2 (fst x) \<le> 0" by force
      from vc_trans_lt1[OF vc lt this] show "c k (fst x) < 0" .
    qed
    with False ne e lt Cons.prems(1) show ?thesis by auto
  qed
qed

lemma strict_sorted_unique:
  assumes vc: "valid_comparator c"
  shows "sorted_wrt (\<lambda>a b. c (fst a) (fst b) < 0) xs \<Longrightarrow>
         sorted_wrt (\<lambda>a b. c (fst a) (fst b) < 0) ys \<Longrightarrow> set xs = set ys \<Longrightarrow> xs = ys"
proof (induction xs arbitrary: ys)
  case Nil
  then show ?case by simp
next
  case (Cons x xs)
  from Cons.prems(3) obtain y ys' where ys: "ys = y # ys'" by (cases ys) auto
  have irr: "\<And>a. \<not> c (fst a) (fst a) < 0" using vc_refl[OF vc] by simp
  have asym: "\<And>a b. c (fst a) (fst b) < 0 \<Longrightarrow> \<not> c (fst b) (fst a) < 0"
    using vc_sym[OF vc] by force
  have xy: "x = y"
  proof (rule ccontr)
    assume n: "x \<noteq> y"
    with Cons.prems(3) ys have "x \<in> set ys'" "y \<in> set xs" by auto
    with Cons.prems(1,2) ys have "c (fst y) (fst x) < 0" "c (fst x) (fst y) < 0" by auto
    with asym show False by blast
  qed
  have "x \<notin> set xs" using Cons.prems(1) irr by auto
  moreover have "y \<notin> set ys'" using Cons.prems(2) ys irr by auto
  ultimately have "set xs = set ys'" using Cons.prems(3) ys xy by auto
  with Cons.IH[of ys'] Cons.prems(1,2) ys xy show ?case by simp
qed

lemma strict_sorted_noneq:
  assumes vc: "valid_comparator c" and srt: "sorted_wrt (\<lambda>a b. c (fst a) (fst b) < 0) zs"
    and p: "p \<in> set zs" and q: "q \<in> set zs" and ne: "p \<noteq> q"
  shows "c (fst p) (fst q) \<noteq> 0"
proof -
  from p q ne srt have "c (fst p) (fst q) < 0 \<or> c (fst q) (fst p) < 0"
  proof (induction zs)
    case Nil
    then show ?case by simp
  next
    case (Cons z zs)
    then show ?case by auto
  qed
  then show ?thesis using vc_sym[OF vc, of "fst q" "fst p"] by auto
qed

lemma run_sets_entries:
  fixes t :: "('k, 'v) AVLTree"
  assumes vc: "valid_comparator (comparator t)"
    and zs: "sorted_wrt (\<lambda>a b. comparator t (fst a) (fst b) < 0) zs"
  shows "sinv t T \<Longrightarrow> sorted_wrt (\<lambda>a b. comparator t (fst a) (fst b) < 0) (entries_of (heap t) T) \<Longrightarrow>
     set (entries_of (heap t) T) \<union> set ps \<subseteq> set zs \<Longrightarrow> distinct ps \<Longrightarrow>
     set ps \<inter> set (entries_of (heap t) T) = {} \<Longrightarrow> comparator t = c \<Longrightarrow>
     \<exists>t' T'. run truthy (map (\<lambda>(k, v). Set k v) ps) t = Some (Inr (), t') \<and> sinv t' T' \<and>
       sorted_wrt (\<lambda>a b. c (fst a) (fst b) < 0) (entries_of (heap t') T') \<and>
       set (entries_of (heap t') T') = set (entries_of (heap t) T) \<union> set ps"
  using vc zs
proof (induction ps arbitrary: t T)
  case Nil
  then show ?case by auto
next
  case (Cons p ps)
  obtain k v where p: "p = (k, v)" by (cases p)
  let ?E = "entries_of (heap t) T"
  from Cons.prems have vc: "valid_comparator (comparator t)" by simp
  have ne: "\<forall>e\<in>set ?E. comparator t k (fst e) \<noteq> 0"
  proof
    fix e assume e: "e \<in> set ?E"
    with Cons.prems(3,5) have "e \<in> set zs" "p \<in> set zs" "p \<noteq> e" by auto
    from strict_sorted_noneq[OF vc Cons.prems(8) this(2) this(1) this(3)] p
    show "comparator t k (fst e) \<noteq> 0" by simp
  qed
  from tree_set_ok[OF vc Cons.prems(1), of k v] obtain t1 T1 where
    s: "tree_set k v t = Some (Inr (), t1)" "sinv t1 T1"
    "comparator t1 = comparator t" "noDuplicates t1 = noDuplicates t"
    "entries_of (heap t1) T1 = ins_list (comparator t) (noDuplicates t) k v ?E" by blast
  from ins_list_strict[OF vc Cons.prems(2) ne, of "noDuplicates t" v] s(5)
  have e1: "sorted_wrt (\<lambda>a b. comparator t (fst a) (fst b) < 0) (entries_of (heap t1) T1)"
    "set (entries_of (heap t1) T1) = insert (k, v) (set ?E)" by simp_all
  have "\<exists>t' T'. run truthy (map (\<lambda>(k, v). Set k v) ps) t1 = Some (Inr (), t') \<and> sinv t' T' \<and>
       sorted_wrt (\<lambda>a b. c (fst a) (fst b) < 0) (entries_of (heap t') T') \<and>
       set (entries_of (heap t') T') = set (entries_of (heap t1) T1) \<union> set ps"
  proof (rule Cons.IH[OF s(2)])
    show "sorted_wrt (\<lambda>a b. comparator t1 (fst a) (fst b) < 0) (entries_of (heap t1) T1)"
      using e1(1) s(3) by simp
    show "set (entries_of (heap t1) T1) \<union> set ps \<subseteq> set zs"
      using e1(2) Cons.prems(3) p by auto
    show "distinct ps" using Cons.prems(4) by simp
    show "set ps \<inter> set (entries_of (heap t1) T1) = {}"
      using e1(2) Cons.prems(4,5) p by auto
    show "comparator t1 = c" using s(3) Cons.prems(6) by simp
    show "valid_comparator (comparator t1)" using vc s(3) by simp
    show "sorted_wrt (\<lambda>a b. comparator t1 (fst a) (fst b) < 0) zs"
      using Cons.prems(8) s(3) by simp
  qed
  then obtain t' T' where
    "run truthy (map (\<lambda>(k, v). Set k v) ps) t1 = Some (Inr (), t')" "sinv t' T'"
    "sorted_wrt (\<lambda>a b. c (fst a) (fst b) < 0) (entries_of (heap t') T')"
    "set (entries_of (heap t') T') = set (entries_of (heap t1) T1) \<union> set ps" by blast
  with s(1) e1(2) p show ?case by (intro exI[of _ t'] exI[of _ T']) auto
qed

lemma entries_ok:
  "is_tree (heap t) None (root t) T \<Longrightarrow> entries t = Some (entries_of (heap t) T, t)"
  by (simp add: entries_def entries_of_def yield_loop_root)

lemma zip_indices:
  "length vs = length ks \<Longrightarrow>
   map (\<lambda>i. (ks ! i, if i < length vs then Some (vs ! i) else None)) [0 ..< length ks] =
   zip ks (map Some vs)"
  by (rule nth_equalityI) auto

section \<open>The claims\<close>

text \<open>
  Claim C4.  For a node \<open>a\<close> whose right child \<open>b\<close> exists (in a store whose links around \<open>a\<close>
  are those of a tree: \<open>b\<close> is not \<open>a\<close>, the left child of \<open>b\<close> is not \<open>a\<close>, and \<open>a\<close> is not
  its own parent), \<open>rotateLeft a\<close> returns \<open>b\<close>; afterwards \<open>b\<close> stands where \<open>a\<close> stood (its
  parent link is the former parent link of \<open>a\<close>, and the child link of that parent that led
  to \<open>a\<close> leads to \<open>b\<close>), \<open>a\<close> is the left child of \<open>b\<close>, the former left subtree of \<open>b\<close> is the
  right subtree of \<open>a\<close> with its parent link set to \<open>a\<close>, every other link, every key and
  every value is unchanged, and the two balance factors are computed from the old ones by
  \<open>node.bf += 1; if (promoted.bf < 0) node.bf -= promoted.bf; promoted.bf += 1;
   if (node.bf > 0) promoted.bf += node.bf\<close>.  \<open>rotateRight\<close> on a node whose left child exists
  is the mirror image.
\<close>

theorem rotate_promotes_child:
  "(right_of s a = Some b \<and> a \<noteq> b \<and> left_of s b \<noteq> Some a \<and> parent_of s a \<noteq> Some a \<longrightarrow>
      snd (rotateLeft a s) = Some b \<and>
      (\<forall>x. left_of (fst (rotateLeft a s)) x =
             (if x = b then Some a
              else if Some x = parent_of s a \<and> left_of s x = Some a then Some b
              else left_of s x) \<and>
           right_of (fst (rotateLeft a s)) x =
             (if x = a then left_of s b
              else if Some x = parent_of s a \<and> left_of s x \<noteq> Some a then Some b
              else right_of s x) \<and>
           parent_of (fst (rotateLeft a s)) x =
             (if x = a then Some b else if x = b then parent_of s a
              else if Some x = left_of s b then Some a else parent_of s x) \<and>
           bf_of (fst (rotateLeft a s)) x =
             (if x = a then
                (if bf_of s b < 0 then bf_of s a + 1 - bf_of s b else bf_of s a + 1)
              else if x = b then
                (if (if bf_of s b < 0 then bf_of s a + 1 - bf_of s b else bf_of s a + 1) > 0
                 then bf_of s b + 1 +
                      (if bf_of s b < 0 then bf_of s a + 1 - bf_of s b else bf_of s a + 1)
                 else bf_of s b + 1)
              else bf_of s x) \<and>
           key_of (fst (rotateLeft a s)) x = key_of s x \<and>
           val_of (fst (rotateLeft a s)) x = val_of s x)) \<and>
   (left_of s a = Some b \<and> a \<noteq> b \<and> right_of s b \<noteq> Some a \<and> parent_of s a \<noteq> Some a \<longrightarrow>
      snd (rotateRight a s) = Some b \<and>
      (\<forall>x. left_of (fst (rotateRight a s)) x =
             (if x = a then right_of s b
              else if Some x = parent_of s a \<and> left_of s x = Some a then Some b
              else left_of s x) \<and>
           right_of (fst (rotateRight a s)) x =
             (if x = b then Some a
              else if Some x = parent_of s a \<and> left_of s x \<noteq> Some a then Some b
              else right_of s x) \<and>
           parent_of (fst (rotateRight a s)) x =
             (if x = a then Some b else if x = b then parent_of s a
              else if Some x = right_of s b then Some a else parent_of s x) \<and>
           bf_of (fst (rotateRight a s)) x =
             (if x = a then
                (if bf_of s b > 0 then bf_of s a - 1 - bf_of s b else bf_of s a - 1)
              else if x = b then
                (if (if bf_of s b > 0 then bf_of s a - 1 - bf_of s b else bf_of s a - 1) < 0
                 then bf_of s b - 1 +
                      (if bf_of s b > 0 then bf_of s a - 1 - bf_of s b else bf_of s a - 1)
                 else bf_of s b - 1)
              else bf_of s x) \<and>
           key_of (fst (rotateRight a s)) x = key_of s x \<and>
           val_of (fst (rotateRight a s)) x = val_of s x))"
proof (intro conjI impI allI)
  assume h: "right_of s a = Some b \<and> a \<noteq> b \<and> left_of s b \<noteq> Some a \<and> parent_of s a \<noteq> Some a"
  then have 1: "right_of s a = Some b" and 2: "a \<noteq> b" and 3: "left_of s b \<noteq> Some a"
    and 4: "parent_of s a \<noteq> Some a"
    by simp_all
  note e = rotateLeft_effect [OF 1 2 3 4]
  show "snd (rotateLeft a s) = Some b" by (rule e(1))
  fix x
  show "left_of (fst (rotateLeft a s)) x =
             (if x = b then Some a
              else if Some x = parent_of s a \<and> left_of s x = Some a then Some b
              else left_of s x)" by (rule e(2))
  show "right_of (fst (rotateLeft a s)) x =
             (if x = a then left_of s b
              else if Some x = parent_of s a \<and> left_of s x \<noteq> Some a then Some b
              else right_of s x)" by (rule e(3))
  show "parent_of (fst (rotateLeft a s)) x =
             (if x = a then Some b else if x = b then parent_of s a
              else if Some x = left_of s b then Some a else parent_of s x)" by (rule e(4))
  show "bf_of (fst (rotateLeft a s)) x =
             (if x = a then
                (if bf_of s b < 0 then bf_of s a + 1 - bf_of s b else bf_of s a + 1)
              else if x = b then
                (if (if bf_of s b < 0 then bf_of s a + 1 - bf_of s b else bf_of s a + 1) > 0
                 then bf_of s b + 1 +
                      (if bf_of s b < 0 then bf_of s a + 1 - bf_of s b else bf_of s a + 1)
                 else bf_of s b + 1)
              else bf_of s x)" by (rule e(5))
  show "key_of (fst (rotateLeft a s)) x = key_of s x" by (rule e(6))
  show "val_of (fst (rotateLeft a s)) x = val_of s x" by (rule e(7))
next
  assume h: "left_of s a = Some b \<and> a \<noteq> b \<and> right_of s b \<noteq> Some a \<and> parent_of s a \<noteq> Some a"
  then have 1: "left_of s a = Some b" and 2: "a \<noteq> b" and 3: "right_of s b \<noteq> Some a"
    and 4: "parent_of s a \<noteq> Some a"
    by simp_all
  note e = rotateRight_effect [OF 1 2 3 4]
  show "snd (rotateRight a s) = Some b" by (rule e(1))
  fix x
  show "left_of (fst (rotateRight a s)) x =
             (if x = a then right_of s b
              else if Some x = parent_of s a \<and> left_of s x = Some a then Some b
              else left_of s x)" by (rule e(2))
  show "right_of (fst (rotateRight a s)) x =
             (if x = b then Some a
              else if Some x = parent_of s a \<and> left_of s x \<noteq> Some a then Some b
              else right_of s x)" by (rule e(3))
  show "parent_of (fst (rotateRight a s)) x =
             (if x = a then Some b else if x = b then parent_of s a
              else if Some x = right_of s b then Some a else parent_of s x)" by (rule e(4))
  show "bf_of (fst (rotateRight a s)) x =
             (if x = a then
                (if bf_of s b > 0 then bf_of s a - 1 - bf_of s b else bf_of s a - 1)
              else if x = b then
                (if (if bf_of s b > 0 then bf_of s a - 1 - bf_of s b else bf_of s a - 1) < 0
                 then bf_of s b - 1 +
                      (if bf_of s b > 0 then bf_of s a - 1 - bf_of s b else bf_of s a - 1)
                 else bf_of s b - 1)
              else bf_of s x)" by (rule e(5))
  show "key_of (fst (rotateRight a s)) x = key_of s x" by (rule e(6))
  show "val_of (fst (rotateRight a s)) x = val_of s x" by (rule e(7))
qed

theorem rotate_promotes_child_witness:
  "(right_of chain_right 0 = Some 1 \<and> left_of chain_right 1 \<noteq> Some 0 \<and>
    parent_of chain_right 0 \<noteq> Some 0 \<and>
    snd (rotateLeft 0 chain_right) = Some 1 \<and>
    left_of (fst (rotateLeft 0 chain_right)) 1 = Some 0 \<and>
    right_of (fst (rotateLeft 0 chain_right)) 1 = Some 2 \<and>
    right_of (fst (rotateLeft 0 chain_right)) 0 = None \<and>
    parent_of (fst (rotateLeft 0 chain_right)) 0 = Some 1 \<and>
    parent_of (fst (rotateLeft 0 chain_right)) 1 = None \<and>
    bf_of (fst (rotateLeft 0 chain_right)) 0 = 0 \<and>
    bf_of (fst (rotateLeft 0 chain_right)) 1 = 0) \<and>
   (left_of chain_left 0 = Some 1 \<and> right_of chain_left 1 \<noteq> Some 0 \<and>
    parent_of chain_left 0 \<noteq> Some 0 \<and>
    snd (rotateRight 0 chain_left) = Some 1 \<and>
    right_of (fst (rotateRight 0 chain_left)) 1 = Some 0 \<and>
    left_of (fst (rotateRight 0 chain_left)) 1 = Some 2 \<and>
    left_of (fst (rotateRight 0 chain_left)) 0 = None \<and>
    parent_of (fst (rotateRight 0 chain_left)) 0 = Some 1 \<and>
    parent_of (fst (rotateRight 0 chain_left)) 1 = None \<and>
    bf_of (fst (rotateRight 0 chain_left)) 0 = 0 \<and>
    bf_of (fst (rotateRight 0 chain_left)) 1 = 0)"
proof -
  have l: "right_of chain_right 0 = Some 1" "(0::nat) \<noteq> 1" "left_of chain_right 1 \<noteq> Some 0"
    "parent_of chain_right 0 \<noteq> Some 0" "left_of chain_right 1 = None"
    "parent_of chain_right 0 = None" "right_of chain_right 1 = Some 2"
    "bf_of chain_right 0 = - 2" "bf_of chain_right 1 = - 1"
    by (simp_all add: chain_right_def right_of_def left_of_def parent_of_def bf_of_def)
  have r: "left_of chain_left 0 = Some 1" "right_of chain_left 1 \<noteq> Some 0"
    "parent_of chain_left 0 \<noteq> Some 0" "right_of chain_left 1 = None"
    "parent_of chain_left 0 = None" "left_of chain_left 1 = Some 2"
    "bf_of chain_left 0 = 2" "bf_of chain_left 1 = 1"
    by (simp_all add: chain_left_def right_of_def left_of_def parent_of_def bf_of_def)
  from rotate_promotes_child [of chain_right 0 1] l
  have 1: "snd (rotateLeft 0 chain_right) = Some 1 \<and>
    left_of (fst (rotateLeft 0 chain_right)) 1 = Some 0 \<and>
    right_of (fst (rotateLeft 0 chain_right)) 1 = Some 2 \<and>
    right_of (fst (rotateLeft 0 chain_right)) 0 = None \<and>
    parent_of (fst (rotateLeft 0 chain_right)) 0 = Some 1 \<and>
    parent_of (fst (rotateLeft 0 chain_right)) 1 = None \<and>
    bf_of (fst (rotateLeft 0 chain_right)) 0 = 0 \<and>
    bf_of (fst (rotateLeft 0 chain_right)) 1 = 0"
    by simp
  from rotate_promotes_child [of chain_left 0 1] r
  have 2: "snd (rotateRight 0 chain_left) = Some 1 \<and>
    right_of (fst (rotateRight 0 chain_left)) 1 = Some 0 \<and>
    left_of (fst (rotateRight 0 chain_left)) 1 = Some 2 \<and>
    left_of (fst (rotateRight 0 chain_left)) 0 = None \<and>
    parent_of (fst (rotateRight 0 chain_left)) 0 = Some 1 \<and>
    parent_of (fst (rotateRight 0 chain_left)) 1 = None \<and>
    bf_of (fst (rotateRight 0 chain_left)) 0 = 0 \<and>
    bf_of (fst (rotateRight 0 chain_left)) 1 = 0"
    by simp
  show ?thesis using 1 2 l r by simp
qed

text \<open>
  Claim C10.  The query operations \<open>has\<close>, \<open>get\<close>, \<open>min\<close>, \<open>max\<close>, \<open>minNode\<close>, \<open>maxNode\<close>, \<open>at\<close>,
  \<open>keys\<close>, \<open>values\<close>, \<open>entries\<close> and \<open>isBalanced\<close> never modify the tree: whenever one of them
  returns, the tree object (root, size, and the store with every node's key, value, links
  and balance factor) is the one it was called on; and on every tree whose links are
  well formed each of them does return.
\<close>

theorem queries_leave_tree_unchanged:
  "((\<forall>r t'. has k t = Some (r, t') \<longrightarrow> t' = t) \<and>
    (\<forall>r t'. get k t = Some (r, t') \<longrightarrow> t' = t) \<and>
    (\<forall>r t'. tree_min t = Some (r, t') \<longrightarrow> t' = t) \<and>
    (\<forall>r t'. tree_max t = Some (r, t') \<longrightarrow> t' = t) \<and>
    (\<forall>r t'. minNode t = Some (r, t') \<longrightarrow> t' = t) \<and>
    (\<forall>r t'. maxNode t = Some (r, t') \<longrightarrow> t' = t) \<and>
    (\<forall>r t'. at i t = Some (r, t') \<longrightarrow> t' = t) \<and>
    (\<forall>r t'. keys t = Some (r, t') \<longrightarrow> t' = t) \<and>
    (\<forall>r t'. tree_values t = Some (r, t') \<longrightarrow> t' = t) \<and>
    (\<forall>r t'. entries t = Some (r, t') \<longrightarrow> t' = t) \<and>
    (\<forall>r t'. isBalanced t = Some (r, t') \<longrightarrow> t' = t)) \<and>
   (is_tree (heap t) None (root t) T \<longrightarrow>
      (\<exists>r. has k t = Some (r, t)) \<and>
      (\<exists>r. get k t = Some (r, t)) \<and>
      (\<exists>r. tree_min t = Some (r, t)) \<and>
      (\<exists>r. tree_max t = Some (r, t)) \<and>
      (\<exists>r. minNode t = Some (r, t)) \<and>
      (\<exists>r. maxNode t = Some (r, t)) \<and>
      (\<exists>r. at i t = Some (r, t)) \<and>
      (\<exists>r. keys t = Some (r, t)) \<and>
      (\<exists>r. tree_values t = Some (r, t)) \<and>
      (\<exists>r. entries t = Some (r, t)) \<and>
      (\<exists>r. isBalanced t = Some (r, t)))"
proof (intro conjI impI allI)
  fix r t'
  { assume "has k t = Some (r, t')" then show "t' = t"
      by (auto simp: has_def split: option.splits) }
  { assume "get k t = Some (r, t')" then show "t' = t"
      by (auto simp: get_def) }
  { assume "minNode t = Some (r, t')" then show "t' = t"
      by (auto simp: minNode_def split: option.splits) }
  { assume "maxNode t = Some (r, t')" then show "t' = t"
      by (auto simp: maxNode_def split: option.splits) }
  { assume "at i t = Some (r, t')" then show "t' = t"
      by (auto simp: at_def forEach_def) }
  { assume "keys t = Some (r, t')" then show "t' = t"
      by (auto simp: keys_def) }
  { assume "tree_values t = Some (r, t')" then show "t' = t"
      by (auto simp: tree_values_def) }
  { assume "entries t = Some (r, t')" then show "t' = t"
      by (auto simp: entries_def) }
  { assume "isBalanced t = Some (r, t')" then show "t' = t"
      by (auto simp: isBalanced_def) }
next
  fix r t'
  assume "tree_min t = Some (r, t')" then show "t' = t"
    by (auto simp: tree_min_def minNode_def split: option.splits)
next
  fix r t'
  assume "tree_max t = Some (r, t')" then show "t' = t"
    by (auto simp: tree_max_def maxNode_def split: option.splits)
next
  assume T: "is_tree (heap t) None (root t) T"
  show "\<exists>r. has k t = Some (r, t)"
    using has_loop_tree [OF T] by (auto simp: has_def split: option.splits)
  show "\<exists>r. get k t = Some (r, t)"
    using get_loop_tree [OF T] by (auto simp: get_def)
  show mn: "\<exists>r. minNode t = Some (r, t)"
  proof (cases "root t")
    case None then show ?thesis by (simp add: minNode_def)
  next
    case (Some a)
    with T leftmost_tree [of "heap t" None a T] show ?thesis by (simp add: minNode_def)
  qed
  show mx: "\<exists>r. maxNode t = Some (r, t)"
  proof (cases "root t")
    case None then show ?thesis by (simp add: maxNode_def)
  next
    case (Some a)
    with T rightmost_tree [of "heap t" None a T] show ?thesis by (simp add: maxNode_def)
  qed
  from mn show "\<exists>r. tree_min t = Some (r, t)"
    by (auto simp: tree_min_def split: option.splits)
  from mx show "\<exists>r. tree_max t = Some (r, t)"
    by (auto simp: tree_max_def split: option.splits)
  show "\<exists>r. at i t = Some (r, t)"
    by (simp add: at_def forEach_def forEach_loop_root [OF T])
  show "\<exists>r. keys t = Some (r, t)"
    by (simp add: keys_def yield_loop_root [OF T])
  show "\<exists>r. tree_values t = Some (r, t)"
    by (simp add: tree_values_def yield_loop_root [OF T])
  show "\<exists>r. entries t = Some (r, t)"
    by (simp add: entries_def yield_loop_root [OF T])
  show "\<exists>r. isBalanced t = Some (r, t)"
    by (simp add: isBalanced_def isBalanced_rec_tree [OF T])
qed

theorem queries_leave_tree_unchanged_witness:
  "is_tree (heap three_nodes) None (root three_nodes) three_shape \<and>
   (\<exists>r. has 3 three_nodes = Some (r, three_nodes)) \<and>
   (\<exists>r. get 3 three_nodes = Some (r, three_nodes)) \<and>
   (\<exists>r. tree_min three_nodes = Some (r, three_nodes)) \<and>
   (\<exists>r. tree_max three_nodes = Some (r, three_nodes)) \<and>
   (\<exists>r. minNode three_nodes = Some (r, three_nodes)) \<and>
   (\<exists>r. maxNode three_nodes = Some (r, three_nodes)) \<and>
   (\<exists>r. at 1 three_nodes = Some (r, three_nodes)) \<and>
   (\<exists>r. keys three_nodes = Some (r, three_nodes)) \<and>
   (\<exists>r. tree_values three_nodes = Some (r, three_nodes)) \<and>
   (\<exists>r. entries three_nodes = Some (r, three_nodes)) \<and>
   (\<exists>r. isBalanced three_nodes = Some (r, three_nodes))"
  using queries_leave_tree_unchanged [of 3 three_nodes 1 three_shape] three_nodes_is_tree
  by simp

text \<open>
  Claim C8.  On a tree satisfying the data-model invariants, \<open>range(low, high, visitor)\<close>
  calls the visitor on the nodes in order whose keys \<open>k\<close> satisfy \<open>low \<le> k\<close> and \<open>k \<le> high\<close>
  under the comparator, both bounds included, in ascending key order (the in-order
  sequence of the nodes, which is sorted), and stops at the first node for which the
  visitor returns a truthy value; the tree is unchanged.
\<close>

theorem range_visits_interval:
  assumes "valid_comparator (comparator t)" and "tree_inv gr t T"
  shows "tree_range low high fn st t =
           Some (visit fn
                  (filter (\<lambda>n. comparator t (key_of (heap t) n) low \<ge> 0 \<and>
                               comparator t (key_of (heap t) n) high \<le> 0) (nodes T)) st, t) \<and>
         sorted_wrt (\<lambda>x y. comparator t (key_of (heap t) x) (key_of (heap t) y) \<le> 0) (nodes T)"
proof -
  from assms(2) have T: "is_tree (heap t) None (root t) T"
    and b: "bst_inv (comparator t) (noDuplicates t) gr (heap t) T"
    by (simp_all add: tree_inv_def)
  have srt: "sorted_wrt (\<lambda>x y. comparator t (key_of (heap t) x) (key_of (heap t) y) \<le> 0) (nodes T)"
    by (rule bst_inv_sorted [OF assms(1) bst_inv_weaken [OF b]])
  show ?thesis
    by (simp add: tree_range_def range_loop_root [OF T] range_list_sorted [OF assms(1) srt] srt)
qed

theorem range_visits_interval_witness:
  "valid_comparator (comparator three_nodes) \<and> tree_inv True three_nodes three_shape \<and>
   tree_range 2 3 (\<lambda>n st. (False, st @ [n])) [] three_nodes = Some ([1, 2], three_nodes) \<and>
   tree_range 2 3 (\<lambda>n st. (True, st @ [n])) [] three_nodes = Some ([1], three_nodes)"
proof -
  have vc: "valid_comparator (comparator three_nodes)"
    by (simp add: three_nodes_def valid_DEFAULT_COMPARE)
  have k: "key_of (heap three_nodes) 0 = 1" "key_of (heap three_nodes) 1 = 2"
    "key_of (heap three_nodes) (Suc 0) = 2"
    "key_of (heap three_nodes) 2 = 3" "comparator three_nodes = DEFAULT_COMPARE"
    by (simp_all add: three_nodes_def key_of_def)
  show ?thesis
    using range_visits_interval [OF vc three_nodes_inv, of 2 3 "\<lambda>n st. (False, st @ [n])" "[]"]
      range_visits_interval [OF vc three_nodes_inv, of 2 3 "\<lambda>n st. (True, st @ [n])" "[]"]
      vc three_nodes_inv
    by (simp add: k three_shape_def DEFAULT_COMPARE_def)
qed

text \<open>
  Claim C6.  \<open>load\<close> called on a tree whose size is not \<open>0\<close> throws its error
  (\<open>bulk-load: tree is not empty\<close>) and leaves the tree object, root, nodes and size, as it
  was; \<open>load\<close> called on a tree of size \<open>0\<close> with key and value sequences of equal length
  returns normally (with \<open>presort\<close>, for a comparator that is a total preorder).
\<close>

theorem load_requires_empty_tree:
  "(tsize t \<noteq> 0 \<longrightarrow>
      load ks vs presort t = Some (Inl (Error ''bulk-load: tree is not empty''), t)) \<and>
   (tsize t = 0 \<and> length ks = length vs \<and>
    (presort \<longrightarrow> valid_comparator (comparator t)) \<longrightarrow>
      (\<exists>t'. load ks vs presort t = Some (Inr (), t')))"
  using load_ok[of t presort vs ks] by (auto simp: load_not_empty)

theorem load_requires_empty_tree_witness:
  "tsize three_nodes \<noteq> 0 \<and>
   load [4] [''x''] False three_nodes =
     Some (Inl (Error ''bulk-load: tree is not empty''), three_nodes) \<and>
   tsize (new_AVLTree DEFAULT_COMPARE False :: (int, string) AVLTree) = 0 \<and>
   length [3, 1, 2 :: int] = length [''c'', ''a'', ''b''] \<and>
   valid_comparator (comparator (new_AVLTree DEFAULT_COMPARE False :: (int, string) AVLTree)) \<and>
   (\<exists>t'. load [3, 1, 2] [''c'', ''a'', ''b''] True
           (new_AVLTree DEFAULT_COMPARE False :: (int, string) AVLTree) = Some (Inr (), t'))"
proof -
  have 1: "tsize three_nodes \<noteq> 0" by (simp add: three_nodes_def)
  have 2: "tsize (new_AVLTree DEFAULT_COMPARE False :: (int, string) AVLTree) = 0"
    by (simp add: new_AVLTree_def)
  have 3: "valid_comparator (comparator (new_AVLTree DEFAULT_COMPARE False :: (int, string) AVLTree))"
    by (simp add: new_AVLTree_def valid_DEFAULT_COMPARE)
  show ?thesis
    using load_requires_empty_tree[of three_nodes "[4]" "[''x'']" False]
      load_requires_empty_tree[of "new_AVLTree DEFAULT_COMPARE False :: (int, string) AVLTree"
        "[3, 1, 2]" "[''c'', ''a'', ''b'']" True] 1 2 3
    by simp
qed


text \<open>
  Claim C1, amended.  For every comparator that is a total preorder, both modes, every
  finite sequence of \<open>set\<close> and \<open>delete\<close> calls on an initially empty tree and every prefix
  of it: the calls return, and afterwards the nodes reachable from the root form a tree
  in which every key of a left subtree is less than or equal to the key of the node
  (less, in reject-duplicates mode), every key of a right subtree is greater than or equal
  to it (greater, in reject-duplicates mode), every \<open>balanceFactor\<close> is the height of the
  left subtree minus the height of the right subtree and lies in \<open>[-1, 1]\<close>, and \<open>size\<close> is the
  number of nodes.  (The claim asks for greater keys in the right subtree in both modes.)
\<close>

theorem operations_preserve_invariants:
  fixes c :: "'k \<Rightarrow> 'k \<Rightarrow> int" and ops :: "('k, 'v) operation list"
  assumes "valid_comparator c"
  shows "\<exists>t T. run truthy (take n ops) (new_AVLTree c nd) = Some (Inr (), t) \<and>
     tree_inv nd t T"
proof -
  have v: "valid_comparator (comparator (new_AVLTree c nd :: ('k, 'v) AVLTree))"
    using assms by (simp add: new_AVLTree_def)
  from run_sinv[OF v sinv_new, of truthy "take n ops"] obtain t T where
    r: "run truthy (take n ops) (new_AVLTree c nd) = Some (Inr (), t)" and i: "sinv t T"
    and c: "comparator t = comparator (new_AVLTree c nd :: ('k, 'v) AVLTree)"
    and d: "noDuplicates t = noDuplicates (new_AVLTree c nd :: ('k, 'v) AVLTree)"
    by blast
  from c assms have "valid_comparator (comparator t)" by (simp add: new_AVLTree_def)
  from sinv_tree_inv[OF this i] d have "tree_inv nd t T" by (simp add: new_AVLTree_def)
  with r show ?thesis by blast
qed

theorem operations_preserve_invariants_witness:
  "valid_comparator (DEFAULT_COMPARE :: int \<Rightarrow> int \<Rightarrow> int) \<and>
   (\<exists>t T. run truthy_number (take 3 same_key_thrice) (new_AVLTree DEFAULT_COMPARE False)
            = Some (Inr (), t) \<and> tree_inv False t T)"
  using operations_preserve_invariants
    [of "DEFAULT_COMPARE :: int \<Rightarrow> int \<Rightarrow> int" truthy_number 3 same_key_thrice False]
    valid_DEFAULT_COMPARE [where 'k = int]
  by simp

text \<open>
  The claim as stated fails in duplicates mode: after \<open>set(1); set(1); set(1)\<close> the right
  child of the root holds the key \<open>1\<close> of the root, so no tree over the reachable nodes has
  greater keys in every right subtree.
\<close>

theorem duplicates_break_strict_order:
  "\<exists>t. run truthy_number same_key_thrice (new_AVLTree DEFAULT_COMPARE False) = Some (Inr (), t) \<and>
       \<not> (\<exists>T. tree_inv True t T)"
proof -
  from same_key_thrice_run obtain t where
    r: "run truthy_number same_key_thrice (new_AVLTree DEFAULT_COMPARE False) = Some (Inr (), t)"
    and f: "root t = Some (Suc 0)" "right_of (heap t) (Suc 0) = Some 0" "key_of (heap t) 0 = 1"
      "key_of (heap t) (Suc 0) = 1"
    by (auto simp: map_option_case split: option.splits)
  have v: "valid_comparator (comparator (new_AVLTree DEFAULT_COMPARE False :: (int, string) AVLTree))"
    by (simp add: new_AVLTree_def valid_DEFAULT_COMPARE)
  from run_sinv[OF v sinv_new, of truthy_number same_key_thrice] r
  have "comparator t = comparator (new_AVLTree DEFAULT_COMPARE False :: (int, string) AVLTree)"
    by auto
  then have c: "comparator t = DEFAULT_COMPARE" by (simp add: new_AVLTree_def)
  have "\<not> (\<exists>T. tree_inv True t T)"
  proof
    assume "\<exists>T. tree_inv True t T"
    then obtain T where it: "is_tree (heap t) None (Some 1) T"
      and b: "bst_inv DEFAULT_COMPARE (noDuplicates t) True (heap t) T"
      by (auto simp: tree_inv_def f c)
    from it obtain l r where T: "T = Nd l 1 r" and ir: "is_tree (heap t) (Some 1) (Some 0) r"
      by (cases T) (auto simp: f)
    from ir have "0 \<in> set (nodes r)" by (cases r) auto
    with b T have "DEFAULT_COMPARE (key_of (heap t) 0) (key_of (heap t) 1) > 0"
      by (auto simp: list_all_iff)
    then show False by (simp add: f DEFAULT_COMPARE_def)
  qed
  with r show ?thesis by blast
qed

text \<open>
  Claim C2.  \<open>delete\<close> leaves at once when \<open>!key\<close> holds, so a present key that is a falsy
  value is not removed: in the tree with the keys \<open>0\<close> and \<open>1\<close>, \<open>has(0)\<close> is true, yet
  \<open>delete(0)\<close> returns false and leaves the size at \<open>2\<close>.
\<close>

theorem delete_keeps_present_falsy_key:
  "map_option
     (\<lambda>(r, t). (map_option fst (has 0 t),
                map_option (\<lambda>(b, t'). (b, tsize t', root t' = root t)) (delete truthy_number 0 t)))
     (run truthy_number keys_0_1 (new_AVLTree DEFAULT_COMPARE False))
   = Some (Some True, Some (False, 2, True))"
  by code_simp

text \<open>
  Claim C3.  After \<open>set(0); set(1); delete(0); delete(1)\<close> on an empty tree the key \<open>0\<close> is
  still there: the size is \<open>1\<close> and the root is present.
\<close>

theorem delete_all_leaves_falsy_key:
  "map_option (\<lambda>(r, t). (r, root t, tsize t))
     (run truthy_number set_then_delete_0_1 (new_AVLTree DEFAULT_COMPARE False))
   = Some (Inr (), Some 0, 1)"
  by code_simp

text \<open>
  Claim C9.  \<open>shift\<close> on the tree with the keys \<open>0\<close> and \<open>1\<close> returns the entry of the key \<open>0\<close>
  and removes nothing, and so does \<open>pop\<close> on the tree with the keys \<open>-1\<close> and \<open>0\<close>: the size
  stays \<open>2\<close> and the key \<open>0\<close> is still found.
\<close>

theorem shift_pop_keep_falsy_key:
  "map_option
     (\<lambda>(r, t). map_option (\<lambda>(e, t'). (e, tsize t', map_option fst (has 0 t')))
                 (shift truthy_number t))
     (run truthy_number keys_0_1 (new_AVLTree DEFAULT_COMPARE False))
   = Some (Some (Some (0, Some ''a''), 2, Some True)) \<and>
   map_option
     (\<lambda>(r, t). map_option (\<lambda>(e, t'). (e, tsize t', map_option fst (has 0 t')))
                 (pop truthy_number t))
     (run truthy_number keys_minus1_0 (new_AVLTree DEFAULT_COMPARE False))
   = Some (Some (Some (0, Some ''b''), 2, Some True))"
  by code_simp

text \<open>
  Claim C5, amended.  For a comparator that is a total preorder, every sequence of \<open>set\<close> and
  \<open>delete\<close> calls on an initially empty tree and every key \<open>k\<close>: if the sequence holds a call
  \<open>set(k', v)\<close> with \<open>k'\<close> equal to \<open>k\<close> under the comparator and no later call has a key equal
  to \<open>k\<close> (the key was set and neither set again nor deleted afterwards), then \<open>has(k)\<close>
  returns true, and \<open>get(k)\<close> returns \<open>v\<close> when the tree rejects duplicates or no earlier
  \<open>set\<close> had a key equal to \<open>k\<close>; if no \<open>set\<close> of the sequence has a key equal to \<open>k\<close>, \<open>has(k)\<close>
  returns false.
\<close>

theorem lookups_follow_sets:
  fixes c :: "'k \<Rightarrow> 'k \<Rightarrow> int" and ops ops1 ops2 :: "('k, 'v) operation list"
  assumes vc: "valid_comparator c"
  shows "(c k k' = 0 \<and> (\<forall>op\<in>set ops2. c k (op_key op) \<noteq> 0) \<longrightarrow>
            (\<exists>t. run truthy (ops1 @ Set k' v # ops2) (new_AVLTree c nd) = Some (Inr (), t) \<and>
                 has k t = Some (True, t) \<and>
                 (nd \<or> (\<forall>op\<in>set ops1. is_Set op \<longrightarrow> c k (op_key op) \<noteq> 0) \<longrightarrow>
                    get k t = Some (v, t)))) \<and>
         ((\<forall>op\<in>set ops. is_Set op \<longrightarrow> c k (op_key op) \<noteq> 0) \<longrightarrow>
            (\<exists>t. run truthy ops (new_AVLTree c nd) = Some (Inr (), t) \<and>
                 has k t = Some (False, t)))"
proof (intro conjI impI)
  let ?t0 = "new_AVLTree c nd :: ('k, 'v) AVLTree"
  have c0: "comparator ?t0 = c" and n0: "noDuplicates ?t0 = nd" by (simp_all add: new_AVLTree_def)
  have v0: "valid_comparator (comparator ?t0)" using vc by (simp add: c0)
  { assume no: "\<forall>op\<in>set ops. is_Set op \<longrightarrow> c k (op_key op) \<noteq> 0"
    from run_eqv_none[OF v0 sinv_new, of ops k truthy] no obtain t T where
      r: "run truthy ops ?t0 = Some (Inr (), t)" and i: "sinv t T"
      and ct: "comparator t = c" and e: "eqv c k (entries_of (heap t) T) = []"
      by (auto simp: c0 new_entries eqv_def)
    from ct vc have vt: "valid_comparator (comparator t)" by simp
    from has_ok[OF vt i, of k] e ct have "has k t = Some (False, t)" by simp
    with r show "\<exists>t. run truthy ops ?t0 = Some (Inr (), t) \<and> has k t = Some (False, t)"
      by blast }
  { assume a: "c k k' = 0 \<and> (\<forall>op\<in>set ops2. c k (op_key op) \<noteq> 0)"
    then have eq: "c k k' = 0" and o2: "\<forall>op\<in>set ops2. c k (op_key op) \<noteq> 0" by simp_all
    from run_sinv[OF v0 sinv_new, of truthy ops1] obtain t1 T1 where
      r1: "run truthy ops1 ?t0 = Some (Inr (), t1)" and i1: "sinv t1 T1"
      and c1: "comparator t1 = c" and n1: "noDuplicates t1 = nd"
      by (auto simp: c0 n0)
    from c1 vc have v1: "valid_comparator (comparator t1)" by simp
    from tree_set_ok[OF v1 i1, of k' v] obtain t2 T2 where
      r2: "tree_set k' v t1 = Some (Inr (), t2)" and i2: "sinv t2 T2"
      and c2: "comparator t2 = c" and n2: "noDuplicates t2 = nd"
      and e2: "entries_of (heap t2) T2 = ins_list c nd k' v (entries_of (heap t1) T1)"
      by (auto simp: c1 n1)
    from c2 vc have v2: "valid_comparator (comparator t2)" by simp
    from run_eqv_other[OF v2 i2, of ops2 k truthy] o2 obtain t3 T3 where
      r3: "run truthy ops2 t2 = Some (Inr (), t3)" and i3: "sinv t3 T3"
      and c3: "comparator t3 = c"
      and e3: "eqv c k (entries_of (heap t3) T3) = eqv c k (entries_of (heap t2) T2)"
      by (auto simp: c2)
    from c3 vc have v3: "valid_comparator (comparator t3)" by simp
    have r: "run truthy (ops1 @ Set k' v # ops2) ?t0 = Some (Inr (), t3)"
      using r1 r2 r3 by (simp add: run_append)
    have ne: "eqv c k (entries_of (heap t3) T3) \<noteq> []"
      unfolding e3 e2 by (rule eqv_ins_nonempty[OF vc eq])
    from has_ok[OF v3 i3, of k] ne c3 have h: "has k t3 = Some (True, t3)" by simp
    have g: "nd \<or> (\<forall>op\<in>set ops1. is_Set op \<longrightarrow> c k (op_key op) \<noteq> 0) \<longrightarrow>
             get k t3 = Some (v, t3)"
    proof
      assume d: "nd \<or> (\<forall>op\<in>set ops1. is_Set op \<longrightarrow> c k (op_key op) \<noteq> 0)"
      have pre: "if nd then sorted_wrt (\<lambda>a b. c (fst a) (fst b) < 0) (entries_of (heap t1) T1)
                 else eqv c k (entries_of (heap t1) T1) = []"
      proof (cases nd)
        case True
        with sinv_strict[OF i1] n1 c1 show ?thesis by simp
      next
        case False
        with d have no: "\<forall>op\<in>set ops1. is_Set op \<longrightarrow> c k (op_key op) \<noteq> 0" by simp
        from run_eqv_none[OF v0 sinv_new, of ops1 k truthy] no r1 obtain T1' where
          "sinv t1 T1'" "eqv c k (entries_of (heap t1) T1') = []"
          by (auto simp: c0 new_entries eqv_def)
        moreover from this(1) i1 have "T1' = T1"
          by (auto simp: sinv_def dest: is_tree_unique)
        ultimately show ?thesis using False by simp
      qed
      from eqv_ins_same[OF vc eq pre, of v]
      have "snd ` set (eqv (comparator t3) k (entries_of (heap t3) T3)) = {v}"
        by (simp add: c3 e3 e2)
      from get_ok[OF v3 i3 this] show "get k t3 = Some (v, t3)" .
    qed
    from r h g show "\<exists>t. run truthy (ops1 @ Set k' v # ops2) ?t0 = Some (Inr (), t) \<and>
         has k t = Some (True, t) \<and>
         (nd \<or> (\<forall>op\<in>set ops1. is_Set op \<longrightarrow> c k (op_key op) \<noteq> 0) \<longrightarrow> get k t = Some (v, t))"
      by blast }
qed


theorem lookups_follow_sets_witness:
  "valid_comparator (DEFAULT_COMPARE :: int \<Rightarrow> int \<Rightarrow> int) \<and>
   DEFAULT_COMPARE (1 :: int) 1 = 0 \<and>
   (\<exists>t. run truthy_number ([] @ Set 1 (Some ''a'') # [Set 2 (Some ''b'')])
          (new_AVLTree DEFAULT_COMPARE True) = Some (Inr (), t) \<and>
        has 1 t = Some (True, t) \<and> get 1 t = Some (Some ''a'', t)) \<and>
   (\<exists>t. run truthy_number [Set 2 (Some ''b'')] (new_AVLTree DEFAULT_COMPARE True)
          = Some (Inr (), t) \<and>
        has 1 t = Some (False, t))"
  using lookups_follow_sets [OF valid_DEFAULT_COMPARE,
      where k = "1 :: int" and k' = 1 and ?ops2.0 = "[Set 2 (Some ''b'')]"
        and ?ops1.0 = "[]" and v = "Some ''a''" and nd = True and truthy = truthy_number
        and ops = "[Set 2 (Some ''b'')]"]
    valid_DEFAULT_COMPARE [where 'k = int]
  by (simp add: DEFAULT_COMPARE_def)

text \<open>
  The claim as stated fails in duplicates mode: after \<open>set(1, 'a'); set(1, 'b')\<close> the call
  \<open>get(1)\<close> returns \<open>'a'\<close>, the value of the first call.
\<close>

theorem get_returns_older_duplicate:
  "map_option (\<lambda>(r, t). (r, map_option fst (has 1 t), map_option fst (get 1 t)))
     (run truthy_number same_key_twice (new_AVLTree DEFAULT_COMPARE False))
   = Some (Inr (), Some True, Some (Some ''a'')) \<and>
   last same_key_twice = Set 1 (Some ''b'')"
  by code_simp

end
